(* ===== verification/Prelude.thy ===== *)
theory Prelude
  imports Main "HOL-Library.AList" "HOL-Library.Word"
begin

text \<open>
  Shared vocabulary of the development.

  \<^item> Go maps. A \<open>map[K]V\<close> is an association list with distinct keys (\<open>gomap\<close>), so that
    \<open>len\<close> and \<open>range\<close> have a meaning; reading a missing key gives the zero value of
    \<open>V\<close>, which is the first argument of \<open>mget\<close>. The locale \<open>go_map\<close> states what the
    components rely on.
  \<^item> Go times and durations. A \<open>time.Time\<close> is the number of nanoseconds since Go's zero
    time (so \<open>IsZero\<close> is equality with 0); a \<open>time.Duration\<close> is a 64-bit nanosecond
    count, and products that can leave that range are wrapped by \<open>wrap64\<close>.
  \<^item> Errors as values: \<open>Inl\<close> is the error of a Go function returning \<open>error\<close>.
  \<^item> Facts on counting and filtering that the components share.
\<close>

named_theorems sched_simps \<open>unfolding rules of the scheduler component\<close>
named_theorems store_simps \<open>unfolding rules of the task-instance store\<close>

section \<open>Go maps\<close>

type_synonym ('k, 'v) gomap = "('k \<times> 'v) list"

definition mget :: "'v \<Rightarrow> ('k, 'v) gomap \<Rightarrow> 'k \<Rightarrow> 'v" where
  "mget d m k = (case map_of m k of None \<Rightarrow> d | Some v \<Rightarrow> v)"

definition mput :: "'k \<Rightarrow> 'v \<Rightarrow> ('k, 'v) gomap \<Rightarrow> ('k, 'v) gomap" where
  "mput k v m = AList.update k v m"

definition mhas :: "('k, 'v) gomap \<Rightarrow> 'k \<Rightarrow> bool" where
  "mhas m k = (map_of m k \<noteq> None)"

definition madd :: "'k \<Rightarrow> int \<Rightarrow> ('k, int) gomap \<Rightarrow> ('k, int) gomap" where
  "madd k n m = mput k (mget 0 m k + n) m"

definition wf_gomap :: "('k, 'v) gomap \<Rightarrow> bool" where
  "wf_gomap m = distinct (map fst m)"

locale go_map =
  fixes get :: "'v \<Rightarrow> 'm \<Rightarrow> 'k \<Rightarrow> 'v"
    and put :: "'k \<Rightarrow> 'v \<Rightarrow> 'm \<Rightarrow> 'm"
    and empty :: "'m"
    and wf :: "'m \<Rightarrow> bool"
  assumes get_empty: "get d empty k = d"
    and get_put: "get d (put k v m) k' = (if k' = k then v else get d m k')"
    and wf_empty: "wf empty"
    and wf_put: "wf m \<Longrightarrow> wf (put k v m)"
begin

text \<open>Writing a list of keys one by one (a Go \<open>range\<close> loop that only assigns): a key in the
  list reads back the written value, any other key is untouched.\<close>

lemma get_fold_put:
  "get d (fold (\<lambda>k. put k (f k)) ks m) k = (if k \<in> set ks then f k else get d m k)"
  by (induction ks arbitrary: m) (auto simp: get_put)

lemma wf_fold_put: "wf m \<Longrightarrow> wf (fold (\<lambda>k. put k (f k)) ks m)"
  by (induction ks arbitrary: m) (auto simp: wf_put)

end

interpretation gm: go_map mget mput "[]" wf_gomap
  by unfold_locales (auto simp: mget_def mput_def wf_gomap_def update_conv distinct_update)

lemma mget_Nil [simp]: "mget d [] k = d"
  by (rule gm.get_empty)

lemma mget_mput [simp]: "mget d (mput k v m) k' = (if k' = k then v else mget d m k')"
  by (rule gm.get_put)

lemma mget_madd [simp]: "mget 0 (madd k n m) k' = mget 0 m k' + (if k' = k then n else 0)"
  by (simp add: madd_def)

lemma mget_Cons [simp]: "mget d ((k, v) # m) k' = (if k' = k then v else mget d m k')"
  by (auto simp: mget_def)

lemma mhas_mput [simp]: "mhas (mput k v m) k' \<longleftrightarrow> k' = k \<or> mhas m k'"
  by (auto simp: mhas_def mput_def update_conv)

lemma mhas_Nil [simp]: "\<not> mhas [] k"
  by (simp add: mhas_def)

lemma mget_not_mhas: "\<not> mhas m k \<Longrightarrow> mget d m k = d"
  by (simp add: mhas_def mget_def)

lemma mhas_iff_keys: "mhas m k \<longleftrightarrow> k \<in> fst ` set m"
  by (auto simp: mhas_def map_of_eq_None_iff)

section \<open>Time\<close>

type_synonym time = int
type_synonym duration = int

definition second :: duration where "second = 1000000000"
definition minute :: duration where "minute = 60 * second"

definition IsZero :: "time \<Rightarrow> bool" where
  "IsZero t = (t = 0)"

text \<open>Two's-complement wrap-around of a 64-bit product.\<close>

definition wrap64 :: "int \<Rightarrow> int" where
  "wrap64 x = (x + 2 ^ 63) mod 2 ^ 64 - 2 ^ 63"

lemma wrap64_id: "- (2 ^ 63) \<le> x \<Longrightarrow> x < 2 ^ 63 \<Longrightarrow> wrap64 x = x"
  by (simp add: wrap64_def)

lemma wrap64_bounds: "- (2 ^ 63) \<le> wrap64 x \<and> wrap64 x < 2 ^ 63"
  by (simp add: wrap64_def)

section \<open>Counting\<close>

definition count_if :: "('a \<Rightarrow> bool) \<Rightarrow> 'a list \<Rightarrow> int" where
  "count_if P xs = int (length (filter P xs))"

lemma count_if_Nil [simp]: "count_if P [] = 0"
  by (simp add: count_if_def)

lemma count_if_Cons [simp]: "count_if P (x # xs) = (if P x then 1 else 0) + count_if P xs"
  by (simp add: count_if_def)

lemma count_if_append [simp]: "count_if P (xs @ ys) = count_if P xs + count_if P ys"
  by (simp add: count_if_def)

lemma count_if_nonneg [simp]: "0 \<le> count_if P xs"
  by (simp add: count_if_def)

lemma count_if_0_iff: "count_if P xs = 0 \<longleftrightarrow> (\<forall>x\<in>set xs. \<not> P x)"
  by (auto simp: count_if_def filter_empty_conv)

lemma count_if_pos_iff: "0 < count_if P xs \<longleftrightarrow> (\<exists>x\<in>set xs. P x)"
  using count_if_0_iff [of P xs] count_if_nonneg [of P xs] by (metis order_less_le)

lemma count_if_all_iff: "count_if P xs = int (length xs) \<longleftrightarrow> (\<forall>x\<in>set xs. P x)"
  by (metis count_if_def filter_id_conv length_filter_less nat_int_comparison(1) order_less_irrefl)

section \<open>Prefixes\<close>

lemma takeWhile_short: "length (takeWhile P xs) < length xs \<longleftrightarrow> (\<exists>x\<in>set xs. \<not> P x)"
  by (induction xs) auto

end
