(* ===== verification/Domain.thy ===== *)
theory Domain
  imports Prelude
begin

text \<open>
  The types of package \<open>internal/domain\<close> that the scheduler, the store and the validators
  share, with their own operations: task and run states (\<open>state.go\<close>), the DAG and task
  specification (\<open>dag.go\<close>), schedule classification (\<open>schedule.go\<close>), run identifiers
  (\<open>identifiers.go\<close>), parameter schemas (\<open>schema.go\<close>) and pools (\<open>pool.go\<close>).

  Go's string-valued enumerations are datatypes with one constructor per declared constant and
  an \<open>Other\<close> constructor for any other string; the zero value is \<open>Other ''''\<close>. Strings are
  byte sequences; \<open>ToLower\<close> and \<open>TrimSpace\<close> are modelled on ASCII. Error values keep the
  sentinel and the data the message is formatted from, not the text.
\<close>

section \<open>States\<close>

datatype TaskState =
    TaskStateNone
  | TaskStateScheduled
  | TaskStateQueued
  | TaskStateRunning
  | TaskStateSuccess
  | TaskStateFailed
  | TaskStateSkipped
  | TaskStateUpstreamFailed
  | TaskStateUpForRetry
  | TaskStateUpForReschedule
  | TaskStateOther string

abbreviation TaskStateZero :: TaskState where
  "TaskStateZero \<equiv> TaskStateOther ''''"

definition IsTerminal :: "TaskState \<Rightarrow> bool" where
  "IsTerminal s = (case s of
      TaskStateSuccess \<Rightarrow> True
    | TaskStateFailed \<Rightarrow> True
    | TaskStateSkipped \<Rightarrow> True
    | TaskStateUpstreamFailed \<Rightarrow> True
    | _ \<Rightarrow> False)"

datatype DagRunState =
    DagRunStateQueued
  | DagRunStateRunning
  | DagRunStateSuccess
  | DagRunStateFailed
  | DagRunStateOther string

definition IsTerminalRun :: "DagRunState \<Rightarrow> bool" where
  "IsTerminalRun s = (s = DagRunStateSuccess \<or> s = DagRunStateFailed)"

section \<open>The DAG specification\<close>

datatype TaskType =
    TaskTypePython
  | TaskTypeBash
  | TaskTypeAirflowOperator
  | TaskTypeDbtGroup
  | TaskTypeOther string

datatype ExecutionMode = ExecutionModePod | ExecutionModeOther string

datatype TriggerRule =
    TriggerRuleAllSuccess
  | TriggerRuleAllFailed
  | TriggerRuleAllDone
  | TriggerRuleOneSuccess
  | TriggerRuleOneFailed
  | TriggerRuleOther string

text \<open>A decoded JSON value (\<open>any\<close>); numbers keep their text.\<close>

datatype JSON =
    JNull | JBool bool | JNumber string | JString string | JArray "JSON list"
  | JObject "(string \<times> JSON) list"

type_synonym json_object = "(string, JSON) gomap"

record ResourceQuantity =
  q_CPU :: string
  q_Memory :: string
  q_EphemeralStorage :: string

record Resources =
  r_Requests :: "ResourceQuantity option"
  r_Limits :: "ResourceQuantity option"
  r_Claims :: "json_object list"

record Execution =
  e_NodeSelector :: "(string, string) gomap"
  e_Tolerations :: "json_object list"
  e_ServiceAccount :: string
  e_ImagePullPolicy :: string
  e_PriorityClassName :: string
  e_TerminationGracePeriodSeconds :: "int option"
  e_RuntimeClassName :: "string option"
  e_TopologySpreadConstraints :: "json_object list"
  e_Affinity :: json_object
  e_ResourceClaims :: "json_object list"
  e_Labels :: "(string, string) gomap"
  e_Annotations :: "(string, string) gomap"

record TaskSpec =
  t_TaskID :: string
  t_Type :: TaskType
  t_DependsOn :: "string list"
  t_TriggerRule :: TriggerRule
  t_Pool :: string
  t_Retries :: "int option"
  t_RetryDelaySeconds :: "int option"
  t_ExecutionTimeoutSeconds :: "int option"
  t_ExecutionMode :: ExecutionMode
  t_Entrypoint :: string
  t_Env :: "(string, string) gomap"
  t_Variables :: "string list"
  t_Connections :: "string list"
  t_Resources :: "Resources option"
  t_Execution :: "Execution option"
  t_XComInput :: "(string, string list) gomap"
  t_XComSchema :: json_object
  t_CallArgs :: json_object
  t_OperatorClass :: string
  t_OperatorArgs :: json_object
  t_OnFailureCallback :: bool

record DefaultArgs =
  a_Retries :: int
  a_RetryDelaySeconds :: int
  a_ExecutionTimeoutSeconds :: int

record StagingConfig =
  s_Enabled :: bool
  s_Size :: string
  s_StorageClass :: string

record ParamSpec =
  p_Default :: string
  p_Schema :: string

record AlertRule =
  al_Type :: string
  al_Conn :: string
  al_Message :: string

record AlertsConfig =
  ac_OnFailure :: "AlertRule list"

record DAGSpec =
  d_SchemaVersion :: string
  d_DagID :: string
  d_DagVersion :: string
  d_Image :: string
  d_Description :: string
  d_Owner :: string
  d_Tags :: "string list"
  d_Schedule :: "string option"
  d_ScheduleTZ :: string
  d_StartDate :: string
  d_EndDate :: "string option"
  d_MaxActiveRuns :: int
  d_MaxActiveTasks :: int
  d_MinIdleWorkers :: int
  d_Catchup :: bool
  d_DefaultArgs :: "DefaultArgs option"
  d_Staging :: "StagingConfig option"
  d_Alerts :: "AlertsConfig option"
  d_Variables :: "string list"
  d_Connections :: "string list"
  d_Params :: "(string, ParamSpec) gomap"
  d_Tasks :: "TaskSpec list"
  d_Source :: string

definition EffectiveExecutionMode :: "TaskSpec \<Rightarrow> ExecutionMode" where
  "EffectiveExecutionMode t =
     (if t_ExecutionMode t \<noteq> ExecutionModeOther '''' then t_ExecutionMode t else ExecutionModePod)"

section \<open>Errors of the domain checks\<close>

datatype ParamProblem =
    ParamParsingSchema | ParamLoadingSchema | ParamInvalidSchema
  | ParamDefaultNotJSON | ParamDefaultViolates

datatype RunIDProblem =
    RunIDEmpty | RunIDDotReference | RunIDSeparator | RunIDNull | RunIDTooLong

datatype DomainError =
    ErrRemovedTaskType string
  | ErrParam string ParamProblem
  | ErrLoadSchemas
  | ErrSchemaValidation
  | ErrDuplicateTaskID string
  | ErrUnknownDependency string string
  | ErrCyclicDAG "string list"
  | ErrQuantity string string string string
  | ErrInvalidSchedule string
  | ErrInvalidRunID RunIDProblem

section \<open>Schedules\<close>

definition is_space :: "char \<Rightarrow> bool" where
  "is_space c = (c \<in> {CHR 0x09, CHR 0x0A, CHR 0x0B, CHR 0x0C, CHR 0x0D, CHR 0x20})"

definition TrimSpace :: "string \<Rightarrow> string" where
  "TrimSpace s = rev (dropWhile is_space (rev (dropWhile is_space s)))"

definition lower_char :: "char \<Rightarrow> char" where
  "lower_char c =
     (if 65 \<le> (of_char c :: nat) \<and> (of_char c :: nat) \<le> 90 then char_of ((of_char c :: nat) + 32) else c)"

definition ToLower :: "string \<Rightarrow> string" where
  "ToLower s = map lower_char s"

definition EqualFold :: "string \<Rightarrow> string \<Rightarrow> bool" where
  "EqualFold s t = (ToLower s = ToLower t)"

definition cronlessSchedules :: "string list" where
  "cronlessSchedules = [''@once'', ''@continuous'']"

definition IsCronlessSchedule :: "string \<Rightarrow> bool" where
  "IsCronlessSchedule expr =
     (let e = ToLower (TrimSpace expr) in e = '''' \<or> e \<in> set cronlessSchedules)"

definition IsOnceSchedule :: "string \<Rightarrow> bool" where
  "IsOnceSchedule expr = EqualFold (TrimSpace expr) ''@once''"

text \<open>\<open>parses\<close> is \<open>cron.ParseStandard\<close> succeeding (robfig/cron).\<close>

definition ValidateSchedule :: "(string \<Rightarrow> bool) \<Rightarrow> DAGSpec \<Rightarrow> DomainError + unit" where
  "ValidateSchedule parses d =
     (case d_Schedule d of
        None \<Rightarrow> Inr ()
      | Some s \<Rightarrow>
          (let expr = TrimSpace s in
           if IsCronlessSchedule expr then Inr ()
           else if \<not> parses expr then Inl (ErrInvalidSchedule expr)
           else Inr ()))"

section \<open>Run identifiers\<close>

definition ValidateRunID :: "string \<Rightarrow> DomainError + unit" where
  "ValidateRunID v =
     (if v = '''' then Inl (ErrInvalidRunID RunIDEmpty)
      else if v = ''.'' \<or> v = ''..'' then Inl (ErrInvalidRunID RunIDDotReference)
      else if CHR ''/'' \<in> set v \<or> CHR 0x5C \<in> set v then Inl (ErrInvalidRunID RunIDSeparator)
      else if CHR 0x00 \<in> set v then Inl (ErrInvalidRunID RunIDNull)
      else if 255 < length v then Inl (ErrInvalidRunID RunIDTooLong)
      else Inr ())"

section \<open>Parameter schemas\<close>

text \<open>What \<open>validateParamSpec\<close> calls of the jsonschema library.\<close>

record ('doc, 'sch) jsonschema_lib =
  js_UnmarshalJSON :: "string \<Rightarrow> 'doc option"
  js_AddResource :: "'doc \<Rightarrow> bool"
  js_Compile :: "'doc \<Rightarrow> 'sch option"
  js_Validate :: "'sch \<Rightarrow> 'doc \<Rightarrow> bool"

definition validateParamSpec ::
  "('doc, 'sch) jsonschema_lib \<Rightarrow> string \<Rightarrow> string \<Rightarrow> string \<Rightarrow> DomainError + unit" where
  "validateParamSpec js name schema def =
     (if length schema = 0 \<or> schema = ''{}'' then Inr ()
      else case js_UnmarshalJSON js schema of
        None \<Rightarrow> Inl (ErrParam name ParamParsingSchema)
      | Some doc \<Rightarrow>
          if \<not> js_AddResource js doc then Inl (ErrParam name ParamLoadingSchema)
          else case js_Compile js doc of
            None \<Rightarrow> Inl (ErrParam name ParamInvalidSchema)
          | Some compiled \<Rightarrow>
              if length def = 0 \<or> def = ''null'' then Inr ()
              else case js_UnmarshalJSON js def of
                None \<Rightarrow> Inl (ErrParam name ParamDefaultNotJSON)
              | Some inst \<Rightarrow>
                  if \<not> js_Validate js compiled inst then Inl (ErrParam name ParamDefaultViolates)
                  else Inr ())"

fun validate_params ::
  "('doc, 'sch) jsonschema_lib \<Rightarrow> (string, ParamSpec) gomap \<Rightarrow> DomainError + unit" where
  "validate_params js [] = Inr ()"
| "validate_params js ((name, p) # ps) =
     (case validateParamSpec js name (p_Schema p) (p_Default p) of
        Inl e \<Rightarrow> Inl e
      | Inr _ \<Rightarrow> validate_params js ps)"

section \<open>Resource quantities\<close>

fun quantity_fields ::
  "(string \<Rightarrow> bool) \<Rightarrow> string \<Rightarrow> string \<Rightarrow> (string \<times> string) list \<Rightarrow> DomainError + unit" where
  "quantity_fields parses tid field [] = Inr ()"
| "quantity_fields parses tid field ((name, value) # fs) =
     (if value = '''' then quantity_fields parses tid field fs
      else if \<not> parses value then Inl (ErrQuantity tid field name value)
      else quantity_fields parses tid field fs)"

fun quantity_blocks ::
  "(string \<Rightarrow> bool) \<Rightarrow> string \<Rightarrow> (string \<times> ResourceQuantity option) list \<Rightarrow> DomainError + unit" where
  "quantity_blocks parses tid [] = Inr ()"
| "quantity_blocks parses tid ((field, None) # qs) = quantity_blocks parses tid qs"
| "quantity_blocks parses tid ((field, Some q) # qs) =
     (case quantity_fields parses tid field
             [(''cpu'', q_CPU q), (''memory'', q_Memory q),
              (''ephemeral-storage'', q_EphemeralStorage q)] of
        Inl e \<Rightarrow> Inl e
      | Inr _ \<Rightarrow> quantity_blocks parses tid qs)"

text \<open>\<open>parses\<close> is \<open>resource.ParseQuantity\<close> succeeding (Kubernetes apimachinery).\<close>

fun validateResourceQuantities :: "(string \<Rightarrow> bool) \<Rightarrow> TaskSpec list \<Rightarrow> DomainError + unit" where
  "validateResourceQuantities parses [] = Inr ()"
| "validateResourceQuantities parses (t # ts) =
     (case t_Resources t of
        None \<Rightarrow> validateResourceQuantities parses ts
      | Some r \<Rightarrow>
          (case quantity_blocks parses (t_TaskID t)
                  [(''requests'', r_Requests r), (''limits'', r_Limits r)] of
             Inl e \<Rightarrow> Inl e
           | Inr _ \<Rightarrow> validateResourceQuantities parses ts))"

section \<open>Pools\<close>

definition DefaultPoolName :: string where
  "DefaultPoolName = ''default_pool''"

section \<open>Facts\<close>

lemma IsTerminal_simps [simp]:
  "IsTerminal TaskStateSuccess" "IsTerminal TaskStateFailed" "IsTerminal TaskStateSkipped"
  "IsTerminal TaskStateUpstreamFailed"
  "\<not> IsTerminal TaskStateNone" "\<not> IsTerminal TaskStateScheduled" "\<not> IsTerminal TaskStateQueued"
  "\<not> IsTerminal TaskStateRunning" "\<not> IsTerminal TaskStateUpForRetry"
  "\<not> IsTerminal TaskStateUpForReschedule" "\<not> IsTerminal (TaskStateOther s)"
  by (simp_all add: IsTerminal_def)

lemma IsTerminal_iff:
  "IsTerminal s \<longleftrightarrow> s = TaskStateSuccess \<or> s = TaskStateFailed \<or> s = TaskStateSkipped \<or>
     s = TaskStateUpstreamFailed"
  by (cases s) simp_all

text \<open>A quantity that survives validation is empty or accepted by the Kubernetes parser, so the
  pod builder never drops one.\<close>

definition quantities_of :: "TaskSpec \<Rightarrow> string list" where
  "quantities_of t = (case t_Resources t of None \<Rightarrow> []
     | Some r \<Rightarrow> concat (map (\<lambda>q. case q of None \<Rightarrow> []
         | Some v \<Rightarrow> [q_CPU v, q_Memory v, q_EphemeralStorage v]) [r_Requests r, r_Limits r]))"

lemma quantity_fields_ok:
  "quantity_fields parses tid field fs = Inr () \<longleftrightarrow>
     (\<forall>v\<in>set (map snd fs). v = '''' \<or> parses v)"
  by (induction fs) (auto split: if_splits)

lemma quantity_blocks_Some:
  "quantity_blocks parses tid ((field, Some q) # qs) = Inr () \<longleftrightarrow>
     (\<forall>v\<in>{q_CPU q, q_Memory q, q_EphemeralStorage q}. v = '''' \<or> parses v) \<and>
     quantity_blocks parses tid qs = Inr ()"
proof -
  let ?f = "quantity_fields parses tid field
      [(''cpu'', q_CPU q), (''memory'', q_Memory q), (''ephemeral-storage'', q_EphemeralStorage q)]"
  have "?f = Inr () \<longleftrightarrow> (\<forall>v\<in>{q_CPU q, q_Memory q, q_EphemeralStorage q}. v = '''' \<or> parses v)"
    unfolding quantity_fields_ok by simp
  then show ?thesis by (cases ?f) (auto simp del: quantity_fields.simps)
qed

lemma quantity_blocks_ok:
  "quantity_blocks parses tid qs = Inr () \<longleftrightarrow>
     (\<forall>v\<in>set (concat (map (\<lambda>q. case q of None \<Rightarrow> []
         | Some v \<Rightarrow> [q_CPU v, q_Memory v, q_EphemeralStorage v]) (map snd qs))). v = '''' \<or> parses v)"
proof (induction qs)
  case (Cons b qs)
  obtain field q where b: "b = (field, q)" by (cases b)
  show ?case
  proof (cases q)
    case None
    with Cons b show ?thesis by simp
  next
    case (Some v)
    with Cons b show ?thesis by (simp add: quantity_blocks_Some del: quantity_blocks.simps(3))
  qed
qed simp

lemma validateResourceQuantities_ok:
  "validateResourceQuantities parses ts = Inr () \<longleftrightarrow>
     (\<forall>t\<in>set ts. \<forall>v\<in>set (quantities_of t). v = '''' \<or> parses v)"
proof (induction ts)
  case (Cons t ts)
  show ?case
  proof (cases "t_Resources t")
    case None
    with Cons show ?thesis by (simp add: quantities_of_def)
  next
    case (Some r)
    let ?b = "quantity_blocks parses (t_TaskID t) [(''requests'', r_Requests r), (''limits'', r_Limits r)]"
    have "?b = Inr () \<longleftrightarrow> (\<forall>v\<in>set (quantities_of t). v = '''' \<or> parses v)"
      unfolding quantity_blocks_ok by (simp add: quantities_of_def Some)
    moreover have "validateResourceQuantities parses (t # ts) = Inr () \<longleftrightarrow>
        ?b = Inr () \<and> validateResourceQuantities parses ts = Inr ()"
      by (cases ?b) (simp_all add: Some)
    ultimately show ?thesis using Cons by simp
  qed
qed simp

end
