(* ===== verification/TaskGraph.thy ===== *)
theory TaskGraph
  imports Domain
begin

text \<open>
  \<open>internal/domain/graph.go\<close>: the checks that refuse a task graph which cannot execute.
  \<open>findTaskCycle\<close> is a three-colour depth-first search; its recursion is bounded by fuel
  (one unit per nested \<open>visit\<close>), and \<open>visit_enough_fuel\<close> shows that one unit per declared
  task plus one is always enough, so the search returns. The facts below show that a reported
  path is a cycle, that a graph for which none is reported is acyclic, and that
  \<open>validateGraph\<close> accepts exactly the graphs with distinct identifiers, declared
  dependencies and no cycle.
\<close>

section \<open>The search\<close>

type_synonym deps_map = "(string, string list) gomap"
type_synonym dfs_state = "(string, nat) gomap \<times> string list"

definition white :: nat where "white = 0"
definition gray :: nat where "gray = 1"
definition black :: nat where "black = 2"

text \<open>The path returned when a gray task is met again.\<close>

definition close_cycle :: "string list \<Rightarrow> string \<Rightarrow> string list" where
  "close_cycle stack dep =
     (if dep \<in> set stack then dropWhile (\<lambda>x. x \<noteq> dep) stack @ [dep] else [dep, dep])"

fun visit :: "nat \<Rightarrow> deps_map \<Rightarrow> string \<Rightarrow> dfs_state \<Rightarrow> (string list option \<times> dfs_state) option"
and visit_deps :: "nat \<Rightarrow> deps_map \<Rightarrow> string list \<Rightarrow> dfs_state \<Rightarrow> (string list option \<times> dfs_state) option"
where
  "visit 0 deps tid st = None"
| "visit (Suc n) deps tid (color, stack) =
     (case visit_deps n deps (mget [] deps tid) (mput tid gray color, stack @ [tid]) of
        None \<Rightarrow> None
      | Some (Some c, st) \<Rightarrow> Some (Some c, st)
      | Some (None, (color', stack')) \<Rightarrow> Some (None, (mput tid black color', butlast stack')))"
| "visit_deps n deps [] st = Some (None, st)"
| "visit_deps n deps (dep # ds) (color, stack) =
     (if mget white color dep = gray then Some (Some (close_cycle stack dep), (color, stack))
      else if mget white color dep = white then
        (case visit n deps dep (color, stack) of
           None \<Rightarrow> None
         | Some (Some c, st) \<Rightarrow> Some (Some c, st)
         | Some (None, st) \<Rightarrow> visit_deps n deps ds st)
      else visit_deps n deps ds (color, stack))"

fun visit_order :: "nat \<Rightarrow> deps_map \<Rightarrow> string list \<Rightarrow> dfs_state \<Rightarrow> string list option option" where
  "visit_order n deps [] st = Some None"
| "visit_order n deps (tid # ids) (color, stack) =
     (if mget white color tid = white then
        (case visit n deps tid (color, stack) of
           None \<Rightarrow> None
         | Some (Some c, st) \<Rightarrow> Some (Some c)
         | Some (None, st) \<Rightarrow> visit_order n deps ids st)
      else visit_order n deps ids (color, stack))"

definition findTaskCycle :: "string list \<Rightarrow> deps_map \<Rightarrow> string list option option" where
  "findTaskCycle order deps = visit_order (Suc (length order)) deps order ([], [])"

section \<open>The graph the search walks\<close>

definition edges :: "deps_map \<Rightarrow> (string \<times> string) set" where
  "edges deps = {(a, b). b \<in> set (mget [] deps a)}"

definition is_cycle :: "deps_map \<Rightarrow> string list \<Rightarrow> bool" where
  "is_cycle deps c = (2 \<le> length c \<and> hd c = last c \<and>
     successively (\<lambda>a b. b \<in> set (mget [] deps a)) c)"

definition grays :: "(string, nat) gomap \<Rightarrow> string set" where
  "grays c = {x. mget white c x = gray}"

definition blacks :: "(string, nat) gomap \<Rightarrow> string set" where
  "blacks c = {x. mget white c x = black}"

text \<open>The stack is the list of gray tasks and a path; the finished (black) region is closed under
  dependencies and has no cycle.\<close>

definition dfs_inv :: "deps_map \<Rightarrow> dfs_state \<Rightarrow> bool" where
  "dfs_inv deps st = (case st of (c, s) \<Rightarrow>
     distinct s \<and> set s = grays c \<and>
     successively (\<lambda>a b. b \<in> set (mget [] deps a)) s \<and>
     (\<forall>x. mget white c x \<in> {white, gray, black}) \<and>
     edges deps `` blacks c \<subseteq> blacks c \<and>
     acyclic (edges deps \<inter> blacks c \<times> UNIV))"

lemmas color_defs = white_def gray_def black_def

lemma successively_path_dropWhile:
  "successively P xs \<Longrightarrow> successively P (dropWhile Q xs)"
  by (metis successively_append_iff takeWhile_dropWhile_id)

lemma close_cycle_is_cycle:
  assumes "successively (\<lambda>a b. b \<in> set (mget [] deps a)) s" "dep \<in> set s"
    and "dep \<in> set (mget [] deps (last s))"
  shows "is_cycle deps (close_cycle s dep)"
proof -
  let ?d = "dropWhile (\<lambda>x. x \<noteq> dep) s"
  have ne: "?d \<noteq> []" using assms(2) by (simp add: dropWhile_eq_Nil_conv)
  have "hd ?d = dep" using hd_dropWhile [OF ne] by simp
  moreover have "last ?d = last s"
    using ne by (metis last_appendR takeWhile_dropWhile_id)
  moreover have "successively (\<lambda>a b. b \<in> set (mget [] deps a)) ?d"
    by (rule successively_path_dropWhile [OF assms(1)])
  moreover have "1 \<le> length ?d" using ne by (simp add: Suc_leI)
  ultimately show ?thesis
    using assms ne by (simp add: is_cycle_def close_cycle_def successively_append_iff)
qed

lemma acyclic_insert_sink:
  assumes acyc: "acyclic (E \<inter> B \<times> UNIV)" and cl: "E `` B \<subseteq> B"
    and x: "x \<notin> B" and succ: "E `` {x} \<subseteq> B"
  shows "acyclic (E \<inter> insert x B \<times> UNIV)"
proof (rule acyclicI, rule allI, rule notI)
  let ?R = "E \<inter> insert x B \<times> UNIV" and ?S = "E \<inter> B \<times> UNIV"
  fix a assume a: "(a, a) \<in> ?R\<^sup>+"
  have into_B: "(u, v) \<in> ?R\<^sup>+ \<Longrightarrow> v \<in> B" for u v
    by (induction rule: trancl_induct) (use cl succ in auto)
  have stay: "(u, v) \<in> ?R\<^sup>+ \<Longrightarrow> u \<in> B \<Longrightarrow> (u, v) \<in> ?S\<^sup>+" for u v
  proof (induction rule: trancl_induct)
    case (base y)
    then show ?case by auto
  next
    case (step y z)
    with into_B have "y \<in> B" by blast
    with step have "(y, z) \<in> ?S" by auto
    with step show ?case by (meson trancl_into_trancl)
  qed
  from a into_B have "a \<in> B" by blast
  with a stay have "(a, a) \<in> ?S\<^sup>+" by blast
  with acyc show False by (simp add: acyclic_def)
qed

lemma dfs_inv_push:
  assumes "dfs_inv deps (c, s)" "mget white c tid = white"
    and "s = [] \<or> tid \<in> set (mget [] deps (last s))"
  shows "dfs_inv deps (mput tid gray c, s @ [tid])"
proof -
  have b: "blacks (mput tid gray c) = blacks c" and g: "grays (mput tid gray c) = insert tid (grays c)"
    using assms(2) by (auto simp: blacks_def grays_def color_defs)
  have "tid \<notin> grays c" using assms(2) by (simp add: grays_def color_defs)
  with assms b g show ?thesis
    by (auto simp: dfs_inv_def successively_append_iff)
qed

lemma dfs_inv_pop:
  assumes "dfs_inv deps (c, s @ [tid])" and "set (mget [] deps tid) \<subseteq> blacks c"
  shows "dfs_inv deps (mput tid black c, s)" "blacks (mput tid black c) = insert tid (blacks c)"
proof -
  have gr: "tid \<in> grays c" and dist: "tid \<notin> set s" using assms(1) by (auto simp: dfs_inv_def)
  then have nb: "tid \<notin> blacks c" by (simp add: grays_def blacks_def color_defs)
  show b: "blacks (mput tid black c) = insert tid (blacks c)"
    by (auto simp: blacks_def)
  have g: "grays (mput tid black c) = grays c - {tid}"
    by (auto simp: grays_def color_defs)
  have succ: "edges deps `` {tid} \<subseteq> blacks c" using assms(2) by (auto simp: edges_def)
  have "acyclic (edges deps \<inter> insert tid (blacks c) \<times> UNIV)"
    using acyclic_insert_sink [OF _ _ nb succ] assms(1) by (simp add: dfs_inv_def)
  moreover have "successively (\<lambda>a b. b \<in> set (mget [] deps a)) s" "distinct s" "grays c - {tid} = set s"
    "\<forall>x. mget white c x \<in> {white, gray, black}" "edges deps `` blacks c \<subseteq> blacks c"
    using assms(1) dist by (auto simp: dfs_inv_def successively_append_iff)
  moreover from this(5) succ have "edges deps `` insert tid (blacks c) \<subseteq> insert tid (blacks c)" by blast
  ultimately show "dfs_inv deps (mput tid black c, s)"
    unfolding dfs_inv_def prod.case b g by simp
qed

text \<open>Contracts of \<open>visit\<close> and of its loop over the dependencies.\<close>

definition visit_pre :: "deps_map \<Rightarrow> string \<Rightarrow> dfs_state \<Rightarrow> bool" where
  "visit_pre deps tid st = (case st of (c, s) \<Rightarrow> dfs_inv deps st \<and> mget white c tid = white \<and>
     (s = [] \<or> tid \<in> set (mget [] deps (last s))))"

definition deps_pre :: "deps_map \<Rightarrow> string list \<Rightarrow> dfs_state \<Rightarrow> bool" where
  "deps_pre deps ds st = (case st of (c, s) \<Rightarrow> dfs_inv deps st \<and> s \<noteq> [] \<and>
     set ds \<subseteq> set (mget [] deps (last s)))"

fun dfs_post :: "deps_map \<Rightarrow> string set \<Rightarrow> dfs_state \<Rightarrow> string list option \<Rightarrow> dfs_state \<Rightarrow> bool" where
  "dfs_post deps X st (Some c) st' = is_cycle deps c"
| "dfs_post deps X (c, s) None (c', s') \<longleftrightarrow>
     dfs_inv deps (c', s') \<and> s' = s \<and> X \<union> blacks c \<subseteq> blacks c'"

lemma dfs_post_trans:
  assumes "dfs_post deps X st None st1" "dfs_post deps Y st1 r st'"
  shows "dfs_post deps (X \<union> Y) st r st'"
proof (cases r)
  case None
  obtain c s c1 s1 c' s' where "st = (c, s)" "st1 = (c1, s1)" "st' = (c', s')"
    by (metis surj_pair)
  with assms None show ?thesis by auto
qed (use assms in auto)

lemma deps_pre_step:
  assumes "deps_pre deps (dep # ds) st" "dfs_post deps {dep} st None st1"
  shows "deps_pre deps ds st1"
  using assms by (cases st; cases st1) (auto simp: deps_pre_def)

lemma visit_step:
  assumes "visit_pre deps tid (c, s)"
    and "dfs_post deps (set (mget [] deps tid)) (mput tid gray c, s @ [tid]) None (c1, s1)"
  shows "dfs_post deps {tid} (c, s) None (mput tid black c1, butlast s1)"
proof -
  have b: "blacks (mput tid gray c) = blacks c"
    using assms(1) by (auto simp: visit_pre_def blacks_def color_defs)
  from assms(2) b have "dfs_inv deps (c1, s @ [tid])" "s1 = s @ [tid]"
    "set (mget [] deps tid) \<subseteq> blacks c1" "blacks c \<subseteq> blacks c1" by auto
  with dfs_inv_pop [of deps c1 s tid] show ?thesis by auto
qed

lemma visit_sound:
  "visit n deps tid st = Some (r, st') \<Longrightarrow> visit_pre deps tid st \<Longrightarrow> dfs_post deps {tid} st r st'"
  "visit_deps n deps ds st = Some (r, st') \<Longrightarrow> deps_pre deps ds st \<Longrightarrow> dfs_post deps (set ds) st r st'"
proof (induction n deps tid st and n deps ds st arbitrary: r st' and r st' rule: visit_visit_deps.induct)
  case (2 n deps tid color stack)
  let ?st = "(mput tid gray color, stack @ [tid])"
  have pre: "deps_pre deps (mget [] deps tid) ?st"
    using dfs_inv_push "2.prems"(2) by (simp add: visit_pre_def deps_pre_def)
  from "2.prems"(1) obtain r1 c1 s1 where
    v: "visit_deps n deps (mget [] deps tid) ?st = Some (r1, (c1, s1))"
    by (auto split: option.splits)
  have post: "dfs_post deps (set (mget [] deps tid)) ?st r1 (c1, s1)" by (rule "2.IH" [OF v pre])
  show ?case
  proof (cases r1)
    case None
    with v "2.prems"(1) have "r = None" "st' = (mput tid black c1, butlast s1)" by auto
    moreover from post None have "dfs_post deps {tid} (color, stack) None (mput tid black c1, butlast s1)"
      using visit_step [OF "2.prems"(2)] by blast
    ultimately show ?thesis by blast
  qed (use v "2.prems"(1) post in auto)
next
  case (3 n deps st)
  then show ?case by (cases st) (auto simp: deps_pre_def)
next
  case (4 n deps dep ds color stack)
  have inv: "dfs_inv deps (color, stack)" and ne: "stack \<noteq> []"
    and ds: "set (dep # ds) \<subseteq> set (mget [] deps (last stack))"
    using "4.prems"(2) by (auto simp: deps_pre_def)
  consider "mget white color dep = gray" | "mget white color dep = white" | "dep \<in> blacks color"
    using inv by (auto simp: dfs_inv_def blacks_def)
  then show ?case
  proof cases
    case 1
    then have "dep \<in> set stack" using inv by (simp add: dfs_inv_def grays_def)
    with inv ds have "is_cycle deps (close_cycle stack dep)"
      using close_cycle_is_cycle [of deps stack dep] by (simp add: dfs_inv_def)
    with 1 "4.prems"(1) show ?thesis by auto
  next
    case 2
    then have ng: "mget white color dep \<noteq> gray" by (simp add: color_defs)
    from "4.prems"(1) ng 2 obtain r1 st1 where v: "visit n deps dep (color, stack) = Some (r1, st1)"
      by (auto split: option.splits)
    have "visit_pre deps dep (color, stack)" using inv ne ds 2 by (simp add: visit_pre_def)
    with "4.IH"(1) [OF ng 2 v] have p1: "dfs_post deps {dep} (color, stack) r1 st1" by simp
    show ?thesis
    proof (cases r1)
      case None
      with v ng 2 "4.prems"(1) have v2: "visit_deps n deps ds st1 = Some (r, st')" by simp
      from p1 None have "deps_pre deps ds st1" by (metis deps_pre_step "4.prems"(2))
      with "4.IH"(2) [OF ng 2 v _ None v2] have "dfs_post deps (set ds) st1 r st'" by simp
      with p1 None have "dfs_post deps ({dep} \<union> set ds) (color, stack) r st'"
        using dfs_post_trans by metis
      then show ?thesis by simp
    qed (use "4.prems"(1) v ng 2 p1 in auto)
  next
    case 3
    then have c: "mget white color dep \<noteq> gray" "mget white color dep \<noteq> white"
      by (auto simp: blacks_def color_defs)
    have pre: "deps_pre deps ds (color, stack)" using inv ne ds by (simp add: deps_pre_def)
    from "4.prems"(1) c have "visit_deps n deps ds (color, stack) = Some (r, st')" by simp
    then have p: "dfs_post deps (set ds) (color, stack) r st'" using "4.IH"(3) [OF c _ pre] by simp
    have "dfs_post deps {dep} (color, stack) None (color, stack)" using inv 3 by simp
    then have "dfs_post deps ({dep} \<union> set ds) (color, stack) r st'"
      using p by (rule dfs_post_trans)
    then show ?thesis by simp
  qed
qed simp

lemma visit_nonwhite:
  "visit n deps tid st = Some (r, st') \<Longrightarrow> mget white (fst st) x \<noteq> white \<Longrightarrow> mget white (fst st') x \<noteq> white"
  "visit_deps n deps ds st = Some (r, st') \<Longrightarrow> mget white (fst st) x \<noteq> white \<Longrightarrow> mget white (fst st') x \<noteq> white"
  by (induction n deps tid st and n deps ds st arbitrary: r st' and r st' rule: visit_visit_deps.induct)
    (auto simp: color_defs split: option.splits if_splits prod.splits)

definition whites :: "string set \<Rightarrow> (string, nat) gomap \<Rightarrow> string set" where
  "whites N c = {x \<in> N. mget white c x = white}"

lemma whites_visit:
  "visit n deps tid st = Some (r, st') \<Longrightarrow> finite N \<Longrightarrow> card (whites N (fst st')) \<le> card (whites N (fst st))"
  using visit_nonwhite(1) [of n deps tid st r st'] by (intro card_mono) (auto simp: whites_def)

lemma whites_gray:
  assumes "finite N" "tid \<in> N" "mget white c tid = white"
  shows "Suc (card (whites N (mput tid gray c))) = card (whites N c)"
proof -
  have "whites N c = insert tid (whites N (mput tid gray c))"
    using assms by (auto simp: whites_def color_defs)
  moreover have "tid \<notin> whites N (mput tid gray c)" by (simp add: whites_def color_defs)
  moreover have "finite (whites N (mput tid gray c))" using assms(1) by (simp add: whites_def)
  ultimately show ?thesis by simp
qed

text \<open>Fuel: one unit per white task is enough.\<close>

lemma visit_enough_fuel:
  assumes N: "finite N" "edges deps `` N \<subseteq> N"
  shows "tid \<in> N \<Longrightarrow> mget white (fst st) tid = white \<Longrightarrow> card (whites N (fst st)) \<le> n \<Longrightarrow>
      visit n deps tid st \<noteq> None"
    and "set ds \<subseteq> N \<Longrightarrow> card (whites N (fst st)) \<le> n \<Longrightarrow> visit_deps n deps ds st \<noteq> None"
  using N
proof (induction n deps tid st and n deps ds st rule: visit_visit_deps.induct)
  case (1 deps tid st)
  then have "whites N (fst st) = {}" by (simp add: whites_def)
  with "1.prems" show ?case by (auto simp: whites_def)
next
  case (2 n deps tid color stack)
  have "card (whites N (mput tid gray color)) \<le> n"
    using whites_gray [of N tid color] "2.prems" by simp
  moreover have "set (mget [] deps tid) \<subseteq> N" using "2.prems" by (auto simp: edges_def)
  ultimately have "visit_deps n deps (mget [] deps tid) (mput tid gray color, stack @ [tid]) \<noteq> None"
    using "2.IH" "2.prems" by simp
  then show ?case by (auto split: option.splits)
next
  case (4 n deps dep ds color stack)
  show ?case
  proof (cases "mget white color dep = white")
    case True
    then have ng: "mget white color dep \<noteq> gray" by (simp add: color_defs)
    obtain r st' where v: "visit n deps dep (color, stack) = Some (r, st')"
      using "4.IH"(1) [OF ng True] "4.prems" True by auto
    have "card (whites N (fst st')) \<le> n"
      using whites_visit [OF v] "4.prems" by fastforce
    then show ?thesis using "4.IH"(2) [OF ng True v] "4.prems" True ng v by (cases r) auto
  next
    case False
    then show ?thesis using "4.IH"(3) "4.prems" by auto
  qed
qed simp

section \<open>The whole search\<close>

lemma visit_order_enough_fuel:
  assumes N: "finite N" "edges deps `` N \<subseteq> N" "card N \<le> n"
  shows "set ids \<subseteq> N \<Longrightarrow> visit_order n deps ids st \<noteq> None"
proof (induction ids arbitrary: st)
  case (Cons tid ids)
  obtain c s where st: "st = (c, s)" by (cases st)
  show ?case
  proof (cases "mget white c tid = white")
    case True
    have "card (whites N c) \<le> card N" using N(1) by (intro card_mono) (auto simp: whites_def)
    with N True Cons.prems obtain r st' where "visit n deps tid (c, s) = Some (r, st')"
      using visit_enough_fuel(1) [of N deps tid "(c, s)" n] by auto
    with Cons st True show ?thesis by (cases r) auto
  qed (use Cons st in auto)
qed simp

lemma visit_order_sound:
  "visit_order n deps ids (c, []) = Some r \<Longrightarrow> dfs_inv deps (c, []) \<Longrightarrow>
     (case r of Some cyc \<Rightarrow> is_cycle deps cyc
      | None \<Rightarrow> \<exists>c'. dfs_inv deps (c', []) \<and> set ids \<union> blacks c \<subseteq> blacks c')"
proof (induction ids arbitrary: c)
  case (Cons tid ids)
  show ?case
  proof (cases "mget white c tid = white")
    case True
    with Cons.prems obtain r1 st1 where v: "visit n deps tid (c, []) = Some (r1, st1)"
      by (auto split: option.splits)
    have post: "dfs_post deps {tid} (c, []) r1 st1"
      using visit_sound(1) [OF v] Cons.prems(2) True by (simp add: visit_pre_def)
    show ?thesis
    proof (cases r1)
      case None
      obtain c1 where st1: "st1 = (c1, [])" "dfs_inv deps (c1, [])" "insert tid (blacks c) \<subseteq> blacks c1"
        using post None by (cases st1) auto
      with Cons.IH [of c1] Cons.prems True v None show ?thesis by (cases r) auto
    qed (use Cons.prems True v post in auto)
  next
    case False
    with Cons.prems(2) have "tid \<in> blacks c" by (auto simp: dfs_inv_def blacks_def grays_def)
    with False Cons show ?thesis by (cases r) (auto, blast)
  qed
qed auto

lemma dfs_inv_init: "dfs_inv deps ([], [])"
  by (simp add: dfs_inv_def grays_def blacks_def color_defs acyclic_def)

lemma successively_trancl:
  "successively (\<lambda>a b. (a, b) \<in> E) (x # xs) \<Longrightarrow> xs \<noteq> [] \<Longrightarrow> (x, last xs) \<in> E\<^sup>+"
proof (induction xs arbitrary: x)
  case (Cons y ys)
  then show ?case by (cases ys) (auto intro: trancl_into_trancl2)
qed simp

lemma is_cycle_not_acyclic: "is_cycle deps c \<Longrightarrow> \<not> acyclic (edges deps)"
proof -
  assume c: "is_cycle deps c"
  then have "2 \<le> length c" by (simp add: is_cycle_def)
  then obtain x xs where "c = x # xs" "xs \<noteq> []" by (cases c; cases "tl c") auto
  with c have "(x, last xs) \<in> (edges deps)\<^sup>+" "x = last xs"
    using successively_trancl [of "edges deps" x xs] by (auto simp: is_cycle_def edges_def)
  then show ?thesis by (auto simp: acyclic_def)
qed

lemma findTaskCycle_correct:
  assumes closed: "edges deps `` set order \<subseteq> set order" and dom: "Domain (edges deps) \<subseteq> set order"
  shows "(findTaskCycle order deps = Some None \<and> acyclic (edges deps)) \<or>
     (\<exists>c. findTaskCycle order deps = Some (Some c) \<and> is_cycle deps c)"
proof -
  have "card (set order) \<le> Suc (length order)" by (meson card_length le_SucI)
  with visit_order_enough_fuel [OF _ closed, of "Suc (length order)" order] obtain r
    where r: "findTaskCycle order deps = Some r" by (auto simp: findTaskCycle_def)
  from r have post: "case r of Some cyc \<Rightarrow> is_cycle deps cyc
      | None \<Rightarrow> \<exists>c'. dfs_inv deps (c', []) \<and> set order \<union> blacks [] \<subseteq> blacks c'"
    using visit_order_sound [OF _ dfs_inv_init] by (simp add: findTaskCycle_def)
  show ?thesis
  proof (cases r)
    case None
    with post obtain c' where "acyclic (edges deps \<inter> blacks c' \<times> UNIV)" "set order \<subseteq> blacks c'"
      by (auto simp: dfs_inv_def)
    moreover from this(2) dom have "edges deps \<inter> blacks c' \<times> UNIV = edges deps" by fastforce
    ultimately show ?thesis using r None by simp
  qed (use r post in simp)
qed

section \<open>The graph check\<close>

fun build_graph :: "TaskSpec list \<Rightarrow> deps_map \<Rightarrow> string list \<Rightarrow> DomainError + (deps_map \<times> string list)" where
  "build_graph [] byID order = Inr (byID, order)"
| "build_graph (t # ts) byID order =
     (if mhas byID (t_TaskID t) then Inl (ErrDuplicateTaskID (t_TaskID t))
      else build_graph ts (mput (t_TaskID t) (t_DependsOn t) byID) (order @ [t_TaskID t]))"

fun check_deps :: "deps_map \<Rightarrow> string \<Rightarrow> string list \<Rightarrow> DomainError + unit" where
  "check_deps byID tid [] = Inr ()"
| "check_deps byID tid (dep # ds) =
     (if \<not> mhas byID dep then Inl (ErrUnknownDependency tid dep) else check_deps byID tid ds)"

fun check_order :: "deps_map \<Rightarrow> string list \<Rightarrow> DomainError + unit" where
  "check_order byID [] = Inr ()"
| "check_order byID (tid # ids) =
     (case check_deps byID tid (mget [] byID tid) of
        Inl e \<Rightarrow> Inl e
      | Inr _ \<Rightarrow> check_order byID ids)"

text \<open>\<open>None\<close> would be a search that does not return; \<open>validateGraph_returns\<close> excludes it.\<close>

definition validateGraph :: "DAGSpec \<Rightarrow> (DomainError + unit) option" where
  "validateGraph d =
     (case build_graph (d_Tasks d) [] [] of
        Inl e \<Rightarrow> Some (Inl e)
      | Inr (byID, order) \<Rightarrow>
          (case check_order byID order of
             Inl e \<Rightarrow> Some (Inl e)
           | Inr _ \<Rightarrow>
               (case findTaskCycle order byID of
                  None \<Rightarrow> None
                | Some (Some cycle) \<Rightarrow> Some (Inl (ErrCyclicDAG cycle))
                | Some None \<Rightarrow> Some (Inr ()))))"

section \<open>Validate\<close>

fun reject_http_api :: "TaskSpec list \<Rightarrow> DomainError + unit" where
  "reject_http_api [] = Inr ()"
| "reject_http_api (t # ts) =
     (if t_Type t = TaskTypeOther ''http_api'' then Inl (ErrRemovedTaskType (t_TaskID t))
      else reject_http_api ts)"

text \<open>The parameters stand for the libraries: \<open>js\<close> the jsonschema calls of the parameter check,
  \<open>schemas_ok\<close> that the embedded schemas compile, \<open>conforms\<close> that the specification validates
  against the compiled dag schema, \<open>parses\<close> Kubernetes' \<open>ParseQuantity\<close>.\<close>

definition Validate ::
  "('doc, 'sch) jsonschema_lib \<Rightarrow> bool \<Rightarrow> (DAGSpec \<Rightarrow> bool) \<Rightarrow> (string \<Rightarrow> bool) \<Rightarrow> DAGSpec \<Rightarrow>
     (DomainError + unit) option" where
  "Validate js schemas_ok conforms parses d =
     (case reject_http_api (d_Tasks d) of
        Inl e \<Rightarrow> Some (Inl e)
      | Inr _ \<Rightarrow>
     (case validate_params js (d_Params d) of
        Inl e \<Rightarrow> Some (Inl e)
      | Inr _ \<Rightarrow>
      if \<not> schemas_ok then Some (Inl ErrLoadSchemas)
      else if \<not> conforms d then Some (Inl ErrSchemaValidation)
      else (case validateGraph d of
        None \<Rightarrow> None
      | Some (Inl e) \<Rightarrow> Some (Inl e)
      | Some (Inr _) \<Rightarrow> Some (validateResourceQuantities parses (d_Tasks d)))))"

text \<open>The reference notion of a graph that can execute.\<close>

definition task_edges :: "TaskSpec list \<Rightarrow> (string \<times> string) set" where
  "task_edges ts = {(t_TaskID t, dep) | t dep. t \<in> set ts \<and> dep \<in> set (t_DependsOn t)}"

definition executable_graph :: "TaskSpec list \<Rightarrow> bool" where
  "executable_graph ts \<longleftrightarrow> distinct (map t_TaskID ts) \<and>
     (\<forall>t\<in>set ts. set (t_DependsOn t) \<subseteq> t_TaskID ` set ts) \<and> acyclic (task_edges ts)"

lemma build_graph_Inl:
  "build_graph ts byID order = Inl e \<Longrightarrow> \<exists>tid. e = ErrDuplicateTaskID tid"
  by (induction ts byID order rule: build_graph.induct) (auto split: if_splits)

lemma build_graph_Inr:
  "build_graph ts byID order = Inr (byID', order') \<Longrightarrow>
     order' = order @ map t_TaskID ts \<and> distinct (map t_TaskID ts) \<and>
     (\<forall>t\<in>set ts. \<not> mhas byID (t_TaskID t) \<and> mget [] byID' (t_TaskID t) = t_DependsOn t) \<and>
     (\<forall>k. mhas byID' k \<longleftrightarrow> mhas byID k \<or> k \<in> t_TaskID ` set ts) \<and>
     (\<forall>k. k \<notin> t_TaskID ` set ts \<longrightarrow> mget [] byID' k = mget [] byID k)"
proof (induction ts byID order rule: build_graph.induct)
  case (2 t ts byID order)
  then have nm: "\<not> mhas byID (t_TaskID t)"
    and rest: "build_graph ts (mput (t_TaskID t) (t_DependsOn t) byID) (order @ [t_TaskID t]) = Inr (byID', order')"
    by (auto split: if_splits)
  note IH = "2.IH" [OF nm rest]
  then have "t_TaskID t \<notin> t_TaskID ` set ts" by force
  with IH nm show ?case by auto
qed simp

lemma build_graph_dup:
  "build_graph ts byID order = Inl e \<Longrightarrow>
     \<not> distinct (map t_TaskID ts) \<or> (\<exists>t\<in>set ts. mhas byID (t_TaskID t))"
  by (induction ts byID order rule: build_graph.induct) (auto simp: image_iff split: if_splits, metis)

lemma check_deps_ok: "check_deps byID tid ds = Inr () \<longleftrightarrow> (\<forall>dep\<in>set ds. mhas byID dep)"
  by (induction ds) auto

lemma check_order_ok:
  "check_order byID ids = Inr () \<longleftrightarrow> (\<forall>tid\<in>set ids. \<forall>dep\<in>set (mget [] byID tid). mhas byID dep)"
proof (induction ids)
  case (Cons tid ids)
  then show ?case
    using check_deps_ok [of byID tid "mget [] byID tid"]
    by (cases "check_deps byID tid (mget [] byID tid)") auto
qed simp

text \<open>What a successful first loop hands to the rest: the keyed graph is the declared one.\<close>

lemma build_graph_edges:
  assumes "build_graph ts [] [] = Inr (byID, order)"
  shows "order = map t_TaskID ts" "distinct order" "edges byID = task_edges ts"
    "\<And>k. mhas byID k \<longleftrightarrow> k \<in> set order"
proof -
  note b = build_graph_Inr [OF assms]
  show "order = map t_TaskID ts" "distinct order" using b by auto
  show "\<And>k. mhas byID k \<longleftrightarrow> k \<in> set order" using b by auto
  have "(a, c) \<in> edges byID \<longleftrightarrow> (a, c) \<in> task_edges ts" for a c
  proof (cases "a \<in> t_TaskID ` set ts")
    case True
    then obtain t where "t \<in> set ts" "a = t_TaskID t" by blast
    with b show ?thesis
      by (auto simp: edges_def task_edges_def distinct_map inj_on_def)
  next
    case False
    with b show ?thesis by (auto simp: edges_def task_edges_def)
  qed
  then show "edges byID = task_edges ts" by auto
qed

lemma check_order_graph:
  assumes "build_graph ts [] [] = Inr (byID, order)"
  shows "check_order byID order = Inr () \<longleftrightarrow> task_edges ts `` set order \<subseteq> set order"
  unfolding check_order_ok build_graph_edges(3) [OF assms, symmetric] build_graph_edges(4) [OF assms]
  by (auto simp: edges_def)

lemma task_edges_closed_iff:
  "task_edges ts `` (t_TaskID ` set ts) \<subseteq> t_TaskID ` set ts \<longleftrightarrow>
     (\<forall>t\<in>set ts. set (t_DependsOn t) \<subseteq> t_TaskID ` set ts)"
  by (auto simp: task_edges_def) blast

lemma findTaskCycle_graph:
  assumes b: "build_graph ts [] [] = Inr (byID, order)" and c: "check_order byID order = Inr ()"
  shows "(findTaskCycle order byID = Some None \<and> acyclic (task_edges ts)) \<or>
     (\<exists>cyc. findTaskCycle order byID = Some (Some cyc) \<and> is_cycle byID cyc \<and> \<not> acyclic (task_edges ts))"
proof -
  note e = build_graph_edges [OF b]
  have "edges byID `` set order \<subseteq> set order" using c check_order_graph [OF b] e(3) by simp
  moreover have "Domain (edges byID) \<subseteq> set order"
    unfolding e(3) by (auto simp: task_edges_def e(1))
  ultimately show ?thesis
    using findTaskCycle_correct [of byID order] is_cycle_not_acyclic [of byID] e(3) by auto
qed

lemma validateGraph_returns: "validateGraph d \<noteq> None"
proof (cases "build_graph (d_Tasks d) [] []")
  case (Inr g)
  obtain byID order where b: "build_graph (d_Tasks d) [] [] = Inr (byID, order)" using Inr by (cases g) auto
  show ?thesis
  proof (cases "check_order byID order")
    case (Inr u)
    then have "check_order byID order = Inr ()" by simp
    from findTaskCycle_graph [OF b this] show ?thesis by (auto simp: validateGraph_def b Inr)
  qed (simp add: validateGraph_def b)
qed (simp add: validateGraph_def)

lemma validateGraph_iff:
  "validateGraph d = Some (Inr ()) \<longleftrightarrow> executable_graph (d_Tasks d)"
proof (cases "build_graph (d_Tasks d) [] []")
  case (Inl e)
  with build_graph_dup [OF Inl] show ?thesis by (simp add: validateGraph_def executable_graph_def)
next
  case (Inr g)
  then obtain byID order where b: "build_graph (d_Tasks d) [] [] = Inr (byID, order)" by (cases g) auto
  note e = build_graph_edges [OF b]
  have exec: "executable_graph (d_Tasks d) \<longleftrightarrow>
      check_order byID order = Inr () \<and> acyclic (task_edges (d_Tasks d))"
    using e(1,2) task_edges_closed_iff [of "d_Tasks d"] check_order_graph [OF b]
    by (simp add: executable_graph_def)
  show ?thesis
  proof (cases "check_order byID order")
    case (Inl e')
    with b exec show ?thesis by (simp add: validateGraph_def)
  next
    case (Inr u)
    then have c: "check_order byID order = Inr ()" by simp
    from findTaskCycle_graph [OF b c] show ?thesis
      using b c exec by (auto simp: validateGraph_def)
  qed
qed

text \<open>C6: \<open>validateGraph\<close> returns on every specification, and it accepts exactly the task graphs
  that can execute: distinct task identifiers, every dependency declared, no cycle.\<close>

theorem validateGraph_iff_executable:
  "(\<exists>res. validateGraph d = Some res) \<and>
   (validateGraph d = Some (Inr ()) \<longleftrightarrow> executable_graph (d_Tasks d))"
  using validateGraph_returns [of d] validateGraph_iff [of d] by auto

text \<open>The three refusals of \<open>validateGraph\<close>, each with what its message names.\<close>

lemma check_deps_Inl:
  "check_deps byID tid ds = Inl e \<Longrightarrow> \<exists>dep\<in>set ds. e = ErrUnknownDependency tid dep \<and> \<not> mhas byID dep"
  by (induction ds) (auto split: if_splits)

lemma check_order_Inl:
  "check_order byID ids = Inl e \<Longrightarrow>
     \<exists>tid\<in>set ids. \<exists>dep\<in>set (mget [] byID tid). e = ErrUnknownDependency tid dep \<and> \<not> mhas byID dep"
  by (induction ids) (auto split: sum.splits dest: check_deps_Inl)

lemma is_cycle_edges:
  "is_cycle deps c \<longleftrightarrow> 2 \<le> length c \<and> hd c = last c \<and> successively (\<lambda>a b. (a, b) \<in> edges deps) c"
  by (simp add: is_cycle_def edges_def)

text \<open>C27: a reported cycle is a real one: the path in the error starts and ends at the same task,
  and every task on it declares the next one as a dependency.\<close>

theorem validateGraph_reports_cycle:
  assumes "validateGraph d = Some (Inl (ErrCyclicDAG c))"
  shows "2 \<le> length c \<and> hd c = last c \<and> successively (\<lambda>a b. (a, b) \<in> task_edges (d_Tasks d)) c"
proof -
  from assms obtain byID order where b: "build_graph (d_Tasks d) [] [] = Inr (byID, order)"
    by (auto simp: validateGraph_def dest: build_graph_Inl split: sum.splits)
  moreover from this assms have "check_order byID order = Inr ()"
    by (auto simp: validateGraph_def dest: check_order_Inl split: sum.splits)
  moreover from b this assms have "findTaskCycle order byID = Some (Some c)"
    by (auto simp: validateGraph_def split: option.splits)
  ultimately show ?thesis
    using findTaskCycle_graph [OF b] build_graph_edges(3) [OF b] by (auto simp: is_cycle_edges)
qed

definition plain_task :: "string \<Rightarrow> string list \<Rightarrow> TaskSpec" where
  "plain_task tid deps =
     \<lparr>t_TaskID = tid, t_Type = TaskTypePython, t_DependsOn = deps,
      t_TriggerRule = TriggerRuleOther '''', t_Pool = '''', t_Retries = None,
      t_RetryDelaySeconds = None, t_ExecutionTimeoutSeconds = None,
      t_ExecutionMode = ExecutionModeOther '''', t_Entrypoint = '''', t_Env = [],
      t_Variables = [], t_Connections = [], t_Resources = None, t_Execution = None,
      t_XComInput = [], t_XComSchema = [], t_CallArgs = [], t_OperatorClass = '''',
      t_OperatorArgs = [], t_OnFailureCallback = False\<rparr>"

definition plain_dag :: "TaskSpec list \<Rightarrow> DAGSpec" where
  "plain_dag ts =
     \<lparr>d_SchemaVersion = ''1.0'', d_DagID = ''dag'', d_DagVersion = ''v1'', d_Image = ''img'',
      d_Description = '''', d_Owner = '''', d_Tags = [], d_Schedule = None, d_ScheduleTZ = '''',
      d_StartDate = '''', d_EndDate = None, d_MaxActiveRuns = 0, d_MaxActiveTasks = 0,
      d_MinIdleWorkers = 0, d_Catchup = False, d_DefaultArgs = None, d_Staging = None,
      d_Alerts = None, d_Variables = [], d_Connections = [], d_Params = [], d_Tasks = ts,
      d_Source = ''''\<rparr>"

theorem validateGraph_reports_cycle_witness:
  "validateGraph (plain_dag [plain_task ''a'' [], plain_task ''b'' [''a'', ''c''], plain_task ''c'' [''b'']])
     = Some (Inl (ErrCyclicDAG [''b'', ''c'', ''b''])) \<and>
   successively (\<lambda>a b. (a, b) \<in> task_edges
     (d_Tasks (plain_dag [plain_task ''a'' [], plain_task ''b'' [''a'', ''c''], plain_task ''c'' [''b'']])))
     [''b'', ''c'', ''b'']"
proof -
  have "validateGraph (plain_dag [plain_task ''a'' [], plain_task ''b'' [''a'', ''c''], plain_task ''c'' [''b'']])
     = Some (Inl (ErrCyclicDAG [''b'', ''c'', ''b'']))" by code_simp
  then show ?thesis using validateGraph_reports_cycle by blast
qed

lemma reject_http_api_ok:
  "reject_http_api ts = Inr () \<longleftrightarrow> (\<forall>t\<in>set ts. t_Type t \<noteq> TaskTypeOther ''http_api'')"
  by (induction ts) auto

text \<open>C26: a specification that passes \<open>Validate\<close> (at compile and again at registration) has an
  executable task graph, no task of the removed in-process \<open>http_api\<close> type, and only resource
  quantities that the Kubernetes parser accepts.\<close>

theorem Validate_accepts_only_runnable:
  assumes "Validate js schemas_ok conforms parses d = Some (Inr ())"
  shows "executable_graph (d_Tasks d) \<and>
    (\<forall>t\<in>set (d_Tasks d). t_Type t \<noteq> TaskTypeOther ''http_api'') \<and>
    (\<forall>t\<in>set (d_Tasks d). \<forall>v\<in>set (quantities_of t). v = '''' \<or> parses v)"
proof -
  from assms have h: "reject_http_api (d_Tasks d) = Inr ()" and g: "validateGraph d = Some (Inr ())"
    and q: "validateResourceQuantities parses (d_Tasks d) = Inr ()"
    by (auto simp: Validate_def split: sum.splits if_splits option.splits)
  then show ?thesis
    by (simp add: validateGraph_iff reject_http_api_ok validateResourceQuantities_ok)
qed

theorem Validate_accepts_only_runnable_witness:
  "Validate \<lparr>js_UnmarshalJSON = (\<lambda>s. Some s), js_AddResource = (\<lambda>_. True), js_Compile = (\<lambda>d. Some d),
      js_Validate = (\<lambda>_ _. True)\<rparr> True (\<lambda>_. True) (\<lambda>v. v \<noteq> ''2GB'')
      (plain_dag [plain_task ''a'' [], plain_task ''b'' [''a'']]) = Some (Inr ()) \<and>
   executable_graph (d_Tasks (plain_dag [plain_task ''a'' [], plain_task ''b'' [''a'']]))"
proof -
  have "Validate \<lparr>js_UnmarshalJSON = (\<lambda>s. Some s), js_AddResource = (\<lambda>_. True), js_Compile = (\<lambda>d. Some d),
      js_Validate = (\<lambda>_ _. True)\<rparr> True (\<lambda>_. True) (\<lambda>v. v \<noteq> ''2GB'')
      (plain_dag [plain_task ''a'' [], plain_task ''b'' [''a'']]) = Some (Inr ())" by code_simp
  then show ?thesis using Validate_accepts_only_runnable by blast
qed

end
