(* ===== verification/StateMachine.thy ===== *)
theory StateMachine
  imports Domain
begin

text \<open>
  \<open>internal/scheduler/state_machine.go\<close> and \<open>dispatch_backoff.go\<close>: the table of legal
  transitions, the trigger rules and the dispatch backoff. The trigger rules count upstream
  states; \<open>trigger_spec\<close> is the rule read off the states directly, and the two agree.
\<close>

section \<open>Legal transitions\<close>

definition taskTransitions :: "(TaskState, TaskState list) gomap" where
  "taskTransitions =
    [(TaskStateNone, [TaskStateScheduled, TaskStateSkipped, TaskStateUpstreamFailed]),
     (TaskStateScheduled, [TaskStateQueued]),
     (TaskStateQueued, [TaskStateRunning, TaskStateFailed, TaskStateUpForRetry]),
     (TaskStateRunning, [TaskStateSuccess, TaskStateFailed, TaskStateUpForRetry, TaskStateUpForReschedule]),
     (TaskStateUpForRetry, [TaskStateScheduled, TaskStateQueued, TaskStateNone]),
     (TaskStateUpForReschedule, [TaskStateScheduled, TaskStateQueued, TaskStateNone]),
     (TaskStateSuccess, [TaskStateNone]),
     (TaskStateFailed, [TaskStateNone]),
     (TaskStateSkipped, [TaskStateNone]),
     (TaskStateUpstreamFailed, [TaskStateNone])]"

definition dagRunTransitions :: "(DagRunState, DagRunState list) gomap" where
  "dagRunTransitions =
    [(DagRunStateQueued, [DagRunStateRunning, DagRunStateFailed]),
     (DagRunStateRunning, [DagRunStateSuccess, DagRunStateFailed]),
     (DagRunStateSuccess, [DagRunStateQueued]),
     (DagRunStateFailed, [DagRunStateQueued])]"

definition CanTransition :: "TaskState \<Rightarrow> TaskState \<Rightarrow> bool" where
  "CanTransition from to = (to \<in> set (mget [] taskTransitions from))"

definition CanTransitionDagRun :: "DagRunState \<Rightarrow> DagRunState \<Rightarrow> bool" where
  "CanTransitionDagRun from to = (to \<in> set (mget [] dagRunTransitions from))"

section \<open>Trigger rules\<close>

datatype TriggerDecision =
    DecisionWait | DecisionSchedule | DecisionSkip | DecisionUpstreamFailed

record upstreamCounts =
  uc_total :: int
  uc_success :: int
  uc_failed :: int
  uc_skipped :: int
  uc_upstreamFailed :: int
  uc_active :: int

fun count_upstream :: "TaskState \<Rightarrow> upstreamCounts \<Rightarrow> upstreamCounts" where
  "count_upstream TaskStateSuccess c = c\<lparr>uc_success := uc_success c + 1\<rparr>"
| "count_upstream TaskStateFailed c = c\<lparr>uc_failed := uc_failed c + 1\<rparr>"
| "count_upstream TaskStateSkipped c = c\<lparr>uc_skipped := uc_skipped c + 1\<rparr>"
| "count_upstream TaskStateUpstreamFailed c = c\<lparr>uc_upstreamFailed := uc_upstreamFailed c + 1\<rparr>"
| "count_upstream _ c = c\<lparr>uc_active := uc_active c + 1\<rparr>"

definition countUpstreams :: "TaskState list \<Rightarrow> upstreamCounts" where
  "countUpstreams upstreams =
     fold count_upstream upstreams
       \<lparr>uc_total = int (length upstreams), uc_success = 0, uc_failed = 0, uc_skipped = 0,
        uc_upstreamFailed = 0, uc_active = 0\<rparr>"

definition evalAllSuccess :: "upstreamCounts \<Rightarrow> TriggerDecision" where
  "evalAllSuccess c =
     (if uc_failed c > 0 then DecisionUpstreamFailed
      else if uc_skipped c > 0 then DecisionSkip
      else if uc_active c > 0 then DecisionWait
      else DecisionSchedule)"

definition evalAllFailed :: "upstreamCounts \<Rightarrow> TriggerDecision" where
  "evalAllFailed c =
     (if uc_active c > 0 then DecisionWait
      else if uc_failed c = uc_total c then DecisionSchedule
      else DecisionSkip)"

definition evalAllDone :: "upstreamCounts \<Rightarrow> TriggerDecision" where
  "evalAllDone c = (if uc_active c > 0 then DecisionWait else DecisionSchedule)"

definition evalOneOf :: "upstreamCounts \<Rightarrow> int \<Rightarrow> TriggerDecision" where
  "evalOneOf c hits =
     (if uc_active c > 0 then DecisionWait
      else if hits > 0 then DecisionSchedule
      else DecisionSkip)"

definition EvaluateTriggerRule :: "TriggerRule \<Rightarrow> TaskState list \<Rightarrow> TriggerDecision" where
  "EvaluateTriggerRule rule upstreams =
     (if length upstreams = 0 then DecisionSchedule
      else
        (let c = countUpstreams upstreams in
         if rule \<noteq> TriggerRuleAllDone \<and> uc_upstreamFailed c > 0 then DecisionUpstreamFailed
         else case rule of
             TriggerRuleAllSuccess \<Rightarrow> evalAllSuccess c
           | TriggerRuleAllFailed \<Rightarrow> evalAllFailed c
           | TriggerRuleAllDone \<Rightarrow> evalAllDone c
           | TriggerRuleOneSuccess \<Rightarrow> evalOneOf c (uc_success c)
           | TriggerRuleOneFailed \<Rightarrow> evalOneOf c (uc_failed c)
           | TriggerRuleOther _ \<Rightarrow> DecisionWait))"

section \<open>Dispatch backoff\<close>

definition dispatchBackoffBase :: duration where "dispatchBackoffBase = 5 * second"
definition dispatchBackoffCap :: duration where "dispatchBackoffCap = 5 * minute"
definition dispatchMaxAttempts :: int where "dispatchMaxAttempts = 6"
definition infraMaxAttempts :: int where "infraMaxAttempts = 6"

fun backoff_loop :: "nat \<Rightarrow> duration \<Rightarrow> duration" where
  "backoff_loop 0 d = d"
| "backoff_loop (Suc k) d =
     (let d' = d * 2 in if d' \<ge> dispatchBackoffCap then dispatchBackoffCap else backoff_loop k d')"

definition dispatchBackoff :: "int \<Rightarrow> duration" where
  "dispatchBackoff attempts = backoff_loop (nat (attempts - 1)) dispatchBackoffBase"

definition infraReplaceJitterWindow :: duration where
  "infraReplaceJitterWindow = 30 * second"

definition InfraReplaceMaxDelay :: duration where
  "InfraReplaceMaxDelay = dispatchBackoff infraMaxAttempts + infraReplaceJitterWindow"

text \<open>FNV-1a over 64 bits, as \<open>hash/fnv\<close> computes it.\<close>

definition fnv64a :: "string \<Rightarrow> 64 word" where
  "fnv64a bs = foldl (\<lambda>h b. (xor h (of_nat (of_char b))) * 1099511628211) 14695981039346656037 bs"

definition infraReplaceJitter :: "string \<Rightarrow> string \<Rightarrow> duration" where
  "infraReplaceJitter runID taskID =
     uint (fnv64a (runID @ [CHR 0x00] @ taskID) mod word_of_int infraReplaceJitterWindow)"

section \<open>Facts\<close>

lemma fold_count_upstream:
  "uc_total (fold count_upstream ss c) = uc_total c"
  "uc_success (fold count_upstream ss c) = uc_success c + count_if (\<lambda>s. s = TaskStateSuccess) ss"
  "uc_failed (fold count_upstream ss c) = uc_failed c + count_if (\<lambda>s. s = TaskStateFailed) ss"
  "uc_skipped (fold count_upstream ss c) = uc_skipped c + count_if (\<lambda>s. s = TaskStateSkipped) ss"
  "uc_upstreamFailed (fold count_upstream ss c) =
     uc_upstreamFailed c + count_if (\<lambda>s. s = TaskStateUpstreamFailed) ss"
  "uc_active (fold count_upstream ss c) = uc_active c + count_if (\<lambda>s. \<not> IsTerminal s) ss"
proof (induction ss arbitrary: c)
  case (Cons s ss)
  case 1 show ?case using Cons by (cases s) simp_all
  case 2 show ?case using Cons by (cases s) simp_all
  case 3 show ?case using Cons by (cases s) simp_all
  case 4 show ?case using Cons by (cases s) simp_all
  case 5 show ?case using Cons by (cases s) simp_all
  case 6 show ?case using Cons by (cases s) simp_all
qed simp_all

lemma countUpstreams_simps [simp]:
  "uc_total (countUpstreams ss) = int (length ss)"
  "uc_success (countUpstreams ss) = count_if (\<lambda>s. s = TaskStateSuccess) ss"
  "uc_failed (countUpstreams ss) = count_if (\<lambda>s. s = TaskStateFailed) ss"
  "uc_skipped (countUpstreams ss) = count_if (\<lambda>s. s = TaskStateSkipped) ss"
  "uc_upstreamFailed (countUpstreams ss) = count_if (\<lambda>s. s = TaskStateUpstreamFailed) ss"
  "uc_active (countUpstreams ss) = count_if (\<lambda>s. \<not> IsTerminal s) ss"
  by (simp_all add: countUpstreams_def fold_count_upstream)

text \<open>The rules read off the upstream states.\<close>

definition settled :: "TaskState list \<Rightarrow> bool" where
  "settled ups \<longleftrightarrow> (\<forall>s\<in>set ups. IsTerminal s)"

definition trigger_spec :: "TriggerRule \<Rightarrow> TaskState list \<Rightarrow> TriggerDecision" where
  "trigger_spec rule ups =
     (if ups = [] then DecisionSchedule
      else if rule \<noteq> TriggerRuleAllDone \<and> TaskStateUpstreamFailed \<in> set ups then DecisionUpstreamFailed
      else case rule of
          TriggerRuleAllSuccess \<Rightarrow>
            (if TaskStateFailed \<in> set ups then DecisionUpstreamFailed
             else if TaskStateSkipped \<in> set ups then DecisionSkip
             else if set ups = {TaskStateSuccess} then DecisionSchedule
             else DecisionWait)
        | TriggerRuleAllFailed \<Rightarrow>
            (if \<not> settled ups then DecisionWait
             else if set ups = {TaskStateFailed} then DecisionSchedule else DecisionSkip)
        | TriggerRuleAllDone \<Rightarrow> (if settled ups then DecisionSchedule else DecisionWait)
        | TriggerRuleOneSuccess \<Rightarrow>
            (if \<not> settled ups then DecisionWait
             else if TaskStateSuccess \<in> set ups then DecisionSchedule else DecisionSkip)
        | TriggerRuleOneFailed \<Rightarrow>
            (if \<not> settled ups then DecisionWait
             else if TaskStateFailed \<in> set ups then DecisionSchedule else DecisionSkip)
        | TriggerRuleOther _ \<Rightarrow> DecisionWait)"

lemma count_if_eq_pos: "0 < count_if (\<lambda>s. s = x) ups \<longleftrightarrow> x \<in> set ups"
  by (auto simp: count_if_pos_iff)

lemma count_if_active: "0 < count_if (\<lambda>s. \<not> IsTerminal s) ups \<longleftrightarrow> \<not> settled ups"
  by (auto simp: count_if_pos_iff settled_def)

lemma set_eq_single: "ups \<noteq> [] \<Longrightarrow> set ups = {x} \<longleftrightarrow> (\<forall>s\<in>set ups. s = x)"
  by (cases ups) auto

lemma all_success_iff:
  "ups \<noteq> [] \<Longrightarrow> set ups = {TaskStateSuccess} \<longleftrightarrow>
     settled ups \<and> TaskStateFailed \<notin> set ups \<and> TaskStateSkipped \<notin> set ups \<and>
     TaskStateUpstreamFailed \<notin> set ups"
  by (auto simp: set_eq_single settled_def IsTerminal_iff)

lemma trigger_rule_spec: "EvaluateTriggerRule rule ups = trigger_spec rule ups"
proof (cases "ups = []")
  case True
  then show ?thesis by (simp add: EvaluateTriggerRule_def trigger_spec_def)
next
  case False
  have failed: "count_if (\<lambda>s. s = TaskStateFailed) ups = int (length ups) \<longleftrightarrow> set ups = {TaskStateFailed}"
    using False by (simp add: count_if_all_iff set_eq_single)
  note counts = False failed count_if_eq_pos count_if_active all_success_iff [OF False]
    EvaluateTriggerRule_def trigger_spec_def
  show ?thesis
    by (cases rule) (simp_all add: counts evalAllSuccess_def evalAllFailed_def evalAllDone_def evalOneOf_def)
qed

lemma backoff_loop_closed:
  "0 < d \<Longrightarrow> d < dispatchBackoffCap \<Longrightarrow> backoff_loop k d = min dispatchBackoffCap (d * 2 ^ k)"
proof (induction k arbitrary: d)
  case (Suc k)
  show ?case
  proof (cases "d * 2 \<ge> dispatchBackoffCap")
    case True
    have "d * 2 * 1 \<le> d * 2 * 2 ^ k" using Suc.prems by (intro mult_left_mono) auto
    then have "dispatchBackoffCap \<le> d * 2 * 2 ^ k" using True by linarith
    with True show ?thesis by (simp add: mult.assoc)
  next
    case False
    with Suc show ?thesis by (simp add: mult.assoc)
  qed
qed simp

lemma dispatchBackoff_closed:
  "dispatchBackoff attempts = min dispatchBackoffCap (dispatchBackoffBase * 2 ^ nat (attempts - 1))"
  unfolding dispatchBackoff_def
  by (rule backoff_loop_closed)
    (simp_all add: dispatchBackoffBase_def dispatchBackoffCap_def second_def minute_def)

lemma dispatchBackoff_mono: "a \<le> b \<Longrightarrow> dispatchBackoff a \<le> dispatchBackoff b"
proof -
  assume "a \<le> b"
  then have "(2::int) ^ nat (a - 1) \<le> 2 ^ nat (b - 1)" by (intro power_increasing) auto
  then have "dispatchBackoffBase * 2 ^ nat (a - 1) \<le> dispatchBackoffBase * 2 ^ nat (b - 1)"
    by (intro mult_left_mono) (simp_all add: dispatchBackoffBase_def second_def)
  then show ?thesis by (auto simp: dispatchBackoff_closed min_def)
qed

lemma infraReplaceJitter_bounds:
  "0 \<le> infraReplaceJitter runID taskID \<and> infraReplaceJitter runID taskID < infraReplaceJitterWindow"
proof -
  let ?w = "word_of_int infraReplaceJitterWindow :: 64 word"
  have w: "uint ?w = infraReplaceJitterWindow"
    by (simp add: infraReplaceJitterWindow_def second_def uint_word_of_int)
  have "uint (fnv64a s mod ?w) < uint ?w" for s
    unfolding uint_mod w by (simp add: infraReplaceJitterWindow_def second_def)
  then show ?thesis by (simp add: infraReplaceJitter_def w)
qed

lemma InfraReplaceMaxDelay_value: "InfraReplaceMaxDelay = 190 * second"
  by (simp add: InfraReplaceMaxDelay_def dispatchBackoff_closed infraMaxAttempts_def
      dispatchBackoffBase_def dispatchBackoffCap_def infraReplaceJitterWindow_def
      second_def minute_def)

lemma dispatchBackoff_bounds:
  "dispatchBackoffBase \<le> dispatchBackoff n \<and> dispatchBackoff n \<le> dispatchBackoffCap"
proof -
  have "(1::int) \<le> 2 ^ nat (n - 1)" by simp
  then have "dispatchBackoffBase * 1 \<le> dispatchBackoffBase * 2 ^ nat (n - 1)"
    by (intro mult_left_mono) (simp_all add: dispatchBackoffBase_def second_def)
  then show ?thesis
    by (auto simp: dispatchBackoff_closed dispatchBackoffBase_def dispatchBackoffCap_def
        second_def minute_def)
qed

text \<open>One upstream list may become the other while the run goes on: a settled upstream keeps
  its state, an unsettled one may take any.\<close>

definition settles :: "TaskState list \<Rightarrow> TaskState list \<Rightarrow> bool" where
  "settles = list_all2 (\<lambda>s s'. IsTerminal s \<longrightarrow> s' = s)"

lemma settles_terminal_stays:
  "settles ups ups' \<Longrightarrow> s \<in> set ups \<Longrightarrow> IsTerminal s \<Longrightarrow> s \<in> set ups'"
  unfolding settles_def by (induction rule: list_all2_induct) auto

lemma settles_settled: "settles ups ups' \<Longrightarrow> settled ups \<Longrightarrow> ups' = ups"
  unfolding settles_def by (induction rule: list_all2_induct) (auto simp: settled_def)

lemma settles_Nil: "settles ups ups' \<Longrightarrow> ups' = [] \<longleftrightarrow> ups = []"
  by (auto simp: settles_def)

lemma schedule_settled: "trigger_spec rule ups = DecisionSchedule \<Longrightarrow> settled ups"
  by (cases rule)
    (auto simp: trigger_spec_def settled_def IsTerminal_iff split: if_splits)

lemma trigger_UpstreamFailed_iff:
  "trigger_spec rule ups = DecisionUpstreamFailed \<longleftrightarrow>
     rule \<noteq> TriggerRuleAllDone \<and> TaskStateUpstreamFailed \<in> set ups \<or>
     rule = TriggerRuleAllSuccess \<and> TaskStateFailed \<in> set ups"
  by (cases rule) (auto simp: trigger_spec_def)

lemma settled_decides:
  assumes "settled ups" and "\<forall>r. rule \<noteq> TriggerRuleOther r"
  shows "trigger_spec rule ups \<noteq> DecisionWait"
proof (cases "ups = []")
  case False
  then show "trigger_spec rule ups \<noteq> DecisionWait"
    using assms all_success_iff [OF False] by (cases rule) (simp_all add: trigger_spec_def)
qed (simp add: trigger_spec_def)

section \<open>Properties\<close>

text \<open>C7: For every rule and every list of upstream states the counting implementation of the
  trigger rules decides what the rule says when it is read off the upstream states: which
  states must be present or absent, and whether all of them must have settled.\<close>
theorem EvaluateTriggerRule_meets_spec: "EvaluateTriggerRule rule ups = trigger_spec rule ups"
  by (rule trigger_rule_spec)

text \<open>C28: A decision to start a task, or to fail it because of its upstreams, is never
  premature: however the upstreams that are still unsettled go on, evaluating the rule again
  gives the same decision.\<close>
theorem trigger_decision_is_final:
  assumes "settles ups ups'"
    and "EvaluateTriggerRule rule ups \<in> {DecisionSchedule, DecisionUpstreamFailed}"
  shows "EvaluateTriggerRule rule ups' = EvaluateTriggerRule rule ups"
proof (cases "trigger_spec rule ups = DecisionSchedule")
  case True
  then have "settled ups" by (rule schedule_settled)
  with assms(1) have "ups' = ups" by (rule settles_settled)
  then show ?thesis by simp
next
  case False
  with assms(2) have "trigger_spec rule ups = DecisionUpstreamFailed" by (simp add: trigger_rule_spec)
  moreover from this have "trigger_spec rule ups' = DecisionUpstreamFailed"
    using settles_terminal_stays [OF assms(1)] by (auto simp: trigger_UpstreamFailed_iff)
  ultimately show ?thesis by (simp add: trigger_rule_spec)
qed

theorem trigger_decision_is_final_witness:
  "EvaluateTriggerRule TriggerRuleAllSuccess [TaskStateFailed, TaskStateSuccess] = DecisionUpstreamFailed"
  using trigger_decision_is_final [of "[TaskStateFailed, TaskStateRunning]"
      "[TaskStateFailed, TaskStateSuccess]" TriggerRuleAllSuccess]
  by (simp add: settles_def trigger_rule_spec trigger_spec_def)

text \<open>C29: A task whose rule is one of the five declared ones is never left waiting by its
  upstreams: once all of them have settled, the rule starts it, skips it or fails it.\<close>
theorem trigger_decides_when_settled:
  assumes "settled ups" and "\<forall>r. rule \<noteq> TriggerRuleOther r"
    shows "EvaluateTriggerRule rule ups \<noteq> DecisionWait"
  unfolding trigger_rule_spec using assms by (rule settled_decides)

theorem trigger_decides_when_settled_witness:
  "EvaluateTriggerRule TriggerRuleOneFailed [TaskStateSuccess, TaskStateSkipped] \<noteq> DecisionWait"
  using trigger_decides_when_settled [of "[TaskStateSuccess, TaskStateSkipped]" TriggerRuleOneFailed]
  by (simp add: settled_def)

text \<open>C30: The rules one_success and one_failed do not start a task early. While one upstream
  is unsettled the decision is to wait (or to fail the task, when an upstream is
  upstream_failed), even if another upstream has already succeeded or failed.\<close>
theorem one_of_rules_wait_for_all:
  assumes "rule = TriggerRuleOneSuccess \<or> rule = TriggerRuleOneFailed" and "\<not> settled ups"
  shows "EvaluateTriggerRule rule ups =
    (if TaskStateUpstreamFailed \<in> set ups then DecisionUpstreamFailed else DecisionWait)"
proof -
  from assms(2) have "ups \<noteq> []" by (auto simp: settled_def)
  with assms show ?thesis by (elim disjE) (simp_all add: trigger_rule_spec trigger_spec_def)
qed

theorem one_of_rules_wait_for_all_witness:
  "EvaluateTriggerRule TriggerRuleOneSuccess [TaskStateSuccess, TaskStateRunning] = DecisionWait"
  using one_of_rules_wait_for_all [of TriggerRuleOneSuccess "[TaskStateSuccess, TaskStateRunning]"]
  by (simp add: settled_def)

text \<open>C31: The dispatch backoff after n failures is the base doubled n-1 times, cut at the cap;
  so it stays between base and cap and never shrinks as failures accumulate.\<close>
theorem dispatchBackoff_exponential:
  "dispatchBackoff n = min dispatchBackoffCap (dispatchBackoffBase * 2 ^ nat (n - 1)) \<and>
   dispatchBackoffBase \<le> dispatchBackoff n \<and> dispatchBackoff n \<le> dispatchBackoffCap \<and>
   dispatchBackoff n \<le> dispatchBackoff (n + 1)"
  using dispatchBackoff_bounds [of n] dispatchBackoff_mono [of n "n + 1"]
  by (simp add: dispatchBackoff_closed)

end
