(* ===== verification/Planner.thy ===== *)
theory Planner
  imports TaskGraph StateMachine "HOL-Library.Sublist"
begin

text \<open>
  \<open>internal/scheduler/plan.go\<close>: the pure planner. \<open>PlanRun\<close> maps the snapshot of one run
  (\<open>RunState\<close>) to the task transitions of this tick, \<open>FinalizeRun\<close> tells when the run is over.
  \<open>planRetryTransitions\<close> mutates the maps \<open>effective\<close> and \<open>decided\<close> of its caller; the model
  returns them. Go's \<open>*time.Time\<close> values are options.

  The lemmas show what a planned transition rests on, that the concurrency caps hold, that a
  run cannot deadlock, and that planning stops once the run is final.
\<close>

section \<open>The run snapshot\<close>

record RunState =
  rs_RunID :: string
  rs_DisplayRunID :: string
  rs_LogicalDate :: string
  rs_DagID :: string
  rs_DagVersionID :: string
  rs_TenantID :: string
  rs_State :: DagRunState
  rs_Tasks :: "TaskSpec list"
  rs_States :: "(string, TaskState) gomap"
  rs_Tries :: "(string, int) gomap"
  rs_MaxTries :: "(string, int) gomap"
  rs_EndedAt :: "(string, time option) gomap"
  rs_RetryDelaySeconds :: "(string, int) gomap"
  rs_RescheduleAt :: "(string, time option) gomap"
  rs_NextDispatchAt :: "(string, time option) gomap"
  rs_DispatchAttempts :: "(string, int) gomap"
  rs_InfraFailed :: "(string, bool) gomap"
  rs_InfraAttempts :: "(string, int) gomap"
  rs_Now :: time
  rs_Alerts :: "AlertsConfig option"
  rs_MaxActiveTasks :: int
  rs_ActiveTaskCount :: int
  rs_PoolsEnabled :: bool
  rs_PoolBudgets :: "(string, int) gomap"
  rs_PoolActive :: "(string, int) gomap"

record PlannedTransition =
  pt_TaskID :: string
  pt_To :: TaskState

abbreviation state_of :: "(string, TaskState) gomap \<Rightarrow> string \<Rightarrow> TaskState" where
  "state_of \<equiv> mget TaskStateZero"

section \<open>Admission gates\<close>

definition defaultPoolName :: string where
  "defaultPoolName = ''default_pool''"

definition PoolKey :: "string \<Rightarrow> string \<Rightarrow> string" where
  "PoolKey tenant pool = tenant @ [CHR 0x00] @ pool"

definition resolvePool :: "string \<Rightarrow> string" where
  "resolvePool pool = (if pool = '''' then defaultPoolName else pool)"

definition poolKeyFor :: "RunState \<Rightarrow> TaskSpec \<Rightarrow> string" where
  "poolKeyFor run t =
     (if \<not> rs_PoolsEnabled run then '''' else PoolKey (rs_TenantID run) (resolvePool (t_Pool t)))"

definition poolHasSlot :: "RunState \<Rightarrow> string \<Rightarrow> (string, int) gomap \<Rightarrow> bool" where
  "poolHasSlot run poolKey promotedByPool =
     (if poolKey = '''' then True
      else
        (let budget = mget 0 (rs_PoolBudgets run) poolKey in
         if budget \<le> 0 then True
         else mget 0 (rs_PoolActive run) poolKey + mget 0 promotedByPool poolKey < budget))"

definition MaxInt :: int where "MaxInt = 2 ^ 63 - 1"

definition admissionHeadroom :: "RunState \<Rightarrow> int" where
  "admissionHeadroom run =
     (if rs_MaxActiveTasks run \<le> 0 then MaxInt
      else
        (let headroom = rs_MaxActiveTasks run - rs_ActiveTaskCount run in
         if headroom > 0 then headroom else 0))"

section \<open>Time gates\<close>

definition retriable :: "RunState \<Rightarrow> string \<Rightarrow> bool" where
  "retriable run taskID = (mget 0 (rs_Tries run) taskID < mget 0 (rs_MaxTries run) taskID)"

definition readyToRetry :: "RunState \<Rightarrow> string \<Rightarrow> bool" where
  "readyToRetry run taskID =
     (let delay = mget 0 (rs_RetryDelaySeconds run) taskID in
      if delay \<le> 0 then True
      else case mget None (rs_EndedAt run) taskID of
          None \<Rightarrow> True
        | Some ended \<Rightarrow>
            (if IsZero (rs_Now run) then True
             else \<not> rs_Now run < ended + wrap64 (delay * second)))"

definition readyToDispatch :: "RunState \<Rightarrow> string \<Rightarrow> bool" where
  "readyToDispatch run taskID =
     (case mget None (rs_NextDispatchAt run) taskID of
        None \<Rightarrow> True
      | Some at \<Rightarrow> (if IsZero (rs_Now run) then True else \<not> rs_Now run < at))"

definition readyToReschedule :: "RunState \<Rightarrow> string \<Rightarrow> bool" where
  "readyToReschedule run taskID =
     (case mget None (rs_RescheduleAt run) taskID of
        None \<Rightarrow> True
      | Some at \<Rightarrow> (if IsZero (rs_Now run) then True else \<not> rs_Now run < at))"

definition infraReplaceable :: "RunState \<Rightarrow> string \<Rightarrow> bool" where
  "infraReplaceable run taskID =
     (mget False (rs_InfraFailed run) taskID \<and> mget 0 (rs_InfraAttempts run) taskID < infraMaxAttempts)"

definition readyToInfraReplace :: "RunState \<Rightarrow> string \<Rightarrow> bool" where
  "readyToInfraReplace run taskID =
     (case mget None (rs_EndedAt run) taskID of
        None \<Rightarrow> True
      | Some ended \<Rightarrow>
          (if IsZero (rs_Now run) then True
           else
             (let delay = dispatchBackoff (mget 0 (rs_InfraAttempts run) taskID + 1) +
                          infraReplaceJitter (rs_RunID run) taskID
              in \<not> rs_Now run < ended + delay)))"

section \<open>Starting a task\<close>

definition triggerRuleOf :: "TaskSpec \<Rightarrow> TriggerRule" where
  "triggerRuleOf t =
     (if t_TriggerRule t = TriggerRuleOther '''' then TriggerRuleAllSuccess else t_TriggerRule t)"

definition decideStart ::
    "TaskSpec \<Rightarrow> string list \<Rightarrow> (string, TaskState) gomap \<Rightarrow> TaskState option" where
  "decideStart t deps states =
     (case EvaluateTriggerRule (triggerRuleOf t) (map (state_of states) deps) of
        DecisionSchedule \<Rightarrow> Some TaskStateScheduled
      | DecisionSkip \<Rightarrow> Some TaskStateSkipped
      | DecisionUpstreamFailed \<Rightarrow> Some TaskStateUpstreamFailed
      | DecisionWait \<Rightarrow> None)"

section \<open>The retry rail\<close>

text \<open>The three variables the loop of \<open>planRetryTransitions\<close> writes.\<close>

record rail =
  ra_out :: "PlannedTransition list"
  ra_effective :: "(string, TaskState) gomap"
  ra_decided :: "(string, bool) gomap"

definition emit :: "string \<Rightarrow> TaskState \<Rightarrow> rail \<Rightarrow> rail" where
  "emit tid to w = w\<lparr>ra_out := ra_out w @ [\<lparr>pt_TaskID = tid, pt_To = to\<rparr>]\<rparr>"

definition set_effective :: "string \<Rightarrow> TaskState \<Rightarrow> rail \<Rightarrow> rail" where
  "set_effective tid s w = w\<lparr>ra_effective := mput tid s (ra_effective w)\<rparr>"

definition set_decided :: "string \<Rightarrow> rail \<Rightarrow> rail" where
  "set_decided tid w = w\<lparr>ra_decided := mput tid True (ra_decided w)\<rparr>"

definition retry_step :: "RunState \<Rightarrow> TaskSpec \<Rightarrow> rail \<Rightarrow> rail" where
  "retry_step run t w =
     (let tid = t_TaskID t in
      case state_of (rs_States run) tid of
        TaskStateFailed \<Rightarrow>
          (if mget False (rs_InfraFailed run) tid then
             (let w1 =
                (if infraReplaceable run tid then
                   (let w0 = set_effective tid TaskStateUpForRetry w in
                    if readyToInfraReplace run tid
                    then set_effective tid TaskStateNone (emit tid TaskStateNone w0)
                    else w0)
                 else w)
              in set_decided tid w1)
           else if retriable run tid then
             set_decided tid (set_effective tid TaskStateUpForRetry (emit tid TaskStateUpForRetry w))
           else w)
      | TaskStateUpForRetry \<Rightarrow>
          (if \<not> readyToRetry run tid then set_decided tid w
           else set_decided tid (set_effective tid TaskStateNone (emit tid TaskStateNone w)))
      | TaskStateUpForReschedule \<Rightarrow>
          (if \<not> readyToReschedule run tid then set_decided tid w
           else set_decided tid (set_effective tid TaskStateNone (emit tid TaskStateNone w)))
      | _ \<Rightarrow> w)"

definition planRetryTransitions ::
    "RunState \<Rightarrow> (string, TaskState) gomap \<Rightarrow> (string, bool) gomap \<Rightarrow> rail" where
  "planRetryTransitions run effective decided =
     fold (retry_step run) (rs_Tasks run)
       \<lparr>ra_out = [], ra_effective = effective, ra_decided = decided\<rparr>"

section \<open>PlanRun and FinalizeRun\<close>

fun plan_loop ::
    "RunState \<Rightarrow> (string, string list) gomap \<Rightarrow> (string, TaskState) gomap \<Rightarrow> (string, bool) gomap \<Rightarrow>
     int \<Rightarrow> TaskSpec list \<Rightarrow> int \<Rightarrow> (string, int) gomap \<Rightarrow> PlannedTransition list" where
  "plan_loop run upstreams effective decided headroom [] promoted poolPromoted = []"
| "plan_loop run upstreams effective decided headroom (t # ts) promoted poolPromoted =
     (let tid = t_TaskID t;
          continue = plan_loop run upstreams effective decided headroom ts
      in
      if mget False decided tid then continue promoted poolPromoted
      else case state_of effective tid of
          TaskStateNone \<Rightarrow>
            (case decideStart t (mget [] upstreams tid) effective of
               Some to \<Rightarrow> \<lparr>pt_TaskID = tid, pt_To = to\<rparr> # continue promoted poolPromoted
             | None \<Rightarrow> continue promoted poolPromoted)
        | TaskStateScheduled \<Rightarrow>
            (if \<not> readyToDispatch run tid then continue promoted poolPromoted
             else if promoted \<ge> headroom then continue promoted poolPromoted
             else
               (let pk = poolKeyFor run t in
                if \<not> poolHasSlot run pk poolPromoted then continue promoted poolPromoted
                else \<lparr>pt_TaskID = tid, pt_To = TaskStateQueued\<rparr> #
                  continue (promoted + 1)
                    (if pk \<noteq> '''' then madd pk 1 poolPromoted else poolPromoted)))
        | _ \<Rightarrow> continue promoted poolPromoted)"

definition upstream_map :: "TaskSpec list \<Rightarrow> (string, string list) gomap" where
  "upstream_map ts = fold (\<lambda>t. mput (t_TaskID t) (t_DependsOn t)) ts []"

definition PlanRun :: "RunState \<Rightarrow> PlannedTransition list" where
  "PlanRun run =
     (let upstreams = upstream_map (rs_Tasks run);
          effective = rs_States run;
          decided = [];
          w = planRetryTransitions run effective decided;
          headroom = admissionHeadroom run
      in ra_out w @
         plan_loop run upstreams (ra_effective w) (ra_decided w) headroom (rs_Tasks run) 0 [])"

fun finalize_loop :: "RunState \<Rightarrow> TaskSpec list \<Rightarrow> bool \<Rightarrow> DagRunState option" where
  "finalize_loop run [] anyFailed =
     Some (if anyFailed then DagRunStateFailed else DagRunStateSuccess)"
| "finalize_loop run (t # ts) anyFailed =
     (let tid = t_TaskID t; st = state_of (rs_States run) tid in
      if st = TaskStateFailed \<and>
         (if mget False (rs_InfraFailed run) tid then infraReplaceable run tid else retriable run tid)
      then None
      else if \<not> IsTerminal st then None
      else finalize_loop run ts
             (anyFailed \<or> st = TaskStateFailed \<or> st = TaskStateUpstreamFailed))"

definition FinalizeRun :: "RunState \<Rightarrow> DagRunState option" where
  "FinalizeRun run = finalize_loop run (rs_Tasks run) False"

section \<open>The retry rail, task by task\<close>

text \<open>The rail reads only the stored states, so its effect is a function of the task alone.\<close>

definition rail_move :: "RunState \<Rightarrow> string \<Rightarrow> TaskState option" where
  "rail_move run tid =
     (case state_of (rs_States run) tid of
        TaskStateFailed \<Rightarrow>
          (if mget False (rs_InfraFailed run) tid
           then (if infraReplaceable run tid \<and> readyToInfraReplace run tid then Some TaskStateNone else None)
           else (if retriable run tid then Some TaskStateUpForRetry else None))
      | TaskStateUpForRetry \<Rightarrow> (if readyToRetry run tid then Some TaskStateNone else None)
      | TaskStateUpForReschedule \<Rightarrow> (if readyToReschedule run tid then Some TaskStateNone else None)
      | _ \<Rightarrow> None)"

definition recoverable :: "RunState \<Rightarrow> string \<Rightarrow> bool" where
  "recoverable run tid \<longleftrightarrow> state_of (rs_States run) tid = TaskStateFailed \<and>
     (if mget False (rs_InfraFailed run) tid then infraReplaceable run tid else retriable run tid)"

definition rail_effective :: "RunState \<Rightarrow> string \<Rightarrow> TaskState" where
  "rail_effective run tid =
     (case rail_move run tid of
        Some to \<Rightarrow> to
      | None \<Rightarrow> (if recoverable run tid then TaskStateUpForRetry else state_of (rs_States run) tid))"

definition rail_decided :: "RunState \<Rightarrow> string \<Rightarrow> bool" where
  "rail_decided run tid \<longleftrightarrow>
     (case state_of (rs_States run) tid of
        TaskStateFailed \<Rightarrow> mget False (rs_InfraFailed run) tid \<or> retriable run tid
      | TaskStateUpForRetry \<Rightarrow> True
      | TaskStateUpForReschedule \<Rightarrow> True
      | _ \<Rightarrow> False)"

definition rail_out :: "RunState \<Rightarrow> TaskSpec \<Rightarrow> PlannedTransition list" where
  "rail_out run t =
     (case rail_move run (t_TaskID t) of
        None \<Rightarrow> [] | Some to \<Rightarrow> [\<lparr>pt_TaskID = t_TaskID t, pt_To = to\<rparr>])"

lemmas rail_defs = rail_move_def rail_effective_def rail_decided_def recoverable_def rail_out_def

lemmas rail_ops = retry_step_def emit_def set_effective_def set_decided_def Let_def

lemma retry_step_out: "ra_out (retry_step run t w) = ra_out w @ rail_out run t"
  by (cases "state_of (rs_States run) (t_TaskID t)") (auto simp: rail_ops rail_defs)

lemma retry_step_decided:
  "mget False (ra_decided (retry_step run t w)) k \<longleftrightarrow>
     (k = t_TaskID t \<and> rail_decided run k) \<or> mget False (ra_decided w) k"
  by (cases "state_of (rs_States run) (t_TaskID t)") (auto simp: rail_ops rail_defs)

definition rail_ok :: "RunState \<Rightarrow> rail \<Rightarrow> bool" where
  "rail_ok run w \<longleftrightarrow>
     (\<forall>k. state_of (ra_effective w) k \<in> {state_of (rs_States run) k, rail_effective run k})"

lemma retry_step_effective:
  assumes "rail_ok run w"
  shows "state_of (ra_effective (retry_step run t w)) k =
     (if k = t_TaskID t then rail_effective run k else state_of (ra_effective w) k)"
proof -
  from assms have "state_of (ra_effective w) (t_TaskID t) \<in>
      {state_of (rs_States run) (t_TaskID t), rail_effective run (t_TaskID t)}"
    unfolding rail_ok_def by blast
  then show ?thesis
    by (cases "state_of (rs_States run) (t_TaskID t)") (auto simp: rail_ops rail_defs)
qed

lemma rail_ok_step: "rail_ok run w \<Longrightarrow> rail_ok run (retry_step run t w)"
  by (simp add: rail_ok_def [of run "retry_step run t w"] retry_step_effective) (simp add: rail_ok_def)

lemma rail_fold:
  assumes "rail_ok run w"
  shows "ra_out (fold (retry_step run) ts w) = ra_out w @ concat (map (rail_out run) ts)"
    and "mget False (ra_decided (fold (retry_step run) ts w)) k \<longleftrightarrow>
           (k \<in> t_TaskID ` set ts \<and> rail_decided run k) \<or> mget False (ra_decided w) k"
    and "state_of (ra_effective (fold (retry_step run) ts w)) k =
           (if k \<in> t_TaskID ` set ts then rail_effective run k else state_of (ra_effective w) k)"
  using assms
proof (induction ts arbitrary: w)
  case (Cons t ts)
  note IH = Cons.IH [OF rail_ok_step]
  {
    case 1
    then show ?case by (simp add: IH(1) retry_step_out)
  next
    case 2
    then show ?case by (auto simp: IH(2) retry_step_decided)
  next
    case 3
    then show ?case by (simp add: IH(3) retry_step_effective)
  }
qed simp_all

lemma planRetryTransitions_simps [simp]:
  "ra_out (planRetryTransitions run (rs_States run) []) = concat (map (rail_out run) (rs_Tasks run))"
  "mget False (ra_decided (planRetryTransitions run (rs_States run) [])) k \<longleftrightarrow>
     k \<in> t_TaskID ` set (rs_Tasks run) \<and> rail_decided run k"
  "state_of (ra_effective (planRetryTransitions run (rs_States run) [])) k =
     (if k \<in> t_TaskID ` set (rs_Tasks run) then rail_effective run k else state_of (rs_States run) k)"
  by (simp_all add: planRetryTransitions_def rail_fold rail_ok_def)

text \<open>The effective state of a task during planning.\<close>

definition effective_state :: "RunState \<Rightarrow> string \<Rightarrow> TaskState" where
  "effective_state run tid =
     (if tid \<in> t_TaskID ` set (rs_Tasks run) then rail_effective run tid else state_of (rs_States run) tid)"

lemma upstream_map_get:
  "distinct (map t_TaskID ts) \<Longrightarrow> t \<in> set ts \<Longrightarrow> mget [] (upstream_map ts) (t_TaskID t) = t_DependsOn t"
proof -
  have other: "k \<notin> t_TaskID ` set us \<Longrightarrow>
      mget [] (fold (\<lambda>t. mput (t_TaskID t) (t_DependsOn t)) us m) k = mget [] m k" for us :: "TaskSpec list" and m k
    by (induction us arbitrary: m) auto
  have "distinct (map t_TaskID ts) \<Longrightarrow> t \<in> set ts \<Longrightarrow>
      mget [] (fold (\<lambda>t. mput (t_TaskID t) (t_DependsOn t)) ts m) (t_TaskID t) = t_DependsOn t" for m
    by (induction ts arbitrary: m) (auto simp: other)
  then show "distinct (map t_TaskID ts) \<Longrightarrow> t \<in> set ts \<Longrightarrow> ?thesis"
    by (simp add: upstream_map_def)
qed

section \<open>The promotion loop\<close>

lemma decideStart_Some:
  "decideStart t deps states = Some to \<Longrightarrow>
     to \<in> {TaskStateScheduled, TaskStateSkipped, TaskStateUpstreamFailed}"
  by (auto simp: decideStart_def split: TriggerDecision.splits)

text \<open>What the loop may emit for one task.\<close>

definition loop_move ::
    "RunState \<Rightarrow> (string, string list) gomap \<Rightarrow> (string, TaskState) gomap \<Rightarrow> (string, bool) gomap \<Rightarrow>
     TaskSpec \<Rightarrow> TaskState \<Rightarrow> bool" where
  "loop_move run ups eff dec t to \<longleftrightarrow> \<not> mget False dec (t_TaskID t) \<and>
     (state_of eff (t_TaskID t) = TaskStateNone \<and>
        decideStart t (mget [] ups (t_TaskID t)) eff = Some to \<or>
      state_of eff (t_TaskID t) = TaskStateScheduled \<and> readyToDispatch run (t_TaskID t) \<and> to = TaskStateQueued)"

text \<open>One iteration of the loop: it passes the task over, starts it, or promotes it through
  both admission gates.\<close>

lemma plan_loop_Cons:
  "plan_loop run ups eff dec h (t # ts) n pp = plan_loop run ups eff dec h ts n pp \<or>
   (\<exists>to. loop_move run ups eff dec t to \<and> to \<noteq> TaskStateQueued \<and>
      plan_loop run ups eff dec h (t # ts) n pp =
        \<lparr>pt_TaskID = t_TaskID t, pt_To = to\<rparr> # plan_loop run ups eff dec h ts n pp) \<or>
   (loop_move run ups eff dec t TaskStateQueued \<and> n < h \<and> poolHasSlot run (poolKeyFor run t) pp \<and>
      plan_loop run ups eff dec h (t # ts) n pp =
        \<lparr>pt_TaskID = t_TaskID t, pt_To = TaskStateQueued\<rparr> #
          plan_loop run ups eff dec h ts (n + 1)
            (if poolKeyFor run t \<noteq> '''' then madd (poolKeyFor run t) 1 pp else pp))"
proof (cases "mget False dec (t_TaskID t)")
  case False
  then show ?thesis
  proof (cases "state_of eff (t_TaskID t)")
    case TaskStateNone
    with False show ?thesis
      by (cases "decideStart t (mget [] ups (t_TaskID t)) eff")
        (auto simp: loop_move_def dest: decideStart_Some)
  next
    case TaskStateScheduled
    with False show ?thesis by (simp add: loop_move_def Let_def)
  qed simp_all
qed simp

lemma plan_loop_sound:
  "p \<in> set (plan_loop run ups eff dec h ts n pp) \<Longrightarrow>
     \<exists>t\<in>set ts. pt_TaskID p = t_TaskID t \<and> loop_move run ups eff dec t (pt_To p)"
proof (induction ts arbitrary: n pp)
  case (Cons t ts)
  from plan_loop_Cons [of run ups eff dec h t ts n pp] Cons.prems Cons.IH
  show ?case by (elim disjE exE conjE) (auto simp del: plan_loop.simps)
qed simp

lemma plan_loop_start:
  "loop_move run ups eff dec t to \<Longrightarrow> to \<noteq> TaskStateQueued \<Longrightarrow>
     plan_loop run ups eff dec h (t # ts) n pp =
       \<lparr>pt_TaskID = t_TaskID t, pt_To = to\<rparr> # plan_loop run ups eff dec h ts n pp"
  by (elim loop_move_def [THEN iffD1, elim_format] conjE disjE) simp_all

lemma plan_loop_promote:
  "loop_move run ups eff dec t TaskStateQueued \<Longrightarrow> n < h \<Longrightarrow> poolHasSlot run (poolKeyFor run t) pp \<Longrightarrow>
     plan_loop run ups eff dec h (t # ts) n pp \<noteq> []"
  by (elim loop_move_def [THEN iffD1, elim_format] conjE disjE) (simp_all add: Let_def)

lemma plan_loop_complete:
  "t \<in> set ts \<Longrightarrow> loop_move run ups eff dec t to \<Longrightarrow> to \<noteq> TaskStateQueued \<Longrightarrow>
     \<lparr>pt_TaskID = t_TaskID t, pt_To = to\<rparr> \<in> set (plan_loop run ups eff dec h ts n pp)"
proof (induction ts arbitrary: n pp)
  case (Cons u ts)
  show ?case
  proof (cases "u = t")
    case True
    with Cons.prems show ?thesis by (simp add: plan_loop_start del: plan_loop.simps)
  next
    case False
    with Cons have "\<lparr>pt_TaskID = t_TaskID t, pt_To = to\<rparr> \<in> set (plan_loop run ups eff dec h ts n pp)"
      for n pp by simp
    with plan_loop_Cons [of run ups eff dec h u ts n pp] show ?thesis
      by (elim disjE exE conjE) (simp_all del: plan_loop.simps)
  qed
qed simp

lemma plan_loop_promotes:
  "t \<in> set ts \<Longrightarrow> loop_move run ups eff dec t TaskStateQueued \<Longrightarrow> n < h \<Longrightarrow>
     poolHasSlot run (poolKeyFor run t) pp \<Longrightarrow> plan_loop run ups eff dec h ts n pp \<noteq> []"
proof (induction ts)
  case (Cons u ts)
  show ?case
  proof (cases "u = t")
    case True
    with Cons.prems show ?thesis by (simp add: plan_loop_promote del: plan_loop.simps)
  next
    case False
    with Cons have "plan_loop run ups eff dec h ts n pp \<noteq> []" by simp
    with plan_loop_Cons [of run ups eff dec h u ts n pp] show ?thesis
      by (elim disjE exE conjE) (simp_all del: plan_loop.simps)
  qed
qed simp

lemma plan_loop_subseq:
  "subseq (map pt_TaskID (plan_loop run ups eff dec h ts n pp)) (map t_TaskID ts)"
proof (induction ts arbitrary: n pp)
  case (Cons t ts)
  from plan_loop_Cons [of run ups eff dec h t ts n pp] Cons.IH
  show ?case by (elim disjE exE conjE) (simp_all del: plan_loop.simps add: list_emb_Cons)
qed simp

definition is_queued :: "PlannedTransition \<Rightarrow> bool" where
  "is_queued p = (pt_To p = TaskStateQueued)"

lemma decideStart_not_queued [simp]: "decideStart t deps states \<noteq> Some TaskStateQueued"
  by (auto dest: decideStart_Some)

lemma plan_loop_headroom:
  "n + count_if is_queued (plan_loop run ups eff dec h ts n pp) \<le> max n h"
proof (induction ts arbitrary: n pp)
  case (Cons t ts)
  note IH = Cons.IH [of n pp]
    Cons.IH [of "n + 1" "if poolKeyFor run t \<noteq> '''' then madd (poolKeyFor run t) 1 pp else pp"]
  from plan_loop_Cons [of run ups eff dec h t ts n pp] IH
  show ?case by (elim disjE exE conjE) (simp_all del: plan_loop.simps add: is_queued_def)
qed simp

definition promoted_to_pool :: "RunState \<Rightarrow> TaskSpec list \<Rightarrow> string \<Rightarrow> PlannedTransition \<Rightarrow> bool" where
  "promoted_to_pool run ts pk p \<longleftrightarrow> is_queued p \<and>
     (\<exists>t\<in>set ts. t_TaskID t = pt_TaskID p \<and> poolKeyFor run t = pk)"

lemma count_if_cong: "(\<And>x. x \<in> set xs \<Longrightarrow> P x = Q x) \<Longrightarrow> count_if P xs = count_if Q xs"
  unfolding count_if_def by (metis filter_cong)

lemma promoted_to_pool_Cons:
  assumes "t_TaskID t \<notin> t_TaskID ` set ts"
  shows "count_if (promoted_to_pool run (t # ts) pk) (plan_loop run ups eff dec h ts n pp) =
         count_if (promoted_to_pool run ts pk) (plan_loop run ups eff dec h ts n pp)"
proof (rule count_if_cong)
  fix p assume "p \<in> set (plan_loop run ups eff dec h ts n pp)"
  then have "pt_TaskID p \<in> t_TaskID ` set ts" using plan_loop_sound by fastforce
  with assms show "promoted_to_pool run (t # ts) pk p = promoted_to_pool run ts pk p"
    by (auto simp: promoted_to_pool_def)
qed

lemma plan_loop_pool:
  assumes "distinct (map t_TaskID ts)" "pk \<noteq> ''''" "mget 0 (rs_PoolBudgets run) pk > 0"
  shows "mget 0 (rs_PoolActive run) pk + mget 0 pp pk +
           count_if (promoted_to_pool run ts pk) (plan_loop run ups eff dec h ts n pp)
         \<le> max (mget 0 (rs_PoolBudgets run) pk) (mget 0 (rs_PoolActive run) pk + mget 0 pp pk)"
  using assms(1)
proof (induction ts arbitrary: n pp)
  case (Cons t ts)
  have fresh: "t_TaskID t \<notin> t_TaskID ` set ts" using Cons.prems by auto
  note [simp] = promoted_to_pool_Cons [OF fresh]
  have IH: "mget 0 (rs_PoolActive run) pk + mget 0 pp pk +
           count_if (promoted_to_pool run ts pk) (plan_loop run ups eff dec h ts n pp)
         \<le> max (mget 0 (rs_PoolBudgets run) pk) (mget 0 (rs_PoolActive run) pk + mget 0 pp pk)" for n pp
    using Cons by simp
    have here: "promoted_to_pool run (t # ts) pk \<lparr>pt_TaskID = t_TaskID t, pt_To = to\<rparr> \<longleftrightarrow>
      to = TaskStateQueued \<and> poolKeyFor run t = pk" for to
  proof -
    from fresh have "\<forall>u\<in>set ts. t_TaskID u \<noteq> t_TaskID t" by (metis image_eqI)
    then show ?thesis by (auto simp: promoted_to_pool_def is_queued_def)
  qed
  have slot: "poolHasSlot run pk pp \<Longrightarrow>
      mget 0 (rs_PoolActive run) pk + mget 0 pp pk + 1 \<le> mget 0 (rs_PoolBudgets run) pk"
    using assms by (simp add: poolHasSlot_def Let_def)
  let ?pp = "if poolKeyFor run t \<noteq> '''' then madd (poolKeyFor run t) 1 pp else pp"
  have pp: "mget 0 ?pp pk = mget 0 pp pk + (if poolKeyFor run t = pk then 1 else 0)"
    using assms(2) by auto
  from plan_loop_Cons [of run ups eff dec h t ts n pp] show ?case
    using IH [of pp n] IH [of ?pp "n + 1"] slot assms(2) unfolding pp
    by (elim disjE exE conjE) (simp_all add: here del: plan_loop.simps split: if_splits)
qed simp

section \<open>What a planned transition rests on\<close>

definition start_state :: "TriggerDecision \<Rightarrow> TaskState option" where
  "start_state d =
     (case d of DecisionSchedule \<Rightarrow> Some TaskStateScheduled | DecisionSkip \<Rightarrow> Some TaskStateSkipped
      | DecisionUpstreamFailed \<Rightarrow> Some TaskStateUpstreamFailed | DecisionWait \<Rightarrow> None)"

text \<open>The planner's contract for one task: the stored state, the state planned for it, and
  what must hold.\<close>

inductive justified :: "RunState \<Rightarrow> TaskSpec \<Rightarrow> TaskState \<Rightarrow> TaskState \<Rightarrow> bool" for run t where
  infra_replace: "infraReplaceable run (t_TaskID t) \<Longrightarrow> readyToInfraReplace run (t_TaskID t) \<Longrightarrow>
     justified run t TaskStateFailed TaskStateNone"
| app_retry: "\<not> mget False (rs_InfraFailed run) (t_TaskID t) \<Longrightarrow> retriable run (t_TaskID t) \<Longrightarrow>
     justified run t TaskStateFailed TaskStateUpForRetry"
| retry_due: "readyToRetry run (t_TaskID t) \<Longrightarrow> justified run t TaskStateUpForRetry TaskStateNone"
| reschedule_due: "readyToReschedule run (t_TaskID t) \<Longrightarrow>
     justified run t TaskStateUpForReschedule TaskStateNone"
| start: "start_state (trigger_spec (triggerRuleOf t) (map (effective_state run) (t_DependsOn t))) = Some to \<Longrightarrow>
     justified run t TaskStateNone to"
| promote: "readyToDispatch run (t_TaskID t) \<Longrightarrow> justified run t TaskStateScheduled TaskStateQueued"

inductive_simps justified_from:
  "justified run t TaskStateNone to"
  "justified run t TaskStateScheduled to"
  "justified run t TaskStateFailed to"
  "justified run t TaskStateUpForRetry to"
  "justified run t TaskStateUpForReschedule to"
  "justified run t TaskStateQueued to"
  "justified run t TaskStateRunning to"
  "justified run t TaskStateSuccess to"
  "justified run t TaskStateSkipped to"
  "justified run t TaskStateUpstreamFailed to"
  "justified run t (TaskStateOther s) to"

lemma rail_move_justified:
  "rail_move run (t_TaskID t) = Some to \<Longrightarrow> justified run t (state_of (rs_States run) (t_TaskID t)) to"
  by (auto simp: rail_move_def intro: justified.intros split: TaskState.splits if_splits)

lemma undecided_effective:
  "\<not> rail_decided run tid \<Longrightarrow> rail_effective run tid = state_of (rs_States run) tid"
  by (cases "state_of (rs_States run) tid") (auto simp: rail_defs infraReplaceable_def)

definition plan_tail :: "RunState \<Rightarrow> PlannedTransition list" where
  "plan_tail run =
     (let w = planRetryTransitions run (rs_States run) [] in
      plan_loop run (upstream_map (rs_Tasks run)) (ra_effective w) (ra_decided w)
        (admissionHeadroom run) (rs_Tasks run) 0 [])"

lemma PlanRun_split: "PlanRun run = concat (map (rail_out run) (rs_Tasks run)) @ plan_tail run"
  by (simp add: PlanRun_def plan_tail_def Let_def)

lemma decideStart_effective:
  assumes "distinct (map t_TaskID (rs_Tasks run))" "t \<in> set (rs_Tasks run)"
  shows "decideStart t (mget [] (upstream_map (rs_Tasks run)) (t_TaskID t))
           (ra_effective (planRetryTransitions run (rs_States run) [])) =
         start_state (trigger_spec (triggerRuleOf t) (map (effective_state run) (t_DependsOn t)))"
proof -
  have "state_of (ra_effective (planRetryTransitions run (rs_States run) [])) = effective_state run"
    by (rule ext) (simp add: effective_state_def)
  then show ?thesis
    by (simp add: decideStart_def upstream_map_get [OF assms] trigger_rule_spec start_state_def)
qed

lemma loop_move_justified:
  assumes "distinct (map t_TaskID (rs_Tasks run))" "t \<in> set (rs_Tasks run)"
  shows "loop_move run (upstream_map (rs_Tasks run))
           (ra_effective (planRetryTransitions run (rs_States run) []))
           (ra_decided (planRetryTransitions run (rs_States run) [])) t to \<longleftrightarrow>
         state_of (rs_States run) (t_TaskID t) \<in> {TaskStateNone, TaskStateScheduled} \<and>
         justified run t (state_of (rs_States run) (t_TaskID t)) to"
proof (cases "rail_decided run (t_TaskID t)")
  case True
  then have "state_of (rs_States run) (t_TaskID t) \<notin> {TaskStateNone, TaskStateScheduled}"
    by (auto simp: rail_decided_def)
  with True assms(2) show ?thesis by (simp add: loop_move_def)
next
  case False
  with assms(2) show ?thesis
    by (auto simp: loop_move_def decideStart_effective [OF assms] undecided_effective justified_from)
qed

lemma rail_moves: 
  "p \<in> set (concat (map (rail_out run) ts)) \<longleftrightarrow>
     (\<exists>t\<in>set ts. pt_TaskID p = t_TaskID t \<and> rail_move run (t_TaskID t) = Some (pt_To p))"
  by (force simp: rail_out_def split: option.splits)

lemma plan_tail_moves:
  assumes "distinct (map t_TaskID (rs_Tasks run))"
  shows "p \<in> set (plan_tail run) \<Longrightarrow> \<exists>t\<in>set (rs_Tasks run). pt_TaskID p = t_TaskID t \<and>
     state_of (rs_States run) (t_TaskID t) \<in> {TaskStateNone, TaskStateScheduled} \<and>
     justified run t (state_of (rs_States run) (t_TaskID t)) (pt_To p)"
  unfolding plan_tail_def Let_def
  using plan_loop_sound loop_move_justified [OF assms] by meson

lemma planned_justified:
  assumes "distinct (map t_TaskID (rs_Tasks run))" and "p \<in> set (PlanRun run)"
  shows "\<exists>t\<in>set (rs_Tasks run). pt_TaskID p = t_TaskID t \<and>
     justified run t (state_of (rs_States run) (t_TaskID t)) (pt_To p)"
  using assms(2) plan_tail_moves [OF assms(1)] rail_move_justified
  by (fastforce simp: PlanRun_split rail_moves simp del: set_concat)

lemma justified_rail:
  "justified run t (state_of (rs_States run) (t_TaskID t)) to \<Longrightarrow>
   state_of (rs_States run) (t_TaskID t) \<notin> {TaskStateNone, TaskStateScheduled} \<Longrightarrow>
   rail_move run (t_TaskID t) = Some to"
  by (cases "state_of (rs_States run) (t_TaskID t)")
    (auto simp: justified_from rail_move_def infraReplaceable_def)

lemma justified_planned:
  assumes "distinct (map t_TaskID (rs_Tasks run))" and "t \<in> set (rs_Tasks run)"
    and "justified run t (state_of (rs_States run) (t_TaskID t)) to" and "to \<noteq> TaskStateQueued"
  shows "\<lparr>pt_TaskID = t_TaskID t, pt_To = to\<rparr> \<in> set (PlanRun run)"
proof (cases "state_of (rs_States run) (t_TaskID t) \<in> {TaskStateNone, TaskStateScheduled}")
  case True
  have "\<lparr>pt_TaskID = t_TaskID t, pt_To = to\<rparr> \<in> set (plan_tail run)"
    unfolding plan_tail_def Let_def
    by (rule plan_loop_complete) (use assms True in \<open>simp_all add: loop_move_justified\<close>)
  then show ?thesis by (simp add: PlanRun_split)
next
  case False
  with assms justified_rail have "rail_move run (t_TaskID t) = Some to" by blast
  with assms(2) show ?thesis unfolding PlanRun_split set_append Un_iff rail_moves by auto
qed

lemma rail_subseq: "subseq (map pt_TaskID (concat (map (rail_out run) ts))) (map t_TaskID ts)"
  by (induction ts) (auto simp: rail_out_def list_emb_Cons split: option.split)

lemma rail_move_state:
  "rail_move run tid = Some to \<Longrightarrow> state_of (rs_States run) tid \<notin> {TaskStateNone, TaskStateScheduled}"
  by (auto simp: rail_move_def)

lemma subseq_subset: "subseq xs ys \<Longrightarrow> set xs \<subseteq> set ys"
  by (induction rule: list_emb.induct) auto

lemma subseq_distinct: "subseq xs ys \<Longrightarrow> distinct ys \<Longrightarrow> distinct xs"
  by (induction rule: list_emb.induct) (auto dest: subseq_subset)

lemma planned_once:
  assumes "distinct (map t_TaskID (rs_Tasks run))"
  shows "distinct (map pt_TaskID (PlanRun run))"
proof -
  have "distinct (map pt_TaskID (concat (map (rail_out run) (rs_Tasks run))))"
    by (rule subseq_distinct [OF rail_subseq assms])
  moreover have "distinct (map pt_TaskID (plan_tail run))"
    unfolding plan_tail_def Let_def by (rule subseq_distinct [OF plan_loop_subseq assms])
  moreover have "pt_TaskID p \<noteq> pt_TaskID q"
    if "p \<in> set (concat (map (rail_out run) (rs_Tasks run)))" "q \<in> set (plan_tail run)" for p q
  proof -
    from that(1) have "state_of (rs_States run) (pt_TaskID p) \<notin> {TaskStateNone, TaskStateScheduled}"
      unfolding rail_moves by (auto dest: rail_move_state)
    moreover from plan_tail_moves [OF assms that(2)]
    have "state_of (rs_States run) (pt_TaskID q) \<in> {TaskStateNone, TaskStateScheduled}" by auto
    ultimately show ?thesis by auto
  qed
  ultimately show ?thesis
    unfolding PlanRun_split map_append distinct_append set_map disjoint_iff image_iff by metis
qed

lemma rail_move_not_queued: "rail_move run tid \<noteq> Some TaskStateQueued"
  unfolding rail_move_def by (auto split: TaskState.splits)

lemma rail_not_queued: "count_if is_queued (concat (map (rail_out run) ts)) = 0"
  unfolding count_if_0_iff Ball_def rail_moves using rail_move_not_queued by (auto simp: is_queued_def)

lemma rail_not_promoted: "count_if (promoted_to_pool run us pk) (concat (map (rail_out run) ts)) = 0"
  using rail_not_queued [of run ts] by (auto simp: count_if_0_iff promoted_to_pool_def)

lemma queued_within_cap:
  assumes "rs_MaxActiveTasks run > 0"
  shows "rs_ActiveTaskCount run + count_if is_queued (PlanRun run)
           \<le> max (rs_MaxActiveTasks run) (rs_ActiveTaskCount run)"
proof -
  have "count_if is_queued (plan_tail run) \<le> max 0 (admissionHeadroom run)"
    using plan_loop_headroom [of 0] by (simp add: plan_tail_def Let_def)
  with assms show ?thesis
    unfolding PlanRun_split count_if_append rail_not_queued
    by (simp add: admissionHeadroom_def Let_def split: if_splits)
qed

lemma promoted_within_budget:
  assumes "distinct (map t_TaskID (rs_Tasks run))" and "pk \<noteq> ''''"
    and "mget 0 (rs_PoolBudgets run) pk > 0"
  shows "mget 0 (rs_PoolActive run) pk + count_if (promoted_to_pool run (rs_Tasks run) pk) (PlanRun run)
           \<le> max (mget 0 (rs_PoolBudgets run) pk) (mget 0 (rs_PoolActive run) pk)"
  unfolding PlanRun_split count_if_append rail_not_promoted
  using plan_loop_pool [of "rs_Tasks run" pk run "[]", OF assms] by (simp add: plan_tail_def Let_def)

section \<open>The end of a run\<close>

lemma finalize_loop_Cons:
  "finalize_loop run (t # ts) b =
     (if recoverable run (t_TaskID t) \<or> \<not> IsTerminal (state_of (rs_States run) (t_TaskID t)) then None
      else finalize_loop run ts
        (b \<or> state_of (rs_States run) (t_TaskID t) \<in> {TaskStateFailed, TaskStateUpstreamFailed}))"
  by (simp add: recoverable_def Let_def)

lemma finalize_loop_iff:
  "finalize_loop run ts b = Some s \<longleftrightarrow>
     (\<forall>t\<in>set ts. IsTerminal (state_of (rs_States run) (t_TaskID t)) \<and> \<not> recoverable run (t_TaskID t)) \<and>
     s = (if b \<or> (\<exists>t\<in>set ts. state_of (rs_States run) (t_TaskID t) \<in> {TaskStateFailed, TaskStateUpstreamFailed})
          then DagRunStateFailed else DagRunStateSuccess)"
proof (induction ts arbitrary: b)
  case (Cons t ts)
  show ?case
  proof (cases "recoverable run (t_TaskID t) \<or> \<not> IsTerminal (state_of (rs_States run) (t_TaskID t))")
    case True
    then have "finalize_loop run (t # ts) b = None" unfolding finalize_loop_Cons by simp
    with True show ?thesis by (simp del: insert_iff finalize_loop.simps) blast
  next
    case False
    then show ?thesis unfolding finalize_loop_Cons by (simp add: Cons.IH disj_assoc del: insert_iff)
  qed
qed auto

lemma FinalizeRun_iff:
  "FinalizeRun run = Some s \<longleftrightarrow>
     (\<forall>t\<in>set (rs_Tasks run). IsTerminal (state_of (rs_States run) (t_TaskID t)) \<and> \<not> recoverable run (t_TaskID t)) \<and>
     s = (if \<exists>t\<in>set (rs_Tasks run). state_of (rs_States run) (t_TaskID t) \<in> {TaskStateFailed, TaskStateUpstreamFailed}
          then DagRunStateFailed else DagRunStateSuccess)"
  unfolding FinalizeRun_def finalize_loop_iff by simp

lemma justified_not_final:
  "justified run t (state_of (rs_States run) (t_TaskID t)) to \<Longrightarrow>
   IsTerminal (state_of (rs_States run) (t_TaskID t)) \<Longrightarrow> recoverable run (t_TaskID t)"
  by (cases "state_of (rs_States run) (t_TaskID t)")
    (auto simp: justified_from recoverable_def infraReplaceable_def)

section \<open>No deadlock\<close>

text \<open>Nothing but the trigger rules and the caps can hold a task back: every backoff, cooldown
  and poke time has passed, and the caps leave room for one more task.\<close>

definition gates_open :: "RunState \<Rightarrow> bool" where
  "gates_open run \<longleftrightarrow> admissionHeadroom run > 0 \<and>
     (\<forall>t\<in>set (rs_Tasks run). readyToRetry run (t_TaskID t) \<and> readyToReschedule run (t_TaskID t) \<and>
        readyToDispatch run (t_TaskID t) \<and> readyToInfraReplace run (t_TaskID t) \<and>
        poolHasSlot run (poolKeyFor run t) [])"

text \<open>No task of the run is in the hands of an executor, and every task has a row.\<close>

definition idle :: "RunState \<Rightarrow> bool" where
  "idle run \<longleftrightarrow> (\<forall>t\<in>set (rs_Tasks run). state_of (rs_States run) (t_TaskID t) \<in>
     {TaskStateNone, TaskStateScheduled, TaskStateUpForRetry, TaskStateUpForReschedule,
      TaskStateSuccess, TaskStateFailed, TaskStateSkipped, TaskStateUpstreamFailed})"

definition known_rules :: "TaskSpec list \<Rightarrow> bool" where
  "known_rules ts \<longleftrightarrow> (\<forall>t\<in>set ts. \<forall>r. triggerRuleOf t \<noteq> TriggerRuleOther r)"

lemma nothing_planned_states:
  assumes "executable_graph (rs_Tasks run)" "gates_open run" "idle run" "PlanRun run = []"
    and t: "t \<in> set (rs_Tasks run)"
  shows "state_of (rs_States run) (t_TaskID t) = TaskStateNone \<or>
    IsTerminal (state_of (rs_States run) (t_TaskID t)) \<and> \<not> recoverable run (t_TaskID t)"
proof -
  let ?s = "state_of (rs_States run) (t_TaskID t)"
  have dist: "distinct (map t_TaskID (rs_Tasks run))" using assms(1) by (simp add: executable_graph_def)
  have stuck: "rail_move run (t_TaskID t) = None"
    using assms(4) t rail_moves [of _ run "rs_Tasks run"] unfolding PlanRun_split
    by (cases "rail_move run (t_TaskID t)") (auto simp: rail_out_def)
  have "?s \<noteq> TaskStateScheduled"
  proof
    assume s: "?s = TaskStateScheduled"
    have "plan_tail run \<noteq> []" unfolding plan_tail_def Let_def
      by (rule plan_loop_promotes [OF t])
        (use assms(2) s t in \<open>simp_all add: loop_move_justified [OF dist t] justified_from gates_open_def\<close>)
    with assms(4) show False by (simp add: PlanRun_split)
  qed
  moreover from stuck assms(2) t have "?s \<noteq> TaskStateUpForRetry" "?s \<noteq> TaskStateUpForReschedule"
    by (auto simp: rail_move_def gates_open_def)
  moreover from stuck assms(2) t have "\<not> recoverable run (t_TaskID t)"
    by (auto simp: rail_move_def gates_open_def recoverable_def split: if_splits)
  ultimately show ?thesis using assms(3) t by (auto simp: idle_def)
qed

lemma minimal_unstarted:
  assumes "executable_graph ts" "t \<in> set ts" "P (t_TaskID t)"
  shows "\<exists>u\<in>set ts. P (t_TaskID u) \<and> (\<forall>dep\<in>set (t_DependsOn u). \<not> P dep)"
proof -
  have "finite (task_edges ts)"
    by (rule finite_subset [of _ "(t_TaskID ` set ts) \<times> (\<Union>t\<in>set ts. set (t_DependsOn t))"])
      (auto simp: task_edges_def)
  then have "wf ((task_edges ts)\<inverse>)"
    using assms(1) by (simp add: executable_graph_def finite_acyclic_wf_converse)
  from wfE_min [OF this, of "t_TaskID t" "{k \<in> t_TaskID ` set ts. P k}"] assms(2,3)
  obtain u where "u \<in> set ts" "P (t_TaskID u)"
      "\<And>y. (y, t_TaskID u) \<in> (task_edges ts)\<inverse> \<Longrightarrow> y \<notin> {k \<in> t_TaskID ` set ts. P k}"
    by auto
  moreover from this have "\<forall>dep\<in>set (t_DependsOn u). dep \<in> t_TaskID ` set ts \<and> (dep, t_TaskID u) \<in> (task_edges ts)\<inverse>"
    using assms(1) by (auto simp: executable_graph_def task_edges_def)
  ultimately show ?thesis by blast
qed

lemma no_deadlock:
  assumes "executable_graph (rs_Tasks run)" "known_rules (rs_Tasks run)" "gates_open run" "idle run"
    and stuck: "PlanRun run = []"
  shows "FinalizeRun run \<noteq> None"
proof -
  note states = nothing_planned_states [OF assms(1,3,4) stuck]
  have dist: "distinct (map t_TaskID (rs_Tasks run))" using assms(1) by (simp add: executable_graph_def)
  have "state_of (rs_States run) (t_TaskID t) \<noteq> TaskStateNone" if "t \<in> set (rs_Tasks run)" for t
  proof
    assume "state_of (rs_States run) (t_TaskID t) = TaskStateNone"
    from minimal_unstarted [of _ _ "\<lambda>k. state_of (rs_States run) k = TaskStateNone", OF assms(1) that this]
    obtain u where u: "u \<in> set (rs_Tasks run)" "state_of (rs_States run) (t_TaskID u) = TaskStateNone"
        "\<forall>dep\<in>set (t_DependsOn u). state_of (rs_States run) dep \<noteq> TaskStateNone"
      by blast
    have "IsTerminal (effective_state run dep)" if "dep \<in> set (t_DependsOn u)" for dep
    proof -
      from assms(1) u(1) that obtain v where v: "v \<in> set (rs_Tasks run)" "t_TaskID v = dep"
        by (fastforce simp: executable_graph_def)
      with states [OF v(1)] u(3) that
      have "IsTerminal (state_of (rs_States run) dep)" "\<not> recoverable run dep" by auto
      then have "effective_state run dep = state_of (rs_States run) dep"
        by (auto simp: effective_state_def rail_effective_def rail_move_def recoverable_def infraReplaceable_def
            split: TaskState.splits)
      with \<open>IsTerminal (state_of (rs_States run) dep)\<close> show ?thesis by simp
    qed
    then have "trigger_spec (triggerRuleOf u) (map (effective_state run) (t_DependsOn u)) \<noteq> DecisionWait"
      using assms(2) u(1) by (intro settled_decides) (auto simp: settled_def known_rules_def)
    then obtain to where "start_state (trigger_spec (triggerRuleOf u) (map (effective_state run) (t_DependsOn u))) = Some to"
        "to \<noteq> TaskStateQueued"
      by (cases "trigger_spec (triggerRuleOf u) (map (effective_state run) (t_DependsOn u))") (auto simp: start_state_def)
    then have "\<lparr>pt_TaskID = t_TaskID u, pt_To = to\<rparr> \<in> set (PlanRun run)"
      using u(1,2) by (intro justified_planned [OF dist]) (auto simp: justified_from)
    with stuck show False by simp
  qed
  with states show ?thesis using FinalizeRun_iff [of run] by blast
qed

section \<open>Properties\<close>

text \<open>A run snapshot with no timers, budgets or pools set, for concrete instances.\<close>

definition sample_run :: "TaskSpec list \<Rightarrow> (string, TaskState) gomap \<Rightarrow> RunState" where
  "sample_run ts states =
     \<lparr>rs_RunID = ''r1'', rs_DisplayRunID = ''manual__1'', rs_LogicalDate = '''', rs_DagID = ''dag'',
      rs_DagVersionID = ''v1'', rs_TenantID = ''tn'', rs_State = DagRunStateRunning, rs_Tasks = ts,
      rs_States = states, rs_Tries = [], rs_MaxTries = [], rs_EndedAt = [],
      rs_RetryDelaySeconds = [], rs_RescheduleAt = [], rs_NextDispatchAt = [],
      rs_DispatchAttempts = [], rs_InfraFailed = [], rs_InfraAttempts = [], rs_Now = 0,
      rs_Alerts = None, rs_MaxActiveTasks = 0, rs_ActiveTaskCount = 0, rs_PoolsEnabled = False,
      rs_PoolBudgets = [], rs_PoolActive = []\<rparr>"

definition chain_run :: "TaskState \<Rightarrow> TaskState \<Rightarrow> RunState" where
  "chain_run a b =
     sample_run [plain_task ''a'' [], plain_task ''b'' [''a'']] [(''a'', a), (''b'', b)]"

lemma chain_executable: "executable_graph [plain_task ''a'' [], plain_task ''b'' [''a'']]"
proof -
  have "validateGraph (plain_dag [plain_task ''a'' [], plain_task ''b'' [''a'']]) = Some (Inr ())"
    by code_simp
  then show ?thesis by (simp add: validateGraph_iff plain_dag_def)
qed

lemma chain_run_tasks [simp]: "rs_Tasks (chain_run a b) = [plain_task ''a'' [], plain_task ''b'' [''a'']]"
  by (simp add: chain_run_def sample_run_def)

text \<open>C1: The planner's contract. For a task of a run with unique task ids, a transition is
  planned only if it is justified: infra re-placement within budget and after its backoff,
  application retry within the try budget, retry and reschedule after their delay, start as the
  trigger rule says on the effective upstream states, promotion of a dispatchable scheduled
  task. And every justified transition other than a promotion (which the caps may park) is
  planned.\<close>
theorem PlanRun_contract:
  assumes "distinct (map t_TaskID (rs_Tasks run))" and "t \<in> set (rs_Tasks run)"
  shows "(\<lparr>pt_TaskID = t_TaskID t, pt_To = to\<rparr> \<in> set (PlanRun run) \<longrightarrow>
            justified run t (state_of (rs_States run) (t_TaskID t)) to) \<and>
         (justified run t (state_of (rs_States run) (t_TaskID t)) to \<and> to \<noteq> TaskStateQueued \<longrightarrow>
            \<lparr>pt_TaskID = t_TaskID t, pt_To = to\<rparr> \<in> set (PlanRun run))"
proof -
  have "justified run t (state_of (rs_States run) (t_TaskID t)) to"
    if "\<lparr>pt_TaskID = t_TaskID t, pt_To = to\<rparr> \<in> set (PlanRun run)"
  proof -
    from planned_justified [OF assms(1) that] obtain u where
      "u \<in> set (rs_Tasks run)" "t_TaskID t = t_TaskID u"
      "justified run u (state_of (rs_States run) (t_TaskID u)) to" by auto
    moreover from this assms have "u = t" by (simp add: distinct_map inj_on_def)
    ultimately show ?thesis by simp
  qed
  with justified_planned [OF assms] show ?thesis by blast
qed

theorem PlanRun_contract_witness:
  "\<lparr>pt_TaskID = ''a'', pt_To = TaskStateScheduled\<rparr>
     \<in> set (PlanRun (sample_run [plain_task ''a'' []] [(''a'', TaskStateNone)]))"
  using PlanRun_contract [of "sample_run [plain_task ''a'' []] [(''a'', TaskStateNone)]"
      "plain_task ''a'' []" TaskStateScheduled]
  by (simp add: sample_run_def plain_task_def justified_from trigger_spec_def start_state_def)

text \<open>C32: One tick plans at most one transition for each task of the run.\<close>
theorem PlanRun_one_transition_per_task:
  assumes "distinct (map t_TaskID (rs_Tasks run))"
  shows "distinct (map pt_TaskID (PlanRun run))"
  using assms by (rule planned_once)

theorem PlanRun_one_transition_per_task_witness:
  "distinct (map pt_TaskID (PlanRun (sample_run [plain_task ''a'' [], plain_task ''b'' []]
     [(''a'', TaskStateScheduled), (''b'', TaskStateNone)])))"
  by (rule PlanRun_one_transition_per_task) (simp add: sample_run_def plain_task_def)

text \<open>C19: max_active_tasks. With a positive cap, the tasks already active in the DAG plus the
  promotions of this tick stay within the cap; a DAG already over it promotes nothing.\<close>
theorem PlanRun_respects_max_active_tasks:
  assumes "rs_MaxActiveTasks run > 0"
  shows "rs_ActiveTaskCount run + count_if is_queued (PlanRun run)
           \<le> max (rs_MaxActiveTasks run) (rs_ActiveTaskCount run)"
  using assms by (rule queued_within_cap)

theorem PlanRun_respects_max_active_tasks_witness:
  "1 + count_if is_queued (PlanRun ((sample_run [plain_task ''a'' [], plain_task ''b'' []]
     [(''a'', TaskStateScheduled), (''b'', TaskStateScheduled)])
     \<lparr>rs_MaxActiveTasks := 2, rs_ActiveTaskCount := 1\<rparr>)) \<le> (2 :: int)"
  using PlanRun_respects_max_active_tasks [of "(sample_run [plain_task ''a'' [], plain_task ''b'' []]
     [(''a'', TaskStateScheduled), (''b'', TaskStateScheduled)])
     \<lparr>rs_MaxActiveTasks := 2, rs_ActiveTaskCount := 1\<rparr>"]
  by simp

text \<open>C20: Named pools. With the pool gate on and a positive slot budget for a pool, the pool's
  occupancy plus the promotions of this tick into it stay within the budget, whichever of the
  run's tasks draw from it (a task without a pool draws from the default pool).\<close>
theorem PlanRun_respects_pool_slots:
  assumes "distinct (map t_TaskID (rs_Tasks run))" and "pk \<noteq> ''''"
    and "mget 0 (rs_PoolBudgets run) pk > 0"
  shows "mget 0 (rs_PoolActive run) pk + count_if (promoted_to_pool run (rs_Tasks run) pk) (PlanRun run)
           \<le> max (mget 0 (rs_PoolBudgets run) pk) (mget 0 (rs_PoolActive run) pk)"
  using assms by (rule promoted_within_budget)

theorem PlanRun_respects_pool_slots_witness:
  "let run = (sample_run [plain_task ''a'' [], plain_task ''b'' []]
         [(''a'', TaskStateScheduled), (''b'', TaskStateScheduled)])
         \<lparr>rs_PoolsEnabled := True, rs_PoolBudgets := [(PoolKey ''tn'' ''default_pool'', 1)]\<rparr>
   in count_if (promoted_to_pool run (rs_Tasks run) (PoolKey ''tn'' ''default_pool'')) (PlanRun run) \<le> 1"
  using PlanRun_respects_pool_slots [of "(sample_run [plain_task ''a'' [], plain_task ''b'' []]
         [(''a'', TaskStateScheduled), (''b'', TaskStateScheduled)])
         \<lparr>rs_PoolsEnabled := True, rs_PoolBudgets := [(PoolKey ''tn'' ''default_pool'', 1)]\<rparr>"
      "PoolKey ''tn'' ''default_pool''"]
  by (simp add: sample_run_def plain_task_def PoolKey_def)

text \<open>C21: A task is condemned to upstream_failed only because of an upstream that is itself
  upstream_failed or has failed for good: a failed upstream that may still be retried or
  re-placed, even one waiting out its backoff, never condemns its downstream.\<close>
theorem upstream_failed_only_if_terminal:
  assumes "executable_graph (rs_Tasks run)"
    and "p \<in> set (PlanRun run)" and "pt_To p = TaskStateUpstreamFailed"
  shows "\<exists>t\<in>set (rs_Tasks run). t_TaskID t = pt_TaskID p \<and> (\<exists>dep\<in>set (t_DependsOn t).
     state_of (rs_States run) dep = TaskStateUpstreamFailed \<or>
     state_of (rs_States run) dep = TaskStateFailed \<and> \<not> recoverable run dep)"
proof -
  have dist: "distinct (map t_TaskID (rs_Tasks run))" using assms(1) by (simp add: executable_graph_def)
  from planned_justified [OF dist assms(2)] assms(3) obtain t where t: "t \<in> set (rs_Tasks run)"
      "t_TaskID t = pt_TaskID p"
      "justified run t (state_of (rs_States run) (t_TaskID t)) TaskStateUpstreamFailed" by auto
  from t(3) have "trigger_spec (triggerRuleOf t) (map (effective_state run) (t_DependsOn t)) = DecisionUpstreamFailed"
    by (cases rule: justified.cases) (auto simp: start_state_def split: TriggerDecision.splits)
  then obtain dep where dep: "dep \<in> set (t_DependsOn t)"
      "effective_state run dep \<in> {TaskStateUpstreamFailed, TaskStateFailed}"
    by (auto simp: trigger_UpstreamFailed_iff)
  from assms(1) t(1) dep(1) have "dep \<in> t_TaskID ` set (rs_Tasks run)"
    by (auto simp: executable_graph_def)
  with dep(2) have "rail_effective run dep \<in> {TaskStateUpstreamFailed, TaskStateFailed}"
    by (simp add: effective_state_def)
  then have "state_of (rs_States run) dep = TaskStateUpstreamFailed \<or>
      state_of (rs_States run) dep = TaskStateFailed \<and> \<not> recoverable run dep"
    by (auto simp: rail_defs split: TaskState.splits if_splits option.splits)
  with t dep(1) show ?thesis by blast
qed

theorem upstream_failed_only_if_terminal_witness:
  "\<exists>t\<in>set (rs_Tasks (chain_run TaskStateFailed TaskStateNone)). t_TaskID t = ''b'' \<and>
     (\<exists>dep\<in>set (t_DependsOn t).
        state_of (rs_States (chain_run TaskStateFailed TaskStateNone)) dep = TaskStateUpstreamFailed \<or>
        state_of (rs_States (chain_run TaskStateFailed TaskStateNone)) dep = TaskStateFailed \<and>
        \<not> recoverable (chain_run TaskStateFailed TaskStateNone) dep)"
proof -
  let ?p = "\<lparr>pt_TaskID = ''b'', pt_To = TaskStateUpstreamFailed\<rparr>"
  have "?p \<in> set (PlanRun (chain_run TaskStateFailed TaskStateNone))"
    by code_simp
  with upstream_failed_only_if_terminal [of "chain_run TaskStateFailed TaskStateNone" ?p] show ?thesis
    by (simp add: chain_executable)
qed

text \<open>C17: A run is final exactly when all its tasks are in terminal states and no failed task
  can still be retried or re-placed; it is then failed iff some task failed or was condemned by
  a failure. A final run is quiescent: nothing more is planned for it.\<close>
theorem FinalizeRun_correct:
  assumes "distinct (map t_TaskID (rs_Tasks run))"
  shows "(FinalizeRun run = Some s \<longleftrightarrow>
     (\<forall>t\<in>set (rs_Tasks run). IsTerminal (state_of (rs_States run) (t_TaskID t)) \<and> \<not> recoverable run (t_TaskID t)) \<and>
     s = (if \<exists>t\<in>set (rs_Tasks run). state_of (rs_States run) (t_TaskID t) \<in> {TaskStateFailed, TaskStateUpstreamFailed}
          then DagRunStateFailed else DagRunStateSuccess)) \<and>
   (FinalizeRun run = Some s \<longrightarrow> PlanRun run = [])"
proof -
  have "p \<notin> set (PlanRun run)" if "FinalizeRun run = Some s" for p
    using that planned_justified [OF assms, of p] justified_not_final unfolding FinalizeRun_iff by blast
  then have "FinalizeRun run = Some s \<longrightarrow> PlanRun run = []" by (metis last_in_set)
  then show ?thesis using FinalizeRun_iff by blast
qed

theorem FinalizeRun_correct_witness:
  "FinalizeRun (chain_run TaskStateFailed TaskStateUpstreamFailed) = Some DagRunStateFailed \<and>
   PlanRun (chain_run TaskStateFailed TaskStateUpstreamFailed) = []"
proof -
  let ?run = "chain_run TaskStateFailed TaskStateUpstreamFailed"
  have "distinct (map t_TaskID (rs_Tasks ?run))" by (simp add: plain_task_def)
  from FinalizeRun_correct [OF this, of DagRunStateFailed] show ?thesis
    by (simp add: plain_task_def chain_run_def sample_run_def recoverable_def retriable_def)
qed

text \<open>C16: No deadlock. In a run of a valid graph whose rules are known, when no task is in an
  executor's hands and every timer and cap leaves room, either the run is final or the planner
  moves some task.\<close>
theorem PlanRun_no_deadlock:
  assumes "executable_graph (rs_Tasks run)" and "known_rules (rs_Tasks run)"
    and "gates_open run" and "idle run"
  shows "FinalizeRun run \<noteq> None \<or> PlanRun run \<noteq> []"
  using no_deadlock [OF assms] by blast

theorem PlanRun_no_deadlock_witness: "PlanRun (chain_run TaskStateSuccess TaskStateNone) \<noteq> []"
proof -
  let ?run = "chain_run TaskStateSuccess TaskStateNone"
  have "executable_graph (rs_Tasks ?run)" by (simp add: chain_executable)
  moreover have "known_rules (rs_Tasks ?run)"
    by (simp add: known_rules_def plain_task_def triggerRuleOf_def)
  moreover have "gates_open ?run" "idle ?run" "FinalizeRun ?run = None" by code_simp+
  ultimately show ?thesis using PlanRun_no_deadlock [of ?run] by simp
qed

text \<open>With the pool gate off the plan does not depend on the pool budgets or the pool
  occupancy: the Lite edition plans as if pools did not exist.\<close>
theorem PlanRun_pools_disabled:
  assumes "\<not> rs_PoolsEnabled run"
  shows "PlanRun (run\<lparr>rs_PoolBudgets := budgets, rs_PoolActive := active\<rparr>) = PlanRun run"
proof -
  let ?run = "run\<lparr>rs_PoolBudgets := budgets, rs_PoolActive := active\<rparr>"
  have gates: "poolKeyFor ?run = poolKeyFor run" "readyToDispatch ?run = readyToDispatch run"
    using assms by (simp_all add: fun_eq_iff poolKeyFor_def readyToDispatch_def cong: option.case_cong)
  have slot: "poolHasSlot r (poolKeyFor run t) pp" for r t pp
    using assms by (simp add: poolHasSlot_def poolKeyFor_def)
  have loop: "plan_loop ?run ups eff dec h ts n pp = plan_loop run ups eff dec h ts n pp" for ups eff dec h ts n pp
    by (induction ts arbitrary: n pp) (simp_all add: gates slot Let_def cong: if_cong option.case_cong TaskState.case_cong)
  have "retry_step ?run = retry_step run"
    by (intro ext) (simp add: retry_step_def infraReplaceable_def readyToInfraReplace_def retriable_def
        readyToRetry_def readyToReschedule_def Let_def
        cong: option.case_cong TaskState.case_cong if_cong)
  then show ?thesis
    by (simp add: PlanRun_def planRetryTransitions_def admissionHeadroom_def loop)
qed

theorem PlanRun_pools_disabled_witness:
  "PlanRun ((chain_run TaskStateScheduled TaskStateNone)
     \<lparr>rs_PoolBudgets := [(''tn'', 1)], rs_PoolActive := [(''tn'', 1)]\<rparr>) =
   PlanRun (chain_run TaskStateScheduled TaskStateNone)"
  by (rule PlanRun_pools_disabled) (simp add: chain_run_def sample_run_def)

text \<open>C33: Bounded infra recovery. A task that failed for an infrastructure reason and has
  re-place budget left is re-placed at the latest in the first tick that is
  \<open>InfraReplaceMaxDelay\<close> (190 seconds) after it ended.\<close>
theorem infra_replace_within_max_delay:
  assumes "distinct (map t_TaskID (rs_Tasks run))" and "t \<in> set (rs_Tasks run)"
    and "state_of (rs_States run) (t_TaskID t) = TaskStateFailed"
    and "infraReplaceable run (t_TaskID t)"
    and "mget None (rs_EndedAt run) (t_TaskID t) = Some ended"
    and "ended + InfraReplaceMaxDelay \<le> rs_Now run"
  shows "\<lparr>pt_TaskID = t_TaskID t, pt_To = TaskStateNone\<rparr> \<in> set (PlanRun run) \<and>
         InfraReplaceMaxDelay = 190 * second"
proof -
  have "dispatchBackoff (mget 0 (rs_InfraAttempts run) (t_TaskID t) + 1) \<le> dispatchBackoff infraMaxAttempts"
    using assms(4) by (intro dispatchBackoff_mono) (simp add: infraReplaceable_def)
  with infraReplaceJitter_bounds [of "rs_RunID run" "t_TaskID t"] assms(5,6)
  have "readyToInfraReplace run (t_TaskID t)"
    by (simp add: readyToInfraReplace_def InfraReplaceMaxDelay_def Let_def)
  then have "justified run t (state_of (rs_States run) (t_TaskID t)) TaskStateNone"
    using assms(3,4) by (simp add: justified_from)
  with assms(1,2) show ?thesis using justified_planned InfraReplaceMaxDelay_value by blast
qed

theorem infra_replace_within_max_delay_witness:
  "\<lparr>pt_TaskID = ''a'', pt_To = TaskStateNone\<rparr> \<in> set (PlanRun ((chain_run TaskStateFailed TaskStateNone)
     \<lparr>rs_InfraFailed := [(''a'', True)], rs_InfraAttempts := [(''a'', 5)],
      rs_EndedAt := [(''a'', Some second)], rs_Now := 191 * second\<rparr>))"
  using infra_replace_within_max_delay [of "(chain_run TaskStateFailed TaskStateNone)
     \<lparr>rs_InfraFailed := [(''a'', True)], rs_InfraAttempts := [(''a'', 5)],
      rs_EndedAt := [(''a'', Some second)], rs_Now := 191 * second\<rparr>" "plain_task ''a'' []" second]
  by (simp add: plain_task_def chain_run_def sample_run_def infraReplaceable_def infraMaxAttempts_def
      InfraReplaceMaxDelay_value second_def)

text \<open>C34: Of the transitions the planner emits, exactly the application retry
  failed to up_for_retry is missing from the table of legal transitions; every other planned
  transition is in it.\<close>
theorem planned_transitions_vs_table:
  assumes "distinct (map t_TaskID (rs_Tasks run))" and "p \<in> set (PlanRun run)"
  shows "CanTransition (state_of (rs_States run) (pt_TaskID p)) (pt_To p) \<longleftrightarrow>
     \<not> (state_of (rs_States run) (pt_TaskID p) = TaskStateFailed \<and> pt_To p = TaskStateUpForRetry)"
proof -
  from planned_justified [OF assms] obtain t where
    "justified run t (state_of (rs_States run) (pt_TaskID p)) (pt_To p)" by auto
  then show ?thesis
    by (cases rule: justified.cases)
      (auto simp: CanTransition_def taskTransitions_def start_state_def split: TriggerDecision.splits)
qed

theorem planned_transitions_vs_table_witness:
  "\<not> CanTransition TaskStateFailed TaskStateUpForRetry"
proof -
  let ?run = "(chain_run TaskStateFailed TaskStateNone)\<lparr>rs_MaxTries := [(''a'', 1)]\<rparr>"
  let ?p = "\<lparr>pt_TaskID = ''a'', pt_To = TaskStateUpForRetry\<rparr>"
  have "?p \<in> set (PlanRun ?run)" by code_simp
  moreover have "distinct (map t_TaskID (rs_Tasks ?run))" by (simp add: plain_task_def chain_run_def sample_run_def)
  ultimately show ?thesis
    using planned_transitions_vs_table [of ?run ?p] by (simp add: chain_run_def sample_run_def)
qed

end
