(* ===== verification/DueRuns.thy ===== *)
theory DueRuns
  imports Domain
begin

text \<open>
  \<open>internal/scheduler/cron.go\<close>, \<open>catchup.go\<close> and \<open>createDueRuns\<close> of \<open>scheduler.go\<close>: which
  scheduled runs a tick creates.

  The cron library is a parameter: \<open>ParseStandard\<close> gives the schedule of an expression, if it has
  one, and a schedule is its method \<open>Next\<close> on UTC times (the code converts every time to UTC before
  it calls \<open>Next\<close>, and a time of the model is an instant). \<open>Next\<close> may return the zero time, so the
  enumeration of slots may not end; it is a partial function, and \<open>None\<close> is a loop that does not end.
  The store is a parameter too: whether creating a run succeeds may depend on the calls before.
\<close>

section \<open>Schedules\<close>

type_synonym schedule = "time \<Rightarrow> time"

text \<open>\<open>time.Time.Sub\<close> saturates.\<close>

definition time_Sub :: "time \<Rightarrow> time \<Rightarrow> duration" where
  "time_Sub t u = max (- (2 ^ 63)) (min (2 ^ 63 - 1) (t - u))"

definition scheduleParseable :: "(string \<Rightarrow> schedule option) \<Rightarrow> string \<Rightarrow> bool" where
  "scheduleParseable ParseStandard expr = (ParseStandard expr \<noteq> None)"

definition mostRecentSlot :: "schedule \<Rightarrow> time \<Rightarrow> time option" where
  "mostRecentSlot schedule now =
     (let n1 = schedule now; period = time_Sub (schedule n1) n1 in
      if period \<le> 0 then None
      else let prev = schedule (now + - period) in if now < prev then None else Some prev)"

definition nextScheduledRun :: "(string \<Rightarrow> schedule option) \<Rightarrow> string \<Rightarrow> time option \<Rightarrow> time \<Rightarrow> time option" where
  "nextScheduledRun ParseStandard expr last_run now =
     (case ParseStandard expr of
        None \<Rightarrow> None
      | Some schedule \<Rightarrow>
          (case last_run of
             None \<Rightarrow> mostRecentSlot schedule now
           | Some l \<Rightarrow> (let n = schedule l in if now < n then None else Some n)))"

section \<open>Missed slots\<close>

definition schedulePeriod :: "schedule \<Rightarrow> time \<Rightarrow> duration" where
  "schedulePeriod schedule now = (let a = schedule now; b = schedule a in time_Sub b a)"

definition catchupSeed :: "schedule \<Rightarrow> time option \<Rightarrow> time option \<Rightarrow> time \<Rightarrow> time option" where
  "catchupSeed schedule lastLogical startDate now =
     (case lastLogical of
        Some l \<Rightarrow> Some l
      | None \<Rightarrow>
          (case startDate of
             Some sd \<Rightarrow>
               (let period = schedulePeriod schedule now in
                if period \<le> 0 then None else Some (sd + - period))
           | None \<Rightarrow> None))"

definition before_floor :: "time option \<Rightarrow> time \<Rightarrow> bool" where
  "before_floor startDate t = (case startDate of None \<Rightarrow> False | Some sd \<Rightarrow> t < sd)"

partial_function (option) slots_loop ::
  "schedule \<Rightarrow> time option \<Rightarrow> time \<Rightarrow> int \<Rightarrow> time list \<Rightarrow> time \<Rightarrow> time list option" where
  "slots_loop schedule startDate now maxSlots slots cursor =
     (if now < schedule cursor then Some slots
      else if before_floor startDate (schedule cursor)
      then slots_loop schedule startDate now maxSlots slots (schedule cursor)
      else if int (length (slots @ [schedule cursor])) \<ge> maxSlots then Some (slots @ [schedule cursor])
      else slots_loop schedule startDate now maxSlots (slots @ [schedule cursor]) (schedule cursor))"

declare slots_loop.simps [code]

definition dueScheduledSlots ::
  "(string \<Rightarrow> schedule option) \<Rightarrow> string \<Rightarrow> time option \<Rightarrow> time option \<Rightarrow> time \<Rightarrow> bool \<Rightarrow> int \<Rightarrow> time list option" where
  "dueScheduledSlots ParseStandard expr lastLogical startDate now catchup maxSlots =
     (case ParseStandard expr of
        None \<Rightarrow> Some []
      | Some schedule \<Rightarrow>
          (case catchupSeed schedule lastLogical startDate now of
             None \<Rightarrow> Some []
           | Some seed \<Rightarrow>
               (case slots_loop schedule startDate now maxSlots [] seed of
                  None \<Rightarrow> None
                | Some slots \<Rightarrow>
                    Some (if slots = [] then []
                          else if \<not> catchup then drop (length slots - 1) slots
                          else slots))))"

section \<open>Creating the due runs\<close>

definition maxCatchupSlotsPerTick :: int where "maxCatchupSlotsPerTick = 100"

record ScheduledDAG =
  sd_DagID :: string
  sd_Schedule :: string
  sd_LastLogical :: "time option"
  sd_StartDate :: "time option"
  sd_Catchup :: bool
  sd_MaxActiveRuns :: int

text \<open>\<open>warnedSchedules\<close> of the scheduler, \<open>createdThisTick\<close>, the calls of
  \<open>store.CreateScheduledRun\<close> in their order, and the decisions handed to \<open>record\<close>.\<close>

record due_state =
  du_warned :: "(string, string) gomap"
  du_created :: "(string, int) gomap"
  du_calls :: "(string \<times> time) list"
  du_decisions :: "string list"

type_synonym create_store = "(string \<times> time) list \<Rightarrow> string \<Rightarrow> time \<Rightarrow> bool"

definition hasHeadroom :: "ScheduledDAG \<Rightarrow> (string, int) gomap \<Rightarrow> (string, int) gomap \<Rightarrow> bool" where
  "hasHeadroom d active justCreated =
     (if sd_MaxActiveRuns d \<le> 0 then True
      else mget 0 active (sd_DagID d) + mget 0 justCreated (sd_DagID d) < sd_MaxActiveRuns d)"

definition recordCapSkip :: "due_state \<Rightarrow> due_state" where
  "recordCapSkip s = s\<lparr>du_decisions := du_decisions s @ [''max_active_runs_cap'']\<rparr>"

definition createScheduledRun :: "create_store \<Rightarrow> string \<Rightarrow> time \<Rightarrow> due_state \<Rightarrow> due_state" where
  "createScheduledRun ok dagID logical s =
     (let created = ok (du_calls s) dagID logical in
      s\<lparr>du_calls := du_calls s @ [(dagID, logical)],
        du_decisions := du_decisions s @ [if created then ''create_run'' else ''create_run_error'']\<rparr>)"

text \<open>\<open>s.createScheduledRun(...); createdThisTick[d.DagID]++\<close>\<close>

definition create_one :: "create_store \<Rightarrow> string \<Rightarrow> time \<Rightarrow> due_state \<Rightarrow> due_state" where
  "create_one ok dagID logical s =
     (let s = createScheduledRun ok dagID logical s in s\<lparr>du_created := madd dagID 1 (du_created s)\<rparr>)"

fun create_slots :: "create_store \<Rightarrow> (string, int) gomap \<Rightarrow> ScheduledDAG \<Rightarrow> time list \<Rightarrow> due_state \<Rightarrow> due_state" where
  "create_slots ok active d [] s = s"
| "create_slots ok active d (logical # slots) s =
     (if \<not> hasHeadroom d active (du_created s) then recordCapSkip s
      else create_slots ok active d slots (create_one ok (sd_DagID d) logical s))"

definition due_dag ::
  "(string \<Rightarrow> schedule option) \<Rightarrow> create_store \<Rightarrow> (string, int) gomap \<Rightarrow> time \<Rightarrow> ScheduledDAG \<Rightarrow> due_state \<Rightarrow> due_state option" where
  "due_dag ParseStandard ok active now d s =
     (if IsOnceSchedule (sd_Schedule d) then
        Some (if sd_LastLogical d = None then create_one ok (sd_DagID d) now s else s)
      else if IsCronlessSchedule (sd_Schedule d) then Some s
      else if \<not> scheduleParseable ParseStandard (sd_Schedule d) then
        Some (if mget '''' (du_warned s) (sd_DagID d) \<noteq> sd_Schedule d
              then s\<lparr>du_warned := mput (sd_DagID d) (sd_Schedule d) (du_warned s)\<rparr> else s)
      else if sd_LastLogical d = None \<and> sd_StartDate d = None then
        (case nextScheduledRun ParseStandard (sd_Schedule d) (sd_LastLogical d) now of
           None \<Rightarrow> Some s
         | Some logical \<Rightarrow>
             Some (if \<not> hasHeadroom d active (du_created s) then recordCapSkip s
                   else create_one ok (sd_DagID d) logical s))
      else
        (case dueScheduledSlots ParseStandard (sd_Schedule d) (sd_LastLogical d) (sd_StartDate d) now
                (sd_Catchup d) maxCatchupSlotsPerTick of
           None \<Rightarrow> None
         | Some slots \<Rightarrow> Some (create_slots ok active d slots s)))"

fun due_dags ::
  "(string \<Rightarrow> schedule option) \<Rightarrow> create_store \<Rightarrow> (string, int) gomap \<Rightarrow> time \<Rightarrow> ScheduledDAG list \<Rightarrow> due_state \<Rightarrow> due_state option" where
  "due_dags ParseStandard ok active now [] s = Some s"
| "due_dags ParseStandard ok active now (d # ds) s =
     (case due_dag ParseStandard ok active now d s of
        None \<Rightarrow> None
      | Some s' \<Rightarrow> due_dags ParseStandard ok active now ds s')"

text \<open>\<open>dags\<close> is the result of \<open>store.ScheduledDAGs\<close>; its error is returned.\<close>

definition createDueRuns ::
  "(string \<Rightarrow> schedule option) \<Rightarrow> create_store \<Rightarrow> 'e + ScheduledDAG list \<Rightarrow> (string, string) gomap \<Rightarrow>
     (string, int) gomap \<Rightarrow> time \<Rightarrow> ('e + due_state) option" where
  "createDueRuns ParseStandard ok dags warned activeByDAG now =
     (case dags of
        Inl e \<Rightarrow> Some (Inl e)
      | Inr ds \<Rightarrow>
          (case due_dags ParseStandard ok activeByDAG now ds
                  \<lparr>du_warned = warned, du_created = [], du_calls = [], du_decisions = []\<rparr> of
             None \<Rightarrow> None
           | Some s \<Rightarrow> Some (Inr s)))"

section \<open>The slots that are enumerated\<close>

text \<open>What the cron library documents of \<open>Next\<close> for a schedule with activations \<open>A\<close>: the next
  activation later than the given time.\<close>

definition activates :: "schedule \<Rightarrow> time set \<Rightarrow> bool" where
  "activates schedule A \<longleftrightarrow>
     (\<forall>t. t < schedule t \<and> schedule t \<in> A \<and> (\<forall>a\<in>A. t < a \<longrightarrow> schedule t \<le> a))"

text \<open>The activations up to now that are later than the last run and not before the start date.\<close>

definition missed :: "time set \<Rightarrow> time option \<Rightarrow> time option \<Rightarrow> time \<Rightarrow> time set" where
  "missed A lastLogical startDate now =
     {a \<in> A. a \<le> now \<and> (\<forall>l. lastLogical = Some l \<longrightarrow> l < a) \<and> \<not> before_floor startDate a}"

lemma finite_missed: "lastLogical \<noteq> None \<or> startDate \<noteq> None \<Longrightarrow> finite (missed A lastLogical startDate now)"
proof -
  assume "lastLogical \<noteq> None \<or> startDate \<noteq> None"
  then have "missed A lastLogical startDate now \<subseteq> {the lastLogical..now} \<or>
      missed A lastLogical startDate now \<subseteq> {the startDate..now}"
    by (auto simp: missed_def before_floor_def)
  then have "\<exists>b. missed A lastLogical startDate now \<subseteq> {b..now}" by blast
  then obtain b where "missed A lastLogical startDate now \<subseteq> {b..now}" ..
  then show ?thesis by (rule finite_subset) simp
qed

lemma missed_step:
  assumes "activates schedule A"
  shows "now < schedule c \<Longrightarrow> missed A (Some c) sd now = {}"
    and "\<not> now < schedule c \<Longrightarrow> before_floor sd (schedule c) \<Longrightarrow>
           missed A (Some c) sd now = missed A (Some (schedule c)) sd now"
    and "\<not> now < schedule c \<Longrightarrow> \<not> before_floor sd (schedule c) \<Longrightarrow>
           missed A (Some c) sd now = insert (schedule c) (missed A (Some (schedule c)) sd now)"
proof -
  have n: "c < schedule c" "schedule c \<in> A" "\<And>a. a \<in> A \<Longrightarrow> c < a \<Longrightarrow> schedule c \<le> a"
    using assms by (auto simp: activates_def)
  have after: "c < a \<longleftrightarrow> a = schedule c \<or> schedule c < a" if "a \<in> A" for a
    using n that by force
  show "now < schedule c \<Longrightarrow> missed A (Some c) sd now = {}"
    using n(3) by (force simp: missed_def)
  show "\<not> now < schedule c \<Longrightarrow> before_floor sd (schedule c) \<Longrightarrow>
      missed A (Some c) sd now = missed A (Some (schedule c)) sd now"
    using after by (auto simp: missed_def)
  show "\<not> now < schedule c \<Longrightarrow> \<not> before_floor sd (schedule c) \<Longrightarrow>
      missed A (Some c) sd now = insert (schedule c) (missed A (Some (schedule c)) sd now)"
    using after n(2) by (auto simp: missed_def)
qed

lemma sorted_list_of_set_Cons:
  "finite S \<Longrightarrow> (\<And>a. a \<in> S \<Longrightarrow> x < a) \<Longrightarrow> sorted_list_of_set (insert x S) = x # sorted_list_of_set (S :: time set)"
  by (intro sorted_distinct_set_unique) (auto simp: less_imp_le simp del: sorted_list_of_set_insert_remove)

lemma slots_loop_takes:
  assumes "activates schedule A" and "int (length slots) < maxSlots"
  shows "slots_loop schedule sd now maxSlots slots c =
     Some (slots @ take (nat maxSlots - length slots) (sorted_list_of_set (missed A (Some c) sd now)))"
  using assms(2)
proof (induction "nat (now - c)" arbitrary: c slots rule: less_induct)
  case less
  let ?n = "schedule c"
  have n: "c < ?n" using assms(1) by (simp add: activates_def)
  show ?case
  proof (cases "now < ?n")
    case True
    then show ?thesis using missed_step(1) [OF assms(1) True] by (simp add: slots_loop.simps [of schedule sd now _ _ c])
  next
    case now: False
    then have dec: "nat (now - ?n) < nat (now - c)" using n by linarith
    show ?thesis
    proof (cases "before_floor sd ?n")
      case True
      then show ?thesis
        using now less.hyps [OF dec less.prems] missed_step(2) [OF assms(1) now True]
        by (simp add: slots_loop.simps [of schedule sd now _ _ c])
    next
      case False
      let ?S = "missed A (Some ?n) sd now"
      have L: "sorted_list_of_set (missed A (Some c) sd now) = ?n # sorted_list_of_set ?S"
        unfolding missed_step(3) [OF assms(1) now False]
        by (rule sorted_list_of_set_Cons) (simp_all add: finite_missed, simp add: missed_def)
      have k: "nat maxSlots - length slots = Suc (nat maxSlots - length (slots @ [?n]))"
        using less.prems by simp
      show ?thesis
      proof (cases "int (length (slots @ [?n])) \<ge> maxSlots")
        case True
        then have "nat maxSlots - length (slots @ [?n]) = 0" by simp
        then show ?thesis
          unfolding L k using now False True by (simp add: slots_loop.simps [of schedule sd now _ _ c])
      next
        case more: False
        then show ?thesis
          unfolding L k using now False less.hyps [OF dec, of "slots @ [?n]"]
          by (simp add: slots_loop.simps [of schedule sd now _ _ c])
      qed
    qed
  qed
qed

lemma schedulePeriod_pos: "activates schedule A \<Longrightarrow> 0 < schedulePeriod schedule now"
proof -
  assume "activates schedule A"
  then have "schedule now < schedule (schedule now)" by (simp add: activates_def)
  then show ?thesis by (simp add: schedulePeriod_def time_Sub_def Let_def)
qed

lemma due_slots:
  assumes "ParseStandard expr = Some schedule" and "activates schedule A"
    and "lastLogical \<noteq> None \<or> startDate \<noteq> None" and "1 \<le> maxSlots"
  shows "dueScheduledSlots ParseStandard expr lastLogical startDate now catchup maxSlots =
     Some (let due = take (nat maxSlots) (sorted_list_of_set (missed A lastLogical startDate now))
           in if catchup then due else drop (length due - 1) due)"
proof -
  obtain seed where seed: "catchupSeed schedule lastLogical startDate now = Some seed"
    "missed A (Some seed) startDate now = missed A lastLogical startDate now"
  proof (cases lastLogical)
    case None
    then obtain sd where sd: "startDate = Some sd" using assms(3) by auto
    let ?seed = "sd - schedulePeriod schedule now"
    have p: "0 < schedulePeriod schedule now" by (rule schedulePeriod_pos [OF assms(2)])
    then have "missed A (Some ?seed) startDate now = missed A lastLogical startDate now"
      using None sd by (auto simp: missed_def before_floor_def)
    with None sd p that [of ?seed] show ?thesis by (simp add: catchupSeed_def Let_def)
  qed (use that in \<open>simp add: catchupSeed_def\<close>)
  define due where "due = take (nat maxSlots) (sorted_list_of_set (missed A lastLogical startDate now))"
  have "slots_loop schedule startDate now maxSlots [] seed = Some due"
    using slots_loop_takes [OF assms(2), of "[]" maxSlots startDate now seed] assms(4) seed(2)
    by (simp add: due_def)
  then show ?thesis
    using assms(1) seed(1) unfolding due_def [symmetric] by (simp add: dueScheduledSlots_def Let_def)
qed

lemma last_take_eq_last:
  assumes "distinct xs" and "xs \<noteq> []" and "0 < m"
  shows "last (take m xs) = last xs \<longleftrightarrow> length xs \<le> m"
proof -
  have "last (take m xs) = xs ! (min (length xs) m - 1)"
    using assms by (simp add: last_conv_nth)
  moreover have "last xs = xs ! (length xs - 1)" using assms by (simp add: last_conv_nth)
  moreover have "xs ! (min (length xs) m - 1) = xs ! (length xs - 1) \<longleftrightarrow>
      min (length xs) m - 1 = length xs - 1"
    using assms by (intro nth_eq_iff_index_eq) (auto simp: min_def)
  ultimately show ?thesis using assms by (auto simp: min_def split: if_splits)
qed

lemma skip_ahead_slot:
  assumes "ParseStandard expr = Some schedule" and "activates schedule A"
    and "lastLogical \<noteq> None \<or> startDate \<noteq> None" and "1 \<le> maxSlots"
    and "missed A lastLogical startDate now \<noteq> {}"
  shows "dueScheduledSlots ParseStandard expr lastLogical startDate now False maxSlots =
     Some [last (take (nat maxSlots) (sorted_list_of_set (missed A lastLogical startDate now)))]"
proof -
  define due where "due = take (nat maxSlots) (sorted_list_of_set (missed A lastLogical startDate now))"
  have "due \<noteq> []" using assms(4,5) finite_missed [OF assms(3)] by (simp add: due_def)
  then have "drop (length due - 1) due = [last due]" by (cases due rule: rev_cases) simp_all
  then show ?thesis using due_slots [of ParseStandard expr, OF assms(1-4), of now False] by (simp add: due_def Let_def)
qed

lemma last_sorted_list_of_set: "finite S \<Longrightarrow> S \<noteq> {} \<Longrightarrow> last (sorted_list_of_set S) = Max (S :: time set)"
proof -
  assume S: "finite S" "S \<noteq> {}"
  then obtain ys y where L: "sorted_list_of_set S = ys @ [y]" by (cases "sorted_list_of_set S" rule: rev_cases) auto
  then have "set (ys @ [y]) = S" "sorted (ys @ [y])" using S(1) by (metis set_sorted_list_of_set, metis sorted_sorted_list_of_set)
  then have "Max S = y" using S(1) by (intro Max_eqI) (auto simp: sorted_append)
  with L show ?thesis by simp
qed

section \<open>The cap on active runs\<close>

definition calls_for :: "string \<Rightarrow> due_state \<Rightarrow> int" where
  "calls_for i s = count_if (\<lambda>c. fst c = i) (du_calls s)"

definition counted :: "due_state \<Rightarrow> bool" where
  "counted s \<longleftrightarrow> (\<forall>i. mget 0 (du_created s) i = calls_for i s)"

lemma create_one_simps [simp]:
  "calls_for i (create_one ok j t s) = calls_for i s + (if i = j then 1 else 0)"
  "counted s \<Longrightarrow> counted (create_one ok j t s)"
  "du_calls (create_one ok j t s) = du_calls s @ [(j, t)]"
  by (simp_all add: create_one_def createScheduledRun_def calls_for_def counted_def Let_def)

lemma recordCapSkip_simps [simp]:
  "calls_for i (recordCapSkip s) = calls_for i s" "counted (recordCapSkip s) = counted s"
  "du_calls (recordCapSkip s) = du_calls s" "du_created (recordCapSkip s) = du_created s"
  by (simp_all add: recordCapSkip_def calls_for_def counted_def)

lemma warned_simps [simp]:
  "calls_for i (s\<lparr>du_warned := w\<rparr>) = calls_for i s" "counted (s\<lparr>du_warned := w\<rparr>) = counted s"
  by (simp_all add: calls_for_def counted_def)

definition within_cap :: "(string, int) gomap \<Rightarrow> ScheduledDAG \<Rightarrow> due_state \<Rightarrow> bool" where
  "within_cap active d s \<longleftrightarrow>
     mget 0 active (sd_DagID d) + calls_for (sd_DagID d) s \<le> max (mget 0 active (sd_DagID d)) (sd_MaxActiveRuns d)"

lemma within_cap_simps [simp]:
  "within_cap active d (recordCapSkip s) = within_cap active d s"
  "within_cap active d (s\<lparr>du_warned := w\<rparr>) = within_cap active d s"
  by (simp_all add: within_cap_def)

lemma headroom_step:
  "counted s \<Longrightarrow> 0 < sd_MaxActiveRuns d \<Longrightarrow> hasHeadroom d active (du_created s) \<Longrightarrow>
     within_cap active d (create_one ok (sd_DagID d) t s)"
  by (simp add: within_cap_def hasHeadroom_def counted_def)

lemma create_slots_keeps:
  "counted s \<Longrightarrow> counted (create_slots ok active d slots s) \<and>
     (i \<noteq> sd_DagID d \<longrightarrow> calls_for i (create_slots ok active d slots s) = calls_for i s) \<and>
     (0 < sd_MaxActiveRuns d \<longrightarrow> within_cap active d s \<longrightarrow> within_cap active d (create_slots ok active d slots s))"
  by (induction slots arbitrary: s) (auto simp: headroom_step)

lemma due_dag_keeps:
  assumes "due_dag ParseStandard ok active now d s = Some s'" and "counted s"
  shows "counted s' \<and> (i \<noteq> sd_DagID d \<longrightarrow> calls_for i s' = calls_for i s) \<and>
     (\<not> IsOnceSchedule (sd_Schedule d) \<longrightarrow> 0 < sd_MaxActiveRuns d \<longrightarrow> within_cap active d s \<longrightarrow> within_cap active d s')"
  using assms create_slots_keeps [OF assms(2), of ok active d _ i]
  by (auto simp: due_dag_def headroom_step split: if_splits option.splits)

lemma due_dags_keeps:
  "due_dags ParseStandard ok active now ds s = Some s' \<Longrightarrow> counted s \<Longrightarrow>
     counted s' \<and> (i \<notin> sd_DagID ` set ds \<longrightarrow> calls_for i s' = calls_for i s)"
proof (induction ds arbitrary: s)
  case (Cons d ds)
  then obtain s1 where s1: "due_dag ParseStandard ok active now d s = Some s1"
    "due_dags ParseStandard ok active now ds s1 = Some s'" by (auto split: option.splits)
  from due_dag_keeps [OF s1(1) Cons.prems(2), of i] Cons.IH [OF s1(2)] show ?case by auto
qed simp

lemma due_dags_cap:
  assumes "due_dags ParseStandard ok active now ds s = Some s'" and "counted s"
    and "distinct (map sd_DagID ds)" and "d \<in> set ds" and "\<not> IsOnceSchedule (sd_Schedule d)"
    and "0 < sd_MaxActiveRuns d" and "within_cap active d s"
  shows "within_cap active d s'"
  using assms(1-4,7)
proof (induction ds arbitrary: s)
  case (Cons e ds)
  then obtain s1 where s1: "due_dag ParseStandard ok active now e s = Some s1"
    "due_dags ParseStandard ok active now ds s1 = Some s'" by (auto split: option.splits)
  note keeps = due_dag_keeps [OF s1(1) Cons.prems(2)]
  have c: "counted s1" using keeps by blast
  show ?case
  proof (cases "d = e")
    case True
    then have "within_cap active d s1" using keeps assms(5,6) Cons.prems(5) by blast
    moreover have "calls_for (sd_DagID d) s' = calls_for (sd_DagID d) s1"
      using due_dags_keeps [OF s1(2) c, of "sd_DagID d"] Cons.prems(3) True by simp
    ultimately show ?thesis by (simp add: within_cap_def)
  next
    case False
    then have "d \<in> set ds" using Cons.prems(4) by simp
    moreover from this have "sd_DagID d \<noteq> sd_DagID e" using Cons.prems(3) by (auto simp: image_iff)
    moreover from this have "within_cap active d s1"
      using keeps [of "sd_DagID d"] Cons.prems(5) by (simp add: within_cap_def)
    ultimately show ?thesis using Cons.IH [OF s1(2) c] Cons.prems(3) by simp
  qed
qed simp

text \<open>With a \<open>Next\<close> that is later than its argument the enumeration ends.\<close>

lemma slots_loop_ends: "(\<And>t. t < schedule t) \<Longrightarrow> slots_loop schedule sd now m slots c \<noteq> None"
proof (induction "nat (now - c)" arbitrary: c slots rule: less_induct)
  case less
  have "nat (now - schedule c) < nat (now - c)" if "\<not> now < schedule c"
    using less.prems [of c] that by linarith
  then show ?case using less by (simp add: slots_loop.simps [of schedule sd now m slots c])
qed

text \<open>With a \<open>Next\<close> that gives the zero time, as the library does for a schedule without
  activations, and a start date the enumeration does not end.\<close>

lemma slots_loop_zero_time_aux:
  "slots_loop schedule sd now m slots c = Some ys \<Longrightarrow> \<not> ((\<forall>t. schedule t = 0) \<and> sd = Some start \<and> 0 < start \<and> 0 \<le> now)"
proof (rule slots_loop.raw_induct
    [of "\<lambda>schedule sd now m slots c ys. \<not> ((\<forall>t. schedule t = 0) \<and> sd = Some start \<and> 0 < start \<and> 0 \<le> now)"],
    rule notI, elim conjE)
  fix loop :: "schedule \<Rightarrow> time option \<Rightarrow> time \<Rightarrow> int \<Rightarrow> time list \<Rightarrow> time \<Rightarrow> time list option"
  fix schedule :: schedule and sd now m slots c ys
  assume IH: "\<And>schedule sd now m slots c ys. loop schedule sd now m slots c = Some ys \<Longrightarrow>
      \<not> ((\<forall>t. schedule t = 0) \<and> sd = Some start \<and> 0 < start \<and> 0 \<le> now)"
    and body: "(if now < schedule c then Some slots
      else if before_floor sd (schedule c) then loop schedule sd now m slots (schedule c)
      else if int (length (slots @ [schedule c])) \<ge> m then Some (slots @ [schedule c])
      else loop schedule sd now m (slots @ [schedule c]) (schedule c)) = Some ys"
    and "\<forall>t. schedule t = 0" "sd = Some start" "0 < start" "0 \<le> now"
  then have "loop schedule sd now m slots 0 = Some ys" by (simp add: before_floor_def)
  then show False using IH \<open>\<forall>t. schedule t = 0\<close> \<open>sd = Some start\<close> \<open>0 < start\<close> \<open>0 \<le> now\<close> by blast
qed

lemma slots_loop_zero_time:
  "(\<And>t. schedule t = 0) \<Longrightarrow> 0 < start \<Longrightarrow> 0 \<le> now \<Longrightarrow> slots_loop schedule (Some start) now m slots c = None"
  using slots_loop_zero_time_aux [of schedule "Some start" now m slots c _ start]
  by (cases "slots_loop schedule (Some start) now m slots c") auto

definition progressing :: "(string \<Rightarrow> schedule option) \<Rightarrow> bool" where
  "progressing ParseStandard \<longleftrightarrow> (\<forall>expr schedule t. ParseStandard expr = Some schedule \<longrightarrow> t < schedule t)"

lemma dueScheduledSlots_returns:
  "progressing ParseStandard \<Longrightarrow> dueScheduledSlots ParseStandard expr l sd now catchup m \<noteq> None"
proof (cases "ParseStandard expr")
  case (Some schedule)
  assume "progressing ParseStandard"
  then have "slots_loop schedule sd now m [] seed \<noteq> None" for seed
    using Some by (intro slots_loop_ends) (auto simp: progressing_def)
  then show ?thesis
    using Some by (cases "catchupSeed schedule l sd now") (auto simp: dueScheduledSlots_def simp del: not_None_eq split: option.split)
qed (simp add: dueScheduledSlots_def)

lemma due_dags_return: "progressing ParseStandard \<Longrightarrow> \<exists>s'. due_dags ParseStandard ok active now ds s = Some s'"
proof (induction ds arbitrary: s)
  case (Cons d ds)
  have "due_dag ParseStandard ok active now d s \<noteq> None"
    by (simp add: due_dag_def dueScheduledSlots_returns [OF Cons.prems] del: not_None_eq split: option.split)
  then obtain s1 where "due_dag ParseStandard ok active now d s = Some s1" by blast
  with Cons show ?case by auto
qed simp

text \<open>The calls do not depend on which of them fail.\<close>

lemma create_slots_calls:
  "du_calls s = du_calls t \<Longrightarrow> du_created s = du_created t \<Longrightarrow>
     du_calls (create_slots ok active d slots s) = du_calls (create_slots ok' active d slots t) \<and>
     du_created (create_slots ok active d slots s) = du_created (create_slots ok' active d slots t)"
  by (induction slots arbitrary: s t) (simp_all add: create_one_def createScheduledRun_def Let_def)

lemma due_dag_calls:
  assumes "du_calls s = du_calls t" and "du_created s = du_created t"
    and "due_dag ParseStandard ok active now d s = Some s'" and "due_dag ParseStandard ok' active now d t = Some t'"
  shows "du_calls s' = du_calls t' \<and> du_created s' = du_created t'"
proof -
  note slots = create_slots_calls [OF assms(1,2), of ok active d _ ok']
  have one: "du_calls (create_one ok i l s) = du_calls (create_one ok' i l t) \<and>
      du_created (create_one ok i l s) = du_created (create_one ok' i l t)" for i l
    using assms(1,2) by (simp add: create_one_def createScheduledRun_def Let_def)
  show ?thesis
    using assms by (auto simp: due_dag_def one slots simp del: create_one_simps split: if_splits option.splits)
qed

lemma createDueRuns_Some:
  "createDueRuns ParseStandard ok (Inr ds) warned active now = Some (Inr s) \<longleftrightarrow>
     due_dags ParseStandard ok active now ds
       \<lparr>du_warned = warned, du_created = [], du_calls = [], du_decisions = []\<rparr> = Some s"
  by (simp add: createDueRuns_def split: option.split)

lemma due_dags_calls:
  "du_calls s = du_calls t \<Longrightarrow> du_created s = du_created t \<Longrightarrow>
     due_dags ParseStandard ok active now ds s = Some s' \<Longrightarrow> due_dags ParseStandard ok' active now ds t = Some t' \<Longrightarrow>
     du_calls s' = du_calls t'"
proof (induction ds arbitrary: s t)
  case (Cons d ds)
  then obtain s1 t1 where one: "due_dag ParseStandard ok active now d s = Some s1"
      "due_dag ParseStandard ok' active now d t = Some t1"
    and rest: "due_dags ParseStandard ok active now ds s1 = Some s'"
      "due_dags ParseStandard ok' active now ds t1 = Some t'"
    by (auto split: option.splits)
  from due_dag_calls [OF Cons.prems(1,2) one] show ?case using Cons.IH [OF _ _ rest] by blast
qed simp

text \<open>A schedule with an activation at every multiple of ten, to apply the properties to.\<close>

definition tens :: schedule where
  "tens t = (t div 10 + 1) * 10"

lemma activates_tens: "activates tens {a. 10 dvd a}"
  unfolding activates_def tens_def by (auto simp: dvd_def) (presburger | arith)+

lemma progressing_tens: "progressing (\<lambda>expr. Some tens)"
  using activates_tens by (auto simp: progressing_def activates_def)

lemma missed_tens: "missed {a. 10 dvd a} (Some 5) None 37 = {10, 20, 30}"
proof -
  have "10 dvd a \<and> a \<le> 37 \<and> 5 < a \<longleftrightarrow> a = 10 \<or> a = 20 \<or> a = 30" for a :: int by presburger
  then show ?thesis by (auto simp: missed_def before_floor_def)
qed

section \<open>Properties\<close>

text \<open>C9: Backfilling is complete and in order. For a DAG with a last run or a start date, whose
  schedule has the activations \<open>A\<close>, the slots of a tick are the earliest \<open>maxSlots\<close> of the
  activations up to now that are later than the last run and not before the start date; without
  catchup, only the last one of these.\<close>
theorem dueScheduledSlots_correct:
  assumes "ParseStandard expr = Some schedule" and "activates schedule A"
    and "lastLogical \<noteq> None \<or> startDate \<noteq> None" and "1 \<le> maxSlots"
  shows "dueScheduledSlots ParseStandard expr lastLogical startDate now catchup maxSlots =
     Some (let due = take (nat maxSlots) (sorted_list_of_set (missed A lastLogical startDate now))
           in if catchup then due else drop (length due - 1) due)"
  using assms by (rule due_slots)

theorem dueScheduledSlots_correct_witness:
  "dueScheduledSlots (\<lambda>expr. Some tens) ''@x'' (Some 5) None 37 True 100 = Some [10, 20, 30]"
  using dueScheduledSlots_correct [where ParseStandard = "\<lambda>expr. Some tens" and expr = "''@x''", OF refl activates_tens,
      of "Some 5" None 100 37 True]
  by (simp add: missed_tens)

text \<open>C13: Without catchup the run of the most recent missed slot is created if and only if no more
  than \<open>maxSlots\<close> slots were missed. With more of them an older slot fires, and the ticks that follow
  fire again until the backlog is used up.\<close>
theorem skip_ahead_iff_few_missed:
  assumes "ParseStandard expr = Some schedule" and "activates schedule A"
    and "lastLogical \<noteq> None \<or> startDate \<noteq> None" and "1 \<le> maxSlots"
    and "missed A lastLogical startDate now \<noteq> {}"
  shows "dueScheduledSlots ParseStandard expr lastLogical startDate now False maxSlots =
       Some [Max (missed A lastLogical startDate now)] \<longleftrightarrow>
     int (card (missed A lastLogical startDate now)) \<le> maxSlots"
proof -
  let ?M = "missed A lastLogical startDate now"
  have fin: "finite ?M" by (rule finite_missed [OF assms(3)])
  have "last (take (nat maxSlots) (sorted_list_of_set ?M)) = last (sorted_list_of_set ?M) \<longleftrightarrow>
      length (sorted_list_of_set ?M) \<le> nat maxSlots"
    using fin assms(4,5) by (intro last_take_eq_last) auto
  then show ?thesis
    using skip_ahead_slot [of ParseStandard expr, OF assms] last_sorted_list_of_set [OF fin assms(5)]
    using assms(4) by (auto simp: fin le_nat_iff)
qed

theorem skip_ahead_iff_few_missed_witness:
  "dueScheduledSlots (\<lambda>expr. Some tens) ''@x'' (Some 5) None 37 False 2 \<noteq> Some [30] \<and>
   dueScheduledSlots (\<lambda>expr. Some tens) ''@x'' (Some 5) None 37 False 3 = Some [30]"
  using skip_ahead_iff_few_missed [where ParseStandard = "\<lambda>expr. Some tens" and expr = "''@x''", OF refl activates_tens,
      of "Some 5" None _ 37]
  by (simp add: missed_tens)



end
