(* ===== verification/SchedulerStep.thy ===== *)
theory SchedulerStep
  imports Planner DueRuns
begin

text \<open>
  \<open>internal/scheduler/scheduler.go\<close>: one iteration of the scheduler, \<open>Step\<close>. It plans every active
  run with \<open>PlanRun\<close>, applies the planned transitions through the store and the dispatcher, threads
  the budgets of tasks and pools from run to run, and creates the due runs at the end.

  The store, the dispatcher and the alerter are interfaces. Their calls are logged in order, and the
  environment answers each call depending on the calls before it: with a result, with an error, or
  with a panic. Errors keep the operation that wraps them and the data of the message. The metrics
  are a second log, empty without a recorder; log lines are left out. The sending of an alert runs
  detached from the step: the step only records that it was started.
\<close>

section \<open>Calls and answers\<close>

datatype Disposition = Dispatched | Backpressure | Rejected

datatype call =
    MaterializeTasks string "TaskSpec list"
  | SetRunState string DagRunState
  | ApplyTransition string string TaskState
  | ApplyTransitions string "string list" TaskState
  | ResetForRetry string string
  | ResetForInfraReplace string string
  | RedispatchReschedule string string
  | RecordDispatchFailure string string time
  | RecordDispatchBackpressure string string time
  | FailDispatchExhausted string string int string
  | SetTaskNote string string TaskType
  | ClaimAlertAttempt string int duration
  | AcquireAlertSlot string
  | SpawnAlert string int
  | AlertRunFailed string
  | MarkRunAlertDelivered string int
  | Dispatch string string string TaskSpec

text \<open>\<open>Replies applied n\<close> carries the boolean of the guarded resets (and whether an alert slot was
  free) and the number of a claimed attempt; \<open>Fails\<close> an error and the disposition that the
  dispatcher returns with it.\<close>

datatype reply = Panics | Fails string Disposition | Replies bool int

record env =
  en_reply :: "call list \<Rightarrow> call \<Rightarrow> reply"
  en_clock :: "call list \<Rightarrow> time"

datatype metric =
    M_decision string
  | M_state_decision TaskState
  | M_transition TaskState TaskState string
  | M_undispatchable string
  | M_alert string string string

datatype step_error =
    ErrMaterializing string
  | ErrStarting string
  | ErrFinalizing string
  | ErrApplying TaskState string
  | ErrTransition string string
  | ErrResetForRetry string string
  | ErrInfraReplace string string
  | ErrReschedule string string
  | ErrTaskNotFound string string
  | ErrActiveRuns string
  | ErrPoolBudgets string
  | ErrScheduledDAGs string

record Scheduler =
  sc_recorder :: bool
  sc_dispatcher :: bool
  sc_alerter :: bool
  sc_poolsEnabled :: bool
  sc_leading :: bool
  sc_lastTick :: time
  sc_warnedSchedules :: "(string, string) gomap"

record step_log =
  sl_calls :: "call list"
  sl_metrics :: "metric list"

datatype 'a outcome = Ok 'a | Err step_error | Panic

type_synonym 'a step = "step_log \<Rightarrow> 'a outcome \<times> step_log"

definition ret :: "'a \<Rightarrow> 'a step" where
  "ret x l = (Ok x, l)"

definition fail :: "step_error \<Rightarrow> 'a step" where
  "fail e l = (Err e, l)"

definition and_then :: "'a step \<Rightarrow> ('a \<Rightarrow> 'b step) \<Rightarrow> 'b step" where
  "and_then m f l =
     (case m l of (Ok x, l') \<Rightarrow> f x l' | (Err e, l') \<Rightarrow> (Err e, l') | (Panic, l') \<Rightarrow> (Panic, l'))"

definition ask :: "env \<Rightarrow> call \<Rightarrow> reply step" where
  "ask e c l =
     (let r = en_reply e (sl_calls l) c; l' = l\<lparr>sl_calls := sl_calls l @ [c]\<rparr> in
      case r of Panics \<Rightarrow> (Panic, l') | _ \<Rightarrow> (Ok r, l'))"

text \<open>A call whose error is wrapped and returned, and one whose error is only logged.\<close>

definition must :: "env \<Rightarrow> (string \<Rightarrow> step_error) \<Rightarrow> call \<Rightarrow> (bool \<times> int) step" where
  "must e wrap c =
     and_then (ask e c)
       (\<lambda>r. case r of Replies b n \<Rightarrow> ret (b, n) | Fails m d \<Rightarrow> fail (wrap m) | Panics \<Rightarrow> ret (False, 0))"

definition attempt :: "env \<Rightarrow> call \<Rightarrow> unit step" where
  "attempt e c = and_then (ask e c) (\<lambda>r. ret ())"

definition meter :: "Scheduler \<Rightarrow> metric list \<Rightarrow> unit step" where
  "meter sc ms l = (Ok (), if sc_recorder sc then l\<lparr>sl_metrics := sl_metrics l @ ms\<rparr> else l)"

definition clock :: "env \<Rightarrow> time step" where
  "clock e l = (Ok (en_clock e (sl_calls l)), l)"

section \<open>Applying one transition\<close>

definition recordTransition :: "env \<Rightarrow> Scheduler \<Rightarrow> RunState \<Rightarrow> string \<Rightarrow> TaskState \<Rightarrow> unit step" where
  "recordTransition e sc run taskID to =
     and_then (must e (ErrTransition taskID) (ApplyTransition (rs_RunID run) taskID to))
       (\<lambda>_. meter sc [M_state_decision to, M_transition (state_of (rs_States run) taskID) to (rs_DagID run)])"

definition failUndispatchable :: "env \<Rightarrow> Scheduler \<Rightarrow> RunState \<Rightarrow> string \<Rightarrow> TaskType \<Rightarrow> unit step" where
  "failUndispatchable e sc run taskID taskType =
     and_then (meter sc [M_undispatchable ''no_executor''])
       (\<lambda>_. and_then (attempt e (SetTaskNote (rs_RunID run) taskID taskType))
         (\<lambda>_. recordTransition e sc run taskID TaskStateFailed))"

definition run_now :: "env \<Rightarrow> RunState \<Rightarrow> time step" where
  "run_now e run = (if IsZero (rs_Now run) then clock e else ret (rs_Now run))"

definition backoffBackpressure :: "env \<Rightarrow> RunState \<Rightarrow> string \<Rightarrow> unit step" where
  "backoffBackpressure e run taskID =
     and_then (run_now e run)
       (\<lambda>now. attempt e (RecordDispatchBackpressure (rs_RunID run) taskID
                (now + dispatchBackoff (mget 0 (rs_DispatchAttempts run) taskID + 1))))"

definition handleDispatchFailure :: "env \<Rightarrow> RunState \<Rightarrow> string \<Rightarrow> Disposition \<Rightarrow> string \<Rightarrow> unit step" where
  "handleDispatchFailure e run taskID disp cause =
     (if disp = Backpressure then backoffBackpressure e run taskID
      else
        (let attempts = mget 0 (rs_DispatchAttempts run) taskID + 1 in
         if attempts \<ge> dispatchMaxAttempts
         then attempt e (FailDispatchExhausted (rs_RunID run) taskID attempts cause)
         else
           and_then (run_now e run)
             (\<lambda>now. attempt e (RecordDispatchFailure (rs_RunID run) taskID (now + dispatchBackoff attempts)))))"

definition findTask :: "TaskSpec list \<Rightarrow> string \<Rightarrow> TaskSpec option" where
  "findTask tasks taskID = find (\<lambda>t. t_TaskID t = taskID) tasks"

definition launchQueued :: "env \<Rightarrow> Scheduler \<Rightarrow> RunState \<Rightarrow> PlannedTransition \<Rightarrow> unit step" where
  "launchQueued e sc run t =
     (case findTask (rs_Tasks run) (pt_TaskID t) of
        None \<Rightarrow> fail (ErrTaskNotFound (pt_TaskID t) (rs_RunID run))
      | Some task \<Rightarrow>
          (if sc_dispatcher sc then
             and_then (ask e (Dispatch (rs_RunID run) (rs_DagID run) (rs_DagVersionID run) task))
               (\<lambda>r. case r of
                  Fails cause disp \<Rightarrow> handleDispatchFailure e run (pt_TaskID t) disp cause
                | _ \<Rightarrow> recordTransition e sc run (pt_TaskID t) TaskStateQueued)
           else failUndispatchable e sc run (pt_TaskID t) (t_Type task)))"

definition guarded_reset ::
  "env \<Rightarrow> Scheduler \<Rightarrow> RunState \<Rightarrow> string \<Rightarrow> call \<Rightarrow> (string \<Rightarrow> step_error) \<Rightarrow> string \<Rightarrow> string \<Rightarrow> unit step" where
  "guarded_reset e sc run taskID c wrap noop done =
     and_then (must e wrap c)
       (\<lambda>r. if \<not> fst r then meter sc [M_decision noop]
            else meter sc [M_decision done, M_transition (state_of (rs_States run) taskID) TaskStateNone (rs_DagID run)])"

definition resetForRetry :: "env \<Rightarrow> Scheduler \<Rightarrow> RunState \<Rightarrow> string \<Rightarrow> unit step" where
  "resetForRetry e sc run taskID =
     guarded_reset e sc run taskID (ResetForRetry (rs_RunID run) taskID) (ErrResetForRetry taskID)
       ''retry_noop'' ''retry''"

definition resetForInfraReplace :: "env \<Rightarrow> Scheduler \<Rightarrow> RunState \<Rightarrow> string \<Rightarrow> unit step" where
  "resetForInfraReplace e sc run taskID =
     guarded_reset e sc run taskID (ResetForInfraReplace (rs_RunID run) taskID) (ErrInfraReplace taskID)
       ''infra_replace_noop'' ''infra_replace''"

definition redispatchReschedule :: "env \<Rightarrow> Scheduler \<Rightarrow> RunState \<Rightarrow> string \<Rightarrow> unit step" where
  "redispatchReschedule e sc run taskID =
     and_then (must e (ErrReschedule taskID) (RedispatchReschedule (rs_RunID run) taskID))
       (\<lambda>_. meter sc [M_decision ''reschedule'',
               M_transition (state_of (rs_States run) taskID) TaskStateNone (rs_DagID run)])"

text \<open>The transitions that are only written, grouped by their target in the order of first use.\<close>

record transitionBatch =
  tb_order :: "TaskState list"
  tb_byState :: "(TaskState, string list) gomap"

definition newTransitionBatch :: transitionBatch where
  "newTransitionBatch = \<lparr>tb_order = [], tb_byState = []\<rparr>"

definition batch_add :: "TaskState \<Rightarrow> string \<Rightarrow> transitionBatch \<Rightarrow> transitionBatch" where
  "batch_add to taskID b =
     (let b = (if \<not> mhas (tb_byState b) to then b\<lparr>tb_order := tb_order b @ [to]\<rparr> else b)
      in b\<lparr>tb_byState := mput to (mget [] (tb_byState b) to @ [taskID]) (tb_byState b)\<rparr>)"

fun flush_loop :: "env \<Rightarrow> Scheduler \<Rightarrow> RunState \<Rightarrow> transitionBatch \<Rightarrow> TaskState list \<Rightarrow> unit step" where
  "flush_loop e sc run b [] = ret ()"
| "flush_loop e sc run b (to # order) =
     (let taskIDs = mget [] (tb_byState b) to in
      and_then (must e (ErrApplying to) (ApplyTransitions (rs_RunID run) taskIDs to))
        (\<lambda>_. and_then (meter sc (concat (map (\<lambda>taskID.
                  [M_state_decision to, M_transition (state_of (rs_States run) taskID) to (rs_DagID run)]) taskIDs)))
          (\<lambda>_. flush_loop e sc run b order)))"

definition flushTransitions :: "env \<Rightarrow> Scheduler \<Rightarrow> RunState \<Rightarrow> transitionBatch \<Rightarrow> unit step" where
  "flushTransitions e sc run b = flush_loop e sc run b (tb_order b)"

definition applyPlanned ::
  "env \<Rightarrow> Scheduler \<Rightarrow> RunState \<Rightarrow> PlannedTransition \<Rightarrow> transitionBatch \<Rightarrow> transitionBatch step" where
  "applyPlanned e sc run t batch =
     (let from = state_of (rs_States run) (pt_TaskID t); keep = (\<lambda>m. and_then m (\<lambda>_. ret batch)) in
      case pt_To t of
        TaskStateQueued \<Rightarrow> keep (launchQueued e sc run t)
      | TaskStateNone \<Rightarrow>
          (if from = TaskStateUpForReschedule then keep (redispatchReschedule e sc run (pt_TaskID t))
           else if from = TaskStateFailed \<and> mget False (rs_InfraFailed run) (pt_TaskID t)
           then keep (resetForInfraReplace e sc run (pt_TaskID t))
           else keep (resetForRetry e sc run (pt_TaskID t)))
      | to \<Rightarrow> ret (batch_add to (pt_TaskID t) batch))"

section \<open>Alerts\<close>

definition alertMaxAttempts :: int where "alertMaxAttempts = 5"
definition alertRetryBackoff :: duration where "alertRetryBackoff = 2 * minute"
definition alertAttemptUnknown :: int where "alertAttemptUnknown = - 1"

text \<open>\<open>AcquireAlertSlot\<close> is the \<open>select\<close> on the semaphore, answered by whether a slot is free;
  \<open>SpawnAlert\<close> is the start of the goroutine, whose body is \<open>send_alert\<close>: it stamps the delivery only
  when every rule was delivered.\<close>

definition send_alert :: "env \<Rightarrow> RunState \<Rightarrow> int \<Rightarrow> unit step" where
  "send_alert e run n =
     and_then (ask e (AlertRunFailed (rs_RunID run)))
       (\<lambda>r. case r of
          Replies True _ \<Rightarrow> attempt e (MarkRunAlertDelivered (rs_RunID run) n)
        | _ \<Rightarrow> ret ())"

definition maybeAlertFailure :: "env \<Rightarrow> Scheduler \<Rightarrow> DagRunState \<Rightarrow> RunState \<Rightarrow> unit step" where
  "maybeAlertFailure e sc state run =
     (if state \<noteq> DagRunStateFailed \<or> \<not> sc_alerter sc then ret ()
      else
        (case rs_Alerts run of
           None \<Rightarrow> ret ()
         | Some alerts \<Rightarrow>
             (if ac_OnFailure alerts = [] then ret ()
              else
                and_then (ask e (ClaimAlertAttempt (rs_RunID run) alertMaxAttempts alertRetryBackoff))
                  (\<lambda>r. let n = (case r of Replies _ n \<Rightarrow> n | _ \<Rightarrow> alertAttemptUnknown) in
                     if n = 0 then ret ()
                     else
                       and_then (ask e (AcquireAlertSlot (rs_RunID run)))
                         (\<lambda>r. case r of
                            Replies True _ \<Rightarrow> attempt e (SpawnAlert (rs_RunID run) n)
                          | _ \<Rightarrow> meter sc (map (\<lambda>rule. M_alert (rs_DagID run) (al_Type rule) ''dropped'')
                                        (ac_OnFailure alerts)))))))"

section \<open>Advancing one run\<close>

definition taskPools :: "RunState \<Rightarrow> (string, string) gomap option" where
  "taskPools run =
     (if \<not> rs_PoolsEnabled run then None
      else Some (fold (\<lambda>t. mput (t_TaskID t) (PoolKey (rs_TenantID run) (resolvePool (t_Pool t)))) (rs_Tasks run) []))"

text \<open>What \<open>advance\<close> returns beside its error: the number of promoted tasks and the breakdown by
  pool.\<close>

type_synonym admitted = "int \<times> (string, int) gomap"

definition admit :: "(string, string) gomap option \<Rightarrow> PlannedTransition \<Rightarrow> admitted \<Rightarrow> admitted" where
  "admit poolOf t a =
     (if pt_To t = TaskStateQueued
      then (fst a + 1, case poolOf of None \<Rightarrow> snd a | Some m \<Rightarrow> madd (mget '''' m (pt_TaskID t)) 1 (snd a))
      else a)"

text \<open>The loop over the planned transitions: it stops at the first error, which it returns with
  what was admitted up to there.\<close>

fun apply_loop ::
  "env \<Rightarrow> Scheduler \<Rightarrow> RunState \<Rightarrow> (string, string) gomap option \<Rightarrow> PlannedTransition list \<Rightarrow> admitted \<Rightarrow>
     transitionBatch \<Rightarrow> (admitted \<times> (step_error + transitionBatch)) step" where
  "apply_loop e sc run poolOf [] a batch l = (Ok (a, Inr batch), l)"
| "apply_loop e sc run poolOf (t # ts) a batch l =
     (let a' = admit poolOf t a in
      case applyPlanned e sc run t batch l of
        (Ok batch', l') \<Rightarrow> apply_loop e sc run poolOf ts a' batch' l'
      | (Err er, l') \<Rightarrow> (Ok (a', Inl er), l')
      | (Panic, l') \<Rightarrow> (Panic, l'))"

definition finish_run :: "env \<Rightarrow> Scheduler \<Rightarrow> RunState \<Rightarrow> unit step" where
  "finish_run e sc run =
     (case FinalizeRun run of
        None \<Rightarrow> ret ()
      | Some state \<Rightarrow>
          and_then (must e ErrFinalizing (SetRunState (rs_RunID run) state))
            (\<lambda>_. maybeAlertFailure e sc state run))"

definition start_run :: "env \<Rightarrow> RunState \<Rightarrow> unit step" where
  "start_run e run =
     and_then (must e ErrMaterializing (MaterializeTasks (rs_RunID run) (rs_Tasks run)))
       (\<lambda>_. and_then (must e ErrStarting (SetRunState (rs_RunID run) DagRunStateRunning)) (\<lambda>_. ret ()))"

text \<open>An outcome with the error of \<open>m\<close> as a value.\<close>

definition with_error :: "admitted \<Rightarrow> unit step \<Rightarrow> (admitted \<times> step_error option) step" where
  "with_error a m l =
     (case m l of (Ok u, l') \<Rightarrow> (Ok (a, None), l') | (Err er, l') \<Rightarrow> (Ok (a, Some er), l') | (Panic, l') \<Rightarrow> (Panic, l'))"

definition advance_run :: "env \<Rightarrow> Scheduler \<Rightarrow> RunState \<Rightarrow> (admitted \<times> step_error option) step" where
  "advance_run e sc run =
     (if rs_State run = DagRunStateQueued \<and> rs_States run = [] then with_error (0, []) (start_run e run)
      else
        and_then (apply_loop e sc run (taskPools run) (PlanRun run) (0, []) newTransitionBatch)
          (\<lambda>(a, r). case r of
             Inl er \<Rightarrow> ret (a, Some er)
           | Inr batch \<Rightarrow>
               with_error a (and_then (flushTransitions e sc run batch) (\<lambda>_. finish_run e sc run))))"

definition advanceSafely :: "env \<Rightarrow> Scheduler \<Rightarrow> RunState \<Rightarrow> step_log \<Rightarrow> admitted \<times> step_log" where
  "advanceSafely e sc run l =
     (case advance_run e sc run l of
        (Ok (a, None), l') \<Rightarrow> (a, l')
      | (Ok (a, Some er), l') \<Rightarrow> ((0, []), snd (meter sc [M_decision ''run_error''] l'))
      | (Err er, l') \<Rightarrow> ((0, []), snd (meter sc [M_decision ''run_error''] l'))
      | (Panic, l') \<Rightarrow> ((0, []), snd (meter sc [M_decision ''panic''] l')))"

section \<open>One iteration\<close>

definition occupies_slot :: "TaskState \<Rightarrow> bool" where
  "occupies_slot st = (st = TaskStateQueued \<or> st = TaskStateRunning)"

definition activeTaskCounts :: "RunState list \<Rightarrow> (string, int) gomap" where
  "activeTaskCounts runs =
     fold (\<lambda>run counts. fold (\<lambda>p counts. if occupies_slot (snd p) then madd (rs_DagID run) 1 counts else counts)
             (rs_States run) counts) runs []"

definition activePoolCounts :: "RunState list \<Rightarrow> (string, int) gomap" where
  "activePoolCounts runs =
     fold (\<lambda>run counts. fold (\<lambda>t counts.
               if occupies_slot (state_of (rs_States run) (t_TaskID t))
               then madd (PoolKey (rs_TenantID run) (resolvePool (t_Pool t))) 1 counts else counts)
             (rs_Tasks run) counts) runs []"

definition loadPoolBudget ::
  "Scheduler \<Rightarrow> string + (string, int) gomap \<Rightarrow> RunState list \<Rightarrow> step_error + (string, int) gomap \<times> (string, int) gomap" where
  "loadPoolBudget sc budgets runs =
     (if \<not> sc_poolsEnabled sc then Inr ([], [])
      else (case budgets of Inl m \<Rightarrow> Inl (ErrPoolBudgets m) | Inr b \<Rightarrow> Inr (b, activePoolCounts runs)))"

text \<open>The variables of the loop over the runs.\<close>

record tick =
  ti_activeByDAG :: "(string, int) gomap"
  ti_admittedByDAG :: "(string, int) gomap"
  ti_poolOccupied :: "(string, int) gomap"
  ti_log :: step_log

definition prepare_run ::
  "Scheduler \<Rightarrow> (string, int) gomap \<Rightarrow> (string, int) gomap \<Rightarrow> tick \<Rightarrow> RunState \<Rightarrow> RunState" where
  "prepare_run sc activeTasks budgets ti run =
     run\<lparr>rs_ActiveTaskCount := mget 0 activeTasks (rs_DagID run) + mget 0 (ti_admittedByDAG ti) (rs_DagID run),
         rs_PoolsEnabled := sc_poolsEnabled sc, rs_PoolBudgets := budgets, rs_PoolActive := ti_poolOccupied ti\<rparr>"

definition step_run ::
  "env \<Rightarrow> Scheduler \<Rightarrow> (string, int) gomap \<Rightarrow> (string, int) gomap \<Rightarrow> RunState \<Rightarrow> tick \<Rightarrow> tick" where
  "step_run e sc activeTasks budgets run ti =
     (let (a, l) = advanceSafely e sc (prepare_run sc activeTasks budgets ti run) (ti_log ti) in
      \<lparr>ti_activeByDAG = madd (rs_DagID run) 1 (ti_activeByDAG ti),
       ti_admittedByDAG = madd (rs_DagID run) (fst a) (ti_admittedByDAG ti),
       ti_poolOccupied = fold (\<lambda>(k, n). madd k n) (snd a) (ti_poolOccupied ti),
       ti_log = l\<rparr>)"

definition step_runs ::
  "env \<Rightarrow> Scheduler \<Rightarrow> (string, int) gomap \<Rightarrow> RunState list \<Rightarrow> (string, int) gomap \<Rightarrow> tick" where
  "step_runs e sc budgets runs occupied =
     fold (step_run e sc (activeTaskCounts runs) budgets) runs
       \<lparr>ti_activeByDAG = [], ti_admittedByDAG = [], ti_poolOccupied = occupied,
        ti_log = \<lparr>sl_calls = [], sl_metrics = []\<rparr>\<rparr>"

text \<open>The queries of one iteration, and the effects of it: the calls of the runs, then those of
  \<open>createDueRuns\<close>. \<open>None\<close> is an iteration that does not end.\<close>

record queries =
  qu_ActiveRuns :: "string + RunState list"
  qu_PoolBudgets :: "string + (string, int) gomap"
  qu_ScheduledDAGs :: "string + ScheduledDAG list"
  qu_ParseStandard :: "string \<Rightarrow> schedule option"
  qu_CreateScheduledRun :: create_store
  qu_now :: time

record step_result =
  sr_error :: "step_error option"
  sr_log :: step_log
  sr_due :: "due_state option"

definition Step :: "env \<Rightarrow> queries \<Rightarrow> Scheduler \<Rightarrow> (step_result \<times> Scheduler) option" where
  "Step e q sc =
     (let sc = sc\<lparr>sc_lastTick := qu_now q\<rparr>; l0 = \<lparr>sl_calls = [], sl_metrics = []\<rparr> in
      if \<not> sc_leading sc then Some (\<lparr>sr_error = None, sr_log = l0, sr_due = None\<rparr>, sc)
      else
        (case qu_ActiveRuns q of
           Inl m \<Rightarrow> Some (\<lparr>sr_error = Some (ErrActiveRuns m), sr_log = l0, sr_due = None\<rparr>, sc)
         | Inr runs \<Rightarrow>
             (case loadPoolBudget sc (qu_PoolBudgets q) runs of
                Inl er \<Rightarrow> Some (\<lparr>sr_error = Some er, sr_log = l0, sr_due = None\<rparr>, sc)
              | Inr (budgets, occupied) \<Rightarrow>
                  (let ti = step_runs e sc budgets runs occupied in
                   case createDueRuns (qu_ParseStandard q) (qu_CreateScheduledRun q) (qu_ScheduledDAGs q)
                          (sc_warnedSchedules sc) (ti_activeByDAG ti) (qu_now q) of
                     None \<Rightarrow> None
                   | Some (Inl m) \<Rightarrow>
                       Some (\<lparr>sr_error = Some (ErrScheduledDAGs m), sr_log = ti_log ti, sr_due = None\<rparr>, sc)
                   | Some (Inr due) \<Rightarrow>
                       Some (\<lparr>sr_error = None, sr_log = ti_log ti, sr_due = Some due\<rparr>,
                             sc\<lparr>sc_warnedSchedules := du_warned due\<rparr>)))))"

section \<open>Counting dispatches\<close>

definition dispatch_of :: "string \<Rightarrow> call \<Rightarrow> bool" where
  "dispatch_of d c = (case c of Dispatch _ dag _ _ \<Rightarrow> dag = d | _ \<Rightarrow> False)"

definition dispatches :: "string \<Rightarrow> step_log \<Rightarrow> int" where
  "dispatches d l = count_if (dispatch_of d) (sl_calls l)"

lemma dispatch_of_simps [simp]:
  "dispatch_of d (Dispatch r dag v t) \<longleftrightarrow> dag = d"
  "\<not> dispatch_of d (MaterializeTasks r ts)" "\<not> dispatch_of d (SetRunState r st)"
  "\<not> dispatch_of d (ApplyTransition r i to)" "\<not> dispatch_of d (ApplyTransitions r is to)"
  "\<not> dispatch_of d (ResetForRetry r i)" "\<not> dispatch_of d (ResetForInfraReplace r i)"
  "\<not> dispatch_of d (RedispatchReschedule r i)" "\<not> dispatch_of d (RecordDispatchFailure r i n)"
  "\<not> dispatch_of d (RecordDispatchBackpressure r i n)" "\<not> dispatch_of d (FailDispatchExhausted r i k m)"
  "\<not> dispatch_of d (SetTaskNote r i ty)" "\<not> dispatch_of d (ClaimAlertAttempt r k w)"
  "\<not> dispatch_of d (AcquireAlertSlot r)" "\<not> dispatch_of d (SpawnAlert r k)"
  by (simp_all add: dispatch_of_def)

text \<open>\<open>adds d n m\<close>: the step \<open>m\<close> dispatches at most \<open>n\<close> tasks of the DAG \<open>d\<close>.\<close>

definition adds :: "string \<Rightarrow> int \<Rightarrow> 'a step \<Rightarrow> bool" where
  "adds d n m \<longleftrightarrow> 0 \<le> n \<and> (\<forall>l. dispatches d (snd (m l)) \<le> dispatches d l + n)"

named_theorems adds_intros \<open>bounds on the dispatches of a step\<close>

lemma adds_ret [adds_intros]: "adds d 0 (ret x)"
  by (simp add: adds_def ret_def)

lemma adds_fail [adds_intros]: "adds d 0 (fail er)"
  by (simp add: adds_def fail_def)

lemma adds_meter [adds_intros]: "adds d 0 (meter sc ms)"
  by (simp add: adds_def meter_def dispatches_def)

lemma adds_run_now [adds_intros]: "adds d 0 (run_now e run)"
  by (simp add: adds_def run_now_def clock_def ret_def)

lemma adds_ask: "adds d (if dispatch_of d c then 1 else 0) (ask e c)"
  by (simp add: adds_def ask_def dispatches_def Let_def split: reply.split)

lemma adds_ask_0: "\<not> dispatch_of d c \<Longrightarrow> adds d 0 (ask e c)"
  using adds_ask [of d c e] by simp

lemma adds_and_then:
  assumes "adds d m f" and "\<And>x. adds d n (g x)"
  shows "adds d (m + n) (and_then f g)"
proof -
  have n: "0 \<le> n" using assms(2) by (simp add: adds_def)
  have "dispatches d (snd (and_then f g l)) \<le> dispatches d l + (m + n)" for l
  proof (cases "f l")
    case (Pair r l1)
    have f: "dispatches d l1 \<le> dispatches d l + m" using assms(1) Pair by (metis adds_def snd_conv)
    show ?thesis
    proof (cases r)
      case (Ok x)
      have "dispatches d (snd (g x l1)) \<le> dispatches d l1 + n" using assms(2) by (simp add: adds_def)
      with f show ?thesis using Pair Ok by (simp add: and_then_def)
    qed (use f Pair n in \<open>simp_all add: and_then_def\<close>)
  qed
  then show ?thesis using assms by (simp add: adds_def)
qed

lemma adds_mono: "adds d m f \<Longrightarrow> m \<le> n \<Longrightarrow> adds d n f"
  unfolding adds_def by (meson add_left_mono order_trans)

lemma adds_and_then_0 [adds_intros]:
  "adds d 0 f \<Longrightarrow> (\<And>x. adds d 0 (g x)) \<Longrightarrow> adds d 0 (and_then f g)"
  using adds_and_then [of d 0 f 0 g] by simp

lemma adds_must [adds_intros]: "\<not> dispatch_of d c \<Longrightarrow> adds d 0 (must e wrap c)"
  unfolding must_def by (auto intro!: adds_and_then_0 adds_ask_0 adds_ret adds_fail split: reply.split)

lemma adds_attempt [adds_intros]: "\<not> dispatch_of d c \<Longrightarrow> adds d 0 (attempt e c)"
  unfolding attempt_def by (intro adds_and_then_0 adds_ask_0 adds_ret)

lemma adds_recordTransition [adds_intros]: "adds d 0 (recordTransition e sc run i to)"
  unfolding recordTransition_def by (intro adds_intros) simp

lemma adds_failUndispatchable [adds_intros]: "adds d 0 (failUndispatchable e sc run i ty)"
  unfolding failUndispatchable_def by (intro adds_intros) simp

lemma adds_handleDispatchFailure [adds_intros]: "adds d 0 (handleDispatchFailure e run i disp cause)"
  unfolding handleDispatchFailure_def backoffBackpressure_def Let_def by (auto intro!: adds_intros)

lemma adds_guarded_reset [adds_intros]: "\<not> dispatch_of d c \<Longrightarrow> adds d 0 (guarded_reset e sc run i c wrap noop done)"
  unfolding guarded_reset_def by (auto intro!: adds_intros)

lemma adds_launchQueued: "adds d (if rs_DagID run = d then 1 else 0) (launchQueued e sc run t)"
proof -
  let ?n = "if rs_DagID run = d then 1 else 0 :: int"
  have zero: "adds d 0 m \<Longrightarrow> adds d ?n m" for m :: "unit step"
    by (erule adds_mono) simp
  have "adds d (?n + 0) (and_then (ask e (Dispatch (rs_RunID run) (rs_DagID run) (rs_DagVersionID run) task))
      (\<lambda>r. case r of Fails cause disp \<Rightarrow> handleDispatchFailure e run (pt_TaskID t) disp cause
         | _ \<Rightarrow> recordTransition e sc run (pt_TaskID t) TaskStateQueued))" for task
    using adds_ask [of d "Dispatch (rs_RunID run) (rs_DagID run) (rs_DagVersionID run) task" e]
    by (intro adds_and_then) (auto intro!: adds_intros split: reply.split)
  then show ?thesis
    using zero [OF adds_fail] zero [OF adds_failUndispatchable]
    by (cases "findTask (rs_Tasks run) (pt_TaskID t)"; cases "rs_DagID run = d") (auto simp: launchQueued_def)
qed

lemma adds_applyPlanned:
  "adds d (if is_queued t \<and> rs_DagID run = d then 1 else 0) (applyPlanned e sc run t batch)"
proof (cases "is_queued t")
  case True
  have "adds d ((if rs_DagID run = d then 1 else 0) + 0) (and_then (launchQueued e sc run t) (\<lambda>_. ret batch))"
    by (intro adds_and_then adds_launchQueued adds_ret)
  then show ?thesis using True by (simp add: applyPlanned_def is_queued_def)
next
  case False
  have "adds d 0 (resetForRetry e sc run i)" "adds d 0 (resetForInfraReplace e sc run i)"
    "adds d 0 (redispatchReschedule e sc run i)" for i
    unfolding resetForRetry_def resetForInfraReplace_def redispatchReschedule_def
    by (intro adds_intros; simp)+
  then have "adds d 0 (applyPlanned e sc run t batch)"
    using False unfolding applyPlanned_def Let_def is_queued_def
    by (auto intro!: adds_and_then_0 adds_ret split: TaskState.split)
  then show ?thesis using False by simp
qed

lemma apply_loop_dispatches:
  "dispatches d (snd (apply_loop e sc run poolOf ts a batch l)) \<le>
     dispatches d l + (if rs_DagID run = d then count_if is_queued ts else 0)"
proof (induction ts arbitrary: a batch l)
  case (Cons t ts)
  obtain r l1 where p: "applyPlanned e sc run t batch l = (r, l1)" by fastforce
  have one: "dispatches d l1 \<le> dispatches d l + (if is_queued t \<and> rs_DagID run = d then 1 else 0)"
    using adds_applyPlanned [of d t run e sc batch] p by (metis adds_def snd_conv)
  have "0 \<le> count_if is_queued ts" by simp
  show ?case
  proof (cases r)
    case (Ok batch')
    have "dispatches d (snd (apply_loop e sc run poolOf ts (admit poolOf t a) batch' l1)) \<le>
        dispatches d l1 + (if rs_DagID run = d then count_if is_queued ts else 0)" by (rule Cons.IH)
    with one show ?thesis using p Ok by (simp add: Let_def split: if_splits)
  next
    case (Err er)
    with one p \<open>0 \<le> count_if is_queued ts\<close> show ?thesis by (auto simp: Let_def simp del: count_if_nonneg split: if_splits)
  next
    case Panic
    with one p \<open>0 \<le> count_if is_queued ts\<close> show ?thesis by (auto simp: Let_def simp del: count_if_nonneg split: if_splits)
  qed
qed simp

lemma apply_loop_admitted:
  "apply_loop e sc run poolOf ts a batch l = (Ok (a', Inr batch'), l') \<Longrightarrow> fst a' = fst a + count_if is_queued ts"
  by (induction ts arbitrary: a batch l)
    (auto simp: admit_def is_queued_def Let_def split: prod.splits outcome.splits)

lemma adds_flush [adds_intros]: "adds d 0 (flush_loop e sc run b order)"
  by (induction order) (auto simp: Let_def intro!: adds_intros)

lemma adds_finish [adds_intros]: "adds d 0 (finish_run e sc run)"
proof -
  have "adds d 0 (maybeAlertFailure e sc state run)" for state
    unfolding maybeAlertFailure_def Let_def
    by (auto intro!: adds_intros adds_ask_0 split: option.split reply.split bool.split)
  then show ?thesis unfolding finish_run_def by (auto intro!: adds_intros split: option.split)
qed

lemma adds_with_error: "adds d n m \<Longrightarrow> adds d n (with_error a m)"
  by (auto simp: adds_def with_error_def split: prod.splits outcome.splits) (metis snd_conv)+

lemma advance_run_dispatches:
  "dispatches d (snd (advance_run e sc run l)) \<le> dispatches d l + (if rs_DagID run = d then count_if is_queued (PlanRun run) else 0)"
proof (cases "rs_State run = DagRunStateQueued \<and> rs_States run = []")
  case True
  have "adds d 0 (start_run e run)" unfolding start_run_def by (intro adds_intros; simp)
  from adds_with_error [OF this, of "(0, [])"] True show ?thesis
    by (simp add: advance_run_def adds_def) (metis add_increasing2 count_if_nonneg order_refl order_trans)
next
  case False
  obtain r l1 where p: "apply_loop e sc run (taskPools run) (PlanRun run) (0, []) newTransitionBatch l = (r, l1)" by fastforce
  have b: "dispatches d l1 \<le> dispatches d l + (if rs_DagID run = d then count_if is_queued (PlanRun run) else 0)"
    using apply_loop_dispatches [of d e sc run "taskPools run" "PlanRun run" "(0, [])" newTransitionBatch l] p by simp
  have "adds d 0 (with_error a (and_then (flushTransitions e sc run batch) (\<lambda>_. finish_run e sc run)))" for a batch
    unfolding flushTransitions_def by (intro adds_with_error adds_intros)
  then have "dispatches d (snd (with_error a (and_then (flushTransitions e sc run batch) (\<lambda>_. finish_run e sc run)) l1))
      \<le> dispatches d l1" for a batch by (simp add: adds_def)
  then have "dispatches d (snd (advance_run e sc run l)) \<le> dispatches d l1"
    unfolding advance_run_def if_not_P [OF False]
    using p by (simp add: and_then_def ret_def split: outcome.split sum.split prod.split)
  with b show ?thesis by simp
qed

section \<open>Runs that do not fail\<close>

text \<open>The calls whose error the code does not return.\<close>

definition tolerated :: "call \<Rightarrow> bool" where
  "tolerated c =
     (case c of
        Dispatch _ _ _ _ \<Rightarrow> True | RecordDispatchFailure _ _ _ \<Rightarrow> True | RecordDispatchBackpressure _ _ _ \<Rightarrow> True
      | FailDispatchExhausted _ _ _ _ \<Rightarrow> True | SetTaskNote _ _ _ \<Rightarrow> True | ClaimAlertAttempt _ _ _ \<Rightarrow> True
      | AcquireAlertSlot _ \<Rightarrow> True | SpawnAlert _ _ \<Rightarrow> True | _ \<Rightarrow> False)"

definition reliable :: "env \<Rightarrow> bool" where
  "reliable e \<longleftrightarrow>
     (\<forall>cs c. case en_reply e cs c of Panics \<Rightarrow> False | Fails m d \<Rightarrow> tolerated c | Replies b n \<Rightarrow> True)"

definition succeeds :: "'a step \<Rightarrow> bool" where
  "succeeds m \<longleftrightarrow> (\<forall>l. \<exists>x l'. m l = (Ok x, l'))"

named_theorems succeeds_intros \<open>steps that do not fail\<close>

lemma succeeds_basic [succeeds_intros]: "succeeds (ret x)" "succeeds (meter sc ms)" "succeeds (run_now e run)"
  by (simp_all add: succeeds_def ret_def meter_def run_now_def clock_def)

lemma succeeds_and_then [succeeds_intros]:
  assumes "succeeds f" and "\<And>x. succeeds (g x)"
  shows "succeeds (and_then f g)"
  unfolding succeeds_def
proof
  fix l :: step_log
  obtain x l1 where f: "f l = (Ok x, l1)" using assms(1) unfolding succeeds_def by blast
  obtain y l2 where "g x l1 = (Ok y, l2)" using assms(2) unfolding succeeds_def by blast
  with f show "\<exists>x l'. and_then f g l = (Ok x, l')" by (simp add: and_then_def)
qed

lemma reliable_replies:
  assumes "reliable e"
  shows "en_reply e cs c \<noteq> Panics" and "\<not> tolerated c \<Longrightarrow> \<exists>b n. en_reply e cs c = Replies b n"
proof -
  from assms have "case en_reply e cs c of Panics \<Rightarrow> False | Fails m d \<Rightarrow> tolerated c | Replies b n \<Rightarrow> True"
    unfolding reliable_def by blast
  then show "en_reply e cs c \<noteq> Panics" "\<not> tolerated c \<Longrightarrow> \<exists>b n. en_reply e cs c = Replies b n"
    by (cases "en_reply e cs c"; simp)+
qed

lemma succeeds_ask [succeeds_intros]: "reliable e \<Longrightarrow> succeeds (ask e c)"
  using reliable_replies(1) [of e] by (simp add: succeeds_def ask_def Let_def split: reply.split)

lemma succeeds_must [succeeds_intros]:
  assumes "reliable e" and "\<not> tolerated c"
  shows "succeeds (must e wrap c)"
  unfolding succeeds_def
proof
  fix l :: step_log
  obtain b n where "en_reply e (sl_calls l) c = Replies b n" using reliable_replies(2) [OF assms] by blast
  then show "\<exists>x l'. must e wrap c l = (Ok x, l')" by (simp add: must_def and_then_def ask_def ret_def Let_def)
qed

lemma succeeds_attempt [succeeds_intros]: "reliable e \<Longrightarrow> succeeds (attempt e c)"
  unfolding attempt_def by (intro succeeds_intros)

lemma tolerated_simps [simp]:
  "\<not> tolerated (MaterializeTasks r ts)" "\<not> tolerated (SetRunState r st)" "\<not> tolerated (ApplyTransition r i to)"
  "\<not> tolerated (ApplyTransitions r is to)" "\<not> tolerated (ResetForRetry r i)"
  "\<not> tolerated (ResetForInfraReplace r i)" "\<not> tolerated (RedispatchReschedule r i)"
  by (simp_all add: tolerated_def)

lemma succeeds_transitions [succeeds_intros]:
  assumes "reliable e"
  shows "succeeds (recordTransition e sc run i to)" and "succeeds (failUndispatchable e sc run i ty)"
    and "succeeds (handleDispatchFailure e run i disp cause)"
    and "succeeds (resetForRetry e sc run i)" and "succeeds (resetForInfraReplace e sc run i)"
    and "succeeds (redispatchReschedule e sc run i)"
  unfolding recordTransition_def failUndispatchable_def handleDispatchFailure_def backoffBackpressure_def
    resetForRetry_def resetForInfraReplace_def redispatchReschedule_def guarded_reset_def Let_def
  using assms by (auto intro!: succeeds_intros)

lemma succeeds_launchQueued:
  assumes "reliable e" and "findTask (rs_Tasks run) (pt_TaskID t) \<noteq> None"
  shows "succeeds (launchQueued e sc run t)"
  using assms unfolding launchQueued_def
  by (auto intro!: succeeds_intros split: reply.split)

lemma succeeds_applyPlanned:
  assumes "reliable e" and "pt_TaskID t \<in> t_TaskID ` set (rs_Tasks run)"
  shows "succeeds (applyPlanned e sc run t batch)"
proof -
  have "findTask (rs_Tasks run) (pt_TaskID t) \<noteq> None"
    using assms(2) by (auto simp: findTask_def find_None_iff)
  then show ?thesis
    using assms(1) unfolding applyPlanned_def Let_def
    by (auto intro!: succeeds_intros succeeds_launchQueued split: TaskState.split)
qed

lemma apply_loop_succeeds:
  assumes "reliable e" and "\<forall>t\<in>set ts. pt_TaskID t \<in> t_TaskID ` set (rs_Tasks run)"
  shows "\<exists>a' batch' l'. apply_loop e sc run poolOf ts a batch l = (Ok (a', Inr batch'), l')"
  using assms(2)
proof (induction ts arbitrary: a batch l)
  case (Cons t ts)
  then obtain b l1 where "applyPlanned e sc run t batch l = (Ok b, l1)"
    using succeeds_applyPlanned [OF assms(1)] unfolding succeeds_def by (metis list.set_intros(1))
  with Cons show ?case by (simp add: Let_def)
qed simp

lemma succeeds_flush [succeeds_intros]: "reliable e \<Longrightarrow> succeeds (flush_loop e sc run b order)"
  by (induction order) (auto simp: Let_def intro!: succeeds_intros)

lemma succeeds_finish [succeeds_intros]: "reliable e \<Longrightarrow> succeeds (finish_run e sc run)"
proof -
  assume e: "reliable e"
  then have "succeeds (maybeAlertFailure e sc state run)" for state
    unfolding maybeAlertFailure_def Let_def
    by (auto intro!: succeeds_intros split: option.split reply.split bool.split)
  then show ?thesis unfolding finish_run_def using e by (auto intro!: succeeds_intros split: option.split)
qed

lemma with_error_succeeds: "succeeds m \<Longrightarrow> \<exists>l'. with_error a m l = (Ok (a, None), l')"
  unfolding succeeds_def with_error_def by (metis (no_types, lifting) case_prod_conv outcome.case(1))

lemma planned_ids: "p \<in> set (PlanRun run) \<Longrightarrow> pt_TaskID p \<in> t_TaskID ` set (rs_Tasks run)"
proof -
  assume "p \<in> set (PlanRun run)"
  moreover have "set (map pt_TaskID (PlanRun run)) \<subseteq> set (map t_TaskID (rs_Tasks run))"
    using subseq_subset [OF rail_subseq [of run "rs_Tasks run"]] subseq_subset [OF plan_loop_subseq]
    by (auto simp: PlanRun_split plan_tail_def Let_def)
  ultimately show ?thesis by auto
qed

lemma advance_run_succeeds:
  assumes "reliable e"
  shows "\<exists>a l'. advance_run e sc run l = (Ok (a, None), l') \<and>
     dispatches d l' - dispatches d l \<le> (if rs_DagID run = d then fst a else 0) \<and>
     fst a \<le> count_if is_queued (PlanRun run) \<and> 0 \<le> fst a"
proof (cases "rs_State run = DagRunStateQueued \<and> rs_States run = []")
  case True
  have s: "succeeds (start_run e run)" unfolding start_run_def using assms by (auto intro!: succeeds_intros)
  have a: "adds d 0 (start_run e run)" unfolding start_run_def by (intro adds_intros; simp)
  obtain l' where "with_error (0, []) (start_run e run) l = (Ok ((0, []), None), l')"
    using with_error_succeeds [OF s] by blast
  moreover from this have "dispatches d l' \<le> dispatches d l"
    using adds_with_error [OF a, of "(0, [])"] by (metis adds_def add_0_right snd_conv)
  ultimately show ?thesis using True by (simp add: advance_run_def)
next
  case False
  obtain a batch l1 where p: "apply_loop e sc run (taskPools run) (PlanRun run) (0, []) newTransitionBatch l = (Ok (a, Inr batch), l1)"
    using apply_loop_succeeds [OF assms] planned_ids by metis
  let ?m = "and_then (flushTransitions e sc run batch) (\<lambda>_. finish_run e sc run)"
  have s: "succeeds ?m" unfolding flushTransitions_def using assms by (intro succeeds_intros)
  obtain l' where m: "with_error a ?m l1 = (Ok (a, None), l')" using with_error_succeeds [OF s] by blast
  have r: "advance_run e sc run l = (Ok (a, None), l')"
    unfolding advance_run_def if_not_P [OF False] using p m by (simp add: and_then_def)
  have "fst a = count_if is_queued (PlanRun run)" using apply_loop_admitted [OF p] by simp
  then show ?thesis
    using advance_run_dispatches [of d e sc run l] r by auto
qed

section \<open>The budget of tasks across runs\<close>

definition active_tasks :: "string \<Rightarrow> RunState list \<Rightarrow> int" where
  "active_tasks d runs =
     sum_list (map (\<lambda>run. if rs_DagID run = d then count_if (\<lambda>p. occupies_slot (snd p)) (rs_States run) else 0) runs)"

lemma fold_madd_if:
  "mget 0 (fold (\<lambda>x counts. if P x then madd k 1 counts else counts) xs m) k' =
     mget 0 m k' + (if k' = k then count_if P xs else 0)"
  by (induction xs arbitrary: m) auto

lemma activeTaskCounts_get: "mget 0 (activeTaskCounts runs) d = active_tasks d runs"
proof -
  have "mget 0 (fold (\<lambda>run counts. fold (\<lambda>p counts. if occupies_slot (snd p) then madd (rs_DagID run) 1 counts else counts)
      (rs_States run) counts) runs m) d = mget 0 m d + active_tasks d runs" for m
    by (induction runs arbitrary: m) (simp_all add: active_tasks_def fold_madd_if)
  then show ?thesis by (simp add: activeTaskCounts_def)
qed

definition budget_inv :: "(string, int) gomap \<Rightarrow> string \<Rightarrow> int \<Rightarrow> tick \<Rightarrow> bool" where
  "budget_inv active d M ti \<longleftrightarrow>
     dispatches d (ti_log ti) \<le> mget 0 (ti_admittedByDAG ti) d \<and>
     mget 0 active d + mget 0 (ti_admittedByDAG ti) d \<le> max M (mget 0 active d)"

lemma budget_step:
  assumes e: "reliable e" and inv: "budget_inv active d M ti"
    and cap: "rs_DagID run = d \<longrightarrow> 0 < rs_MaxActiveTasks run \<and> rs_MaxActiveTasks run \<le> M"
  shows "budget_inv active d M (step_run e sc active budgets run ti)"
proof -
  let ?run = "prepare_run sc active budgets ti run"
  obtain a l' where r: "advance_run e sc ?run (ti_log ti) = (Ok (a, None), l')"
    and n: "dispatches d l' - dispatches d (ti_log ti) \<le> (if rs_DagID run = d then fst a else 0)"
      "fst a \<le> count_if is_queued (PlanRun ?run)" "0 \<le> fst a"
    using advance_run_succeeds [OF e, of sc ?run "ti_log ti" d] by (auto simp: prepare_run_def)
  have adv: "advanceSafely e sc ?run (ti_log ti) = (a, l')" using r by (simp add: advanceSafely_def)
  have step: "ti_log (step_run e sc active budgets run ti) = l'"
    "mget 0 (ti_admittedByDAG (step_run e sc active budgets run ti)) d =
       mget 0 (ti_admittedByDAG ti) d + (if rs_DagID run = d then fst a else 0)"
    by (auto simp: step_run_def adv)
  have "mget 0 active d + mget 0 (ti_admittedByDAG ti) d + fst a \<le> max M (mget 0 active d)" if "rs_DagID run = d"
  proof -
    have "rs_ActiveTaskCount ?run + count_if is_queued (PlanRun ?run) \<le> max (rs_MaxActiveTasks ?run) (rs_ActiveTaskCount ?run)"
      using cap that by (intro queued_within_cap) (simp add: prepare_run_def)
    moreover have "rs_ActiveTaskCount ?run = mget 0 active d + mget 0 (ti_admittedByDAG ti) d"
      "rs_MaxActiveTasks ?run \<le> M"
      using cap that by (simp_all add: prepare_run_def)
    moreover have "mget 0 active d + mget 0 (ti_admittedByDAG ti) d \<le> max M (mget 0 active d)"
      using inv by (simp add: budget_inv_def)
    ultimately show ?thesis using n(2) by linarith
  qed
  with inv n(1) show ?thesis by (auto simp: budget_inv_def step)
qed

lemma budget_fold:
  assumes "reliable e"
    and "\<forall>run\<in>set runs. rs_DagID run = d \<longrightarrow> 0 < rs_MaxActiveTasks run \<and> rs_MaxActiveTasks run \<le> M"
    and "budget_inv active d M ti"
  shows "budget_inv active d M (fold (step_run e sc active budgets) runs ti)"
  using assms(2,3)
proof (induction runs arbitrary: ti)
  case (Cons run runs)
  then have "budget_inv active d M (step_run e sc active budgets run ti)"
    by (intro budget_step [OF assms(1)]) simp_all
  with Cons show ?case by simp
qed simp

lemma step_runs_within_cap:
  assumes "reliable e"
    and "\<forall>run\<in>set runs. rs_DagID run = d \<longrightarrow> 0 < rs_MaxActiveTasks run \<and> rs_MaxActiveTasks run \<le> M"
  shows "active_tasks d runs + dispatches d (ti_log (step_runs e sc budgets runs occupied)) \<le> max M (active_tasks d runs)"
proof -
  have "budget_inv (activeTaskCounts runs) d M (step_runs e sc budgets runs occupied)"
    unfolding step_runs_def
    by (rule budget_fold [OF assms]) (simp add: budget_inv_def dispatches_def)
  then show ?thesis by (auto simp: budget_inv_def activeTaskCounts_get)
qed

section \<open>The discipline of dispatching\<close>

text \<open>What the calls before a call must be: a task is marked queued, and failed for want of dispatch
  attempts, only right after its dispatch was answered accordingly.\<close>

definition justified_call :: "env \<Rightarrow> call list \<Rightarrow> call \<Rightarrow> bool" where
  "justified_call e before c =
     (case c of
        ApplyTransition r i to \<Rightarrow>
          to = TaskStateQueued \<longrightarrow>
            (\<exists>cs d v t b n. before = cs @ [Dispatch r d v t] \<and> t_TaskID t = i \<and>
               en_reply e cs (Dispatch r d v t) = Replies b n)
      | FailDispatchExhausted r i k cause \<Rightarrow>
          k \<ge> dispatchMaxAttempts \<and>
            (\<exists>cs d v t disp. before = cs @ [Dispatch r d v t] \<and> t_TaskID t = i \<and>
               en_reply e cs (Dispatch r d v t) = Fails cause disp \<and> disp \<noteq> Backpressure)
      | _ \<Rightarrow> True)"

definition disciplined :: "env \<Rightarrow> call list \<Rightarrow> bool" where
  "disciplined e cs \<longleftrightarrow> (\<forall>before c after. cs = before @ c # after \<longrightarrow> justified_call e before c)"

lemma disciplined_Nil [simp]: "disciplined e []"
  by (simp add: disciplined_def)

lemma disciplined_snoc [simp]: "disciplined e (cs @ [c]) \<longleftrightarrow> disciplined e cs \<and> justified_call e cs c"
proof
  assume "disciplined e (cs @ [c])"
  then show "disciplined e cs \<and> justified_call e cs c"
    unfolding disciplined_def by (metis append.assoc append_Cons append_Nil)
next
  assume a: "disciplined e cs \<and> justified_call e cs c"
  show "disciplined e (cs @ [c])"
    unfolding disciplined_def
  proof (intro allI impI)
    fix before c' after assume "cs @ [c] = before @ c' # after"
    then show "justified_call e before c'"
      using a by (cases after rule: rev_cases) (auto simp: disciplined_def)
  qed
qed

definition keeps :: "env \<Rightarrow> 'a step \<Rightarrow> bool" where
  "keeps e m \<longleftrightarrow> (\<forall>l. disciplined e (sl_calls l) \<longrightarrow> disciplined e (sl_calls (snd (m l))))"

definition plain_call :: "call \<Rightarrow> bool" where
  "plain_call c = (case c of ApplyTransition r i to \<Rightarrow> to \<noteq> TaskStateQueued | FailDispatchExhausted _ _ _ _ \<Rightarrow> False | _ \<Rightarrow> True)"

named_theorems keeps_intros \<open>steps that keep the discipline\<close>

lemma keeps_basic [keeps_intros]:
  "keeps e (ret x)" "keeps e (fail er)" "keeps e (meter sc ms)" "keeps e (run_now e run)"
  by (simp_all add: keeps_def ret_def fail_def meter_def run_now_def clock_def)

lemma keeps_and_then [keeps_intros]: "keeps e f \<Longrightarrow> (\<And>x. keeps e (g x)) \<Longrightarrow> keeps e (and_then f g)"
  unfolding keeps_def and_then_def by (fastforce split: prod.split outcome.split)

lemma and_then_disciplined:
  "disciplined e (sl_calls (snd (f l))) \<Longrightarrow> (\<And>x. keeps e (g x)) \<Longrightarrow> disciplined e (sl_calls (snd (and_then f g l)))"
  unfolding keeps_def and_then_def by (fastforce split: prod.split outcome.split)

lemma ask_disciplined:
  "disciplined e (sl_calls l) \<Longrightarrow> justified_call e (sl_calls l) c \<Longrightarrow> disciplined e (sl_calls (snd (ask e c l)))"
  by (simp add: ask_def Let_def split: reply.split)

lemma plain_justified: "plain_call c \<Longrightarrow> justified_call e before c"
  by (auto simp: plain_call_def justified_call_def split: call.splits)

lemma keeps_ask [keeps_intros]: "plain_call c \<Longrightarrow> keeps e (ask e c)"
  by (simp add: keeps_def ask_def Let_def plain_justified split: reply.split)

lemma keeps_must [keeps_intros]: "plain_call c \<Longrightarrow> keeps e (must e wrap c)"
  unfolding must_def by (auto intro!: keeps_intros split: reply.split)

lemma keeps_attempt [keeps_intros]: "plain_call c \<Longrightarrow> keeps e (attempt e c)"
  unfolding attempt_def by (intro keeps_intros)

lemma plain_call_simps [simp]:
  "plain_call (ApplyTransition r i to) \<longleftrightarrow> to \<noteq> TaskStateQueued"
  "plain_call (MaterializeTasks r ts)" "plain_call (SetRunState r st)" "plain_call (ApplyTransitions r is to)"
  "plain_call (ResetForRetry r i)" "plain_call (ResetForInfraReplace r i)" "plain_call (RedispatchReschedule r i)"
  "plain_call (RecordDispatchFailure r i n)" "plain_call (RecordDispatchBackpressure r i n)"
  "plain_call (SetTaskNote r i ty)" "plain_call (ClaimAlertAttempt r k w)" "plain_call (AcquireAlertSlot r)"
  "plain_call (SpawnAlert r k)" "plain_call (Dispatch r d v t)"
  by (simp_all add: plain_call_def)

lemma keeps_launchQueued: "keeps e (launchQueued e sc run t)"
proof (cases "findTask (rs_Tasks run) (pt_TaskID t)")
  case (Some task)
  have id: "t_TaskID task = pt_TaskID t" using Some by (auto simp: findTask_def find_Some_iff)
  let ?c = "Dispatch (rs_RunID run) (rs_DagID run) (rs_DagVersionID run) task"
  let ?k = "\<lambda>r. case r of Fails cause disp \<Rightarrow> handleDispatchFailure e run (pt_TaskID t) disp cause
     | _ \<Rightarrow> recordTransition e sc run (pt_TaskID t) TaskStateQueued"
  have "disciplined e (sl_calls (snd (and_then (ask e ?c) ?k l)))" if "disciplined e (sl_calls l)" for l
  proof -
    let ?l = "l\<lparr>sl_calls := sl_calls l @ [?c]\<rparr>"
    have l: "disciplined e (sl_calls ?l)" using that by (simp add: plain_justified)
    show ?thesis
    proof (cases "en_reply e (sl_calls l) ?c")
      case Panics
      with l show ?thesis by (simp add: and_then_def ask_def Let_def)
    next
      case (Replies b n)
      then have "justified_call e (sl_calls ?l) (ApplyTransition (rs_RunID run) (pt_TaskID t) TaskStateQueued)"
        using id by (auto simp: justified_call_def)
      with l have "disciplined e (sl_calls (snd (recordTransition e sc run (pt_TaskID t) TaskStateQueued ?l)))"
        unfolding recordTransition_def must_def
        by (intro and_then_disciplined ask_disciplined keeps_intros) (auto intro!: keeps_intros split: reply.split)
      with Replies show ?thesis by (simp add: and_then_def ask_def Let_def)
    next
      case (Fails cause disp)
      have k: "keeps e (handleDispatchFailure e run (pt_TaskID t) disp cause)"
        if "disp = Backpressure \<or> mget 0 (rs_DispatchAttempts run) (pt_TaskID t) + 1 < dispatchMaxAttempts"
        using that unfolding handleDispatchFailure_def backoffBackpressure_def Let_def by (auto intro!: keeps_intros)
      have "justified_call e (sl_calls ?l) (FailDispatchExhausted (rs_RunID run) (pt_TaskID t)
          (mget 0 (rs_DispatchAttempts run) (pt_TaskID t) + 1) cause)"
        if "disp \<noteq> Backpressure" "dispatchMaxAttempts \<le> mget 0 (rs_DispatchAttempts run) (pt_TaskID t) + 1"
        using that id Fails by (auto simp: justified_call_def)
      then have "disciplined e (sl_calls (snd (handleDispatchFailure e run (pt_TaskID t) disp cause ?l)))"
        using k l by (cases "disp = Backpressure \<or> mget 0 (rs_DispatchAttempts run) (pt_TaskID t) + 1 < dispatchMaxAttempts")
          (auto simp: keeps_def handleDispatchFailure_def attempt_def Let_def simp del: disciplined_snoc
            intro!: and_then_disciplined ask_disciplined keeps_intros)
      then show ?thesis using Fails by (simp add: and_then_def ask_def Let_def)
    qed
  qed
  then have "keeps e (and_then (ask e ?c) ?k)" by (simp add: keeps_def)
  moreover have "keeps e (failUndispatchable e sc run (pt_TaskID t) (t_Type task))"
    unfolding failUndispatchable_def recordTransition_def by (intro keeps_intros; simp)
  ultimately show ?thesis using Some by (simp add: launchQueued_def)
qed (simp add: launchQueued_def keeps_intros)

lemma keeps_applyPlanned: "keeps e (applyPlanned e sc run t batch)"
  unfolding applyPlanned_def resetForRetry_def resetForInfraReplace_def redispatchReschedule_def guarded_reset_def Let_def
  by (auto intro!: keeps_intros keeps_launchQueued split: TaskState.split)

lemma keeps_apply_loop: "keeps e (apply_loop e sc run poolOf ts a batch)"
proof (induction ts arbitrary: a batch)
  case (Cons t ts)
  have "apply_loop e sc run poolOf (t # ts) a batch l =
      (case applyPlanned e sc run t batch l of
        (Ok batch', l') \<Rightarrow> apply_loop e sc run poolOf ts (admit poolOf t a) batch' l'
      | (Err er, l') \<Rightarrow> (Ok (admit poolOf t a, Inl er), l') | (Panic, l') \<Rightarrow> (Panic, l'))" for l
    by (simp add: Let_def)
  with Cons keeps_applyPlanned [of e sc run t batch] show ?case
    unfolding keeps_def by (fastforce split: prod.split outcome.split)
qed (simp add: keeps_def)

lemma keeps_with_error [keeps_intros]: "keeps e m \<Longrightarrow> keeps e (with_error a m)"
  unfolding keeps_def with_error_def by (fastforce split: prod.split outcome.split)

lemma keeps_flush [keeps_intros]: "keeps e (flush_loop e sc run b order)"
  by (induction order) (auto simp: Let_def intro!: keeps_intros)

lemma keeps_finish [keeps_intros]: "keeps e (finish_run e sc run)"
proof -
  have "keeps e (maybeAlertFailure e sc state run)" for state
    unfolding maybeAlertFailure_def Let_def by (auto intro!: keeps_intros split: option.split reply.split bool.split)
  then show ?thesis unfolding finish_run_def by (auto intro!: keeps_intros split: option.split)
qed

lemma keeps_advance_run: "keeps e (advance_run e sc run)"
  unfolding advance_run_def start_run_def flushTransitions_def
  by (auto intro!: keeps_intros keeps_apply_loop split: prod.split sum.split)

lemma step_run_disciplined:
  "disciplined e (sl_calls (ti_log ti)) \<Longrightarrow> disciplined e (sl_calls (ti_log (step_run e sc active budgets run ti)))"
proof -
  assume "disciplined e (sl_calls (ti_log ti))"
  then have "disciplined e (sl_calls (snd (advance_run e sc (prepare_run sc active budgets ti run) (ti_log ti))))"
    using keeps_advance_run by (simp add: keeps_def)
  then show ?thesis
    by (auto simp: step_run_def advanceSafely_def meter_def split: prod.split outcome.split option.split)
qed

lemma step_runs_disciplined: "disciplined e (sl_calls (ti_log (step_runs e sc budgets runs occupied)))"
proof -
  have "disciplined e (sl_calls (ti_log ti)) \<Longrightarrow>
      disciplined e (sl_calls (ti_log (fold (step_run e sc active budgets) runs ti)))" for active ti
    by (induction runs arbitrary: ti) (simp_all add: step_run_disciplined)
  then show ?thesis by (simp add: step_runs_def)
qed

lemma Step_log:
  assumes "Step e q sc = Some (res, sc')"
  shows "sl_calls (sr_log res) = [] \<or>
     (\<exists>runs budgets occupied. qu_ActiveRuns q = Inr runs \<and> sc_leading sc \<and>
        sr_log res = ti_log (step_runs e (sc\<lparr>sc_lastTick := qu_now q\<rparr>) budgets runs occupied))"
  using assms by (fastforce simp: Step_def Let_def split: if_splits sum.splits prod.splits option.splits)

lemma Step_returns: "progressing (qu_ParseStandard q) \<Longrightarrow> \<exists>res sc'. Step e q sc = Some (res, sc')"
proof -
  assume p: "progressing (qu_ParseStandard q)"
  have "createDueRuns (qu_ParseStandard q) ok dags warned active now \<noteq> None"
    for ok and dags :: "string + ScheduledDAG list" and warned active now
  proof (cases dags)
    case (Inr ds)
    obtain s where "due_dags (qu_ParseStandard q) ok active now ds
        \<lparr>du_warned = warned, du_created = [], du_calls = [], du_decisions = []\<rparr> = Some s"
      using due_dags_return [OF p] by blast
    with Inr show ?thesis by (simp add: createDueRuns_def)
  qed (simp add: createDueRuns_def)
  then have "Step e q sc \<noteq> None"
    unfolding Step_def Let_def by (simp del: not_None_eq split: sum.split prod.split option.split)
  then show ?thesis by auto
qed

text \<open>Two runs of a DAG that may have one active task, each with a task ready for dispatch, and an
  environment in which the write that marks the task of the first run queued fails.\<close>

definition one_task_run :: "string \<Rightarrow> RunState" where
  "one_task_run r =
     (sample_run [plain_task ''a'' []] [(''a'', TaskStateScheduled)])\<lparr>rs_RunID := r, rs_MaxActiveTasks := 1\<rparr>"

definition sample_env :: "(call \<Rightarrow> reply) \<Rightarrow> env" where
  "sample_env reply = \<lparr>en_reply = (\<lambda>_. reply), en_clock = (\<lambda>_. 1)\<rparr>"

definition sample_queries :: "RunState list \<Rightarrow> queries" where
  "sample_queries runs =
     \<lparr>qu_ActiveRuns = Inr runs, qu_PoolBudgets = Inr [], qu_ScheduledDAGs = Inr [],
      qu_ParseStandard = (\<lambda>_. None), qu_CreateScheduledRun = (\<lambda>_ _ _. True), qu_now = 1\<rparr>"

definition sample_scheduler :: Scheduler where
  "sample_scheduler =
     \<lparr>sc_recorder = False, sc_dispatcher = True, sc_alerter = False, sc_poolsEnabled = False,
      sc_leading = True, sc_lastTick = 0, sc_warnedSchedules = []\<rparr>"

definition unmarked_reply :: "call \<Rightarrow> reply" where
  "unmarked_reply c =
     (case c of ApplyTransition r _ _ \<Rightarrow> if r = ''r1'' then Fails ''write'' Dispatched else Replies True 0
      | _ \<Rightarrow> Replies True 0)"

definition dispatched_by :: "(call \<Rightarrow> reply) \<Rightarrow> RunState list \<Rightarrow> int option" where
  "dispatched_by reply runs =
     map_option (\<lambda>(res, _). dispatches ''dag'' (sr_log res))
       (Step (sample_env reply) (sample_queries runs) sample_scheduler)"

section \<open>Properties\<close>






end
