(* ===== verification/SiteSearch.thy ===== *)
theory SiteSearch
  imports Domain "HOL-Library.Char_ord"
begin

text \<open>
  \<open>website/static/python-api/search.js\<close>: the search of the generated API documentation, and
  \<open>website/postcss.config.js\<close>. The file holds the elasticlunr library (line 2), the index data
  (line 3) and the code that configures the search (the rest). Modelled: the tokenizer with the
  separator the code sets, the token pipeline, the document store, the inverted index (a trie
  over the characters of a token), the search configuration, building and loading an index.
  Scores are floating point and are not modelled; a term frequency is a value of an arbitrary
  type, and \<open>Math.sqrt\<close> is a parameter.

  Plain objects used as dictionaries inherit the properties of \<open>Object.prototype\<close>; where the
  code tests a key with \<open>in\<close> or by truth value, the model does too (\<open>inherited\<close>).
  \<open>expandToken\<close> enumerates children as JavaScript does: digit keys first, in ascending order,
  then the others in insertion order. Strings are sequences of 8-bit code units.
\<close>

section \<open>Objects as dictionaries\<close>

definition object_prototype_keys :: "string list" where
  "object_prototype_keys =
     [''constructor'', ''hasOwnProperty'', ''isPrototypeOf'', ''propertyIsEnumerable'',
      ''toLocaleString'', ''toString'', ''valueOf'', ''__defineGetter__'', ''__defineSetter__'',
      ''__lookupGetter__'', ''__lookupSetter__'', ''__proto__'']"

definition inherited :: "string \<Rightarrow> bool" where
  "inherited k = (k \<in> set object_prototype_keys)"

definition js_in :: "string \<Rightarrow> (string, 'v) gomap \<Rightarrow> bool" where
  "js_in k m = (mhas m k \<or> inherited k)"

definition mdel :: "'k \<Rightarrow> ('k, 'v) gomap \<Rightarrow> ('k, 'v) gomap" where
  "mdel k m = AList.delete k m"

section \<open>Tokenizer\<close>

text \<open>The separator \<open>/[\s\-.;&_'"=,()]+|<[^>]*>/\<close> set in line 7.\<close>

definition sep_char :: "char \<Rightarrow> bool" where
  "sep_char c = (is_space c \<or> c \<in> set ''-.;&_=,()'' \<or> c = CHR 0x27 \<or> c = CHR 0x22)"

text \<open>The text left after a separator that matches here, if one does.\<close>

definition match_sep :: "string \<Rightarrow> string option" where
  "match_sep s =
     (case s of
        [] \<Rightarrow> None
      | c # cs \<Rightarrow>
          if sep_char c then Some (dropWhile sep_char cs)
          else if c = CHR ''<'' then
            (case dropWhile (\<lambda>x. x \<noteq> CHR ''>'') cs of [] \<Rightarrow> None | _ # rest \<Rightarrow> Some rest)
          else None)"

lemma match_sep_length: "match_sep s = Some rest \<Longrightarrow> length rest < length s"
proof -
  assume m: "match_sep s = Some rest"
  then obtain c cs where s: "s = c # cs" by (auto simp: match_sep_def split: list.splits)
  have "length (dropWhile P cs) \<le> length cs" for P by (rule length_dropWhile_le)
  from this [of sep_char] this [of "\<lambda>x. x \<noteq> CHR ''>''"] m show ?thesis
    by (auto simp: s match_sep_def split: if_splits list.splits)
qed

function js_split :: "string \<Rightarrow> string \<Rightarrow> string list" where
  "js_split cur s =
     (case match_sep s of
        Some rest \<Rightarrow> cur # js_split [] rest
      | None \<Rightarrow> (case s of [] \<Rightarrow> [cur] | c # cs \<Rightarrow> js_split (cur @ [c]) cs))"
  by pat_completeness auto
termination by (relation "measure (\<lambda>(_, s). length s)") (auto dest: match_sep_length)

definition tokenizer :: "string option \<Rightarrow> string list" where
  "tokenizer v = (case v of None \<Rightarrow> [] | Some s \<Rightarrow> js_split [] (ToLower (TrimSpace s)))"

section \<open>Pipeline\<close>

datatype pipe_fn = trimmer | stopWordFilter | stemmer

definition registeredFunctions :: "(string, pipe_fn) gomap" where
  "registeredFunctions =
     [(''stemmer'', stemmer), (''stopWordFilter'', stopWordFilter), (''trimmer'', trimmer)]"

definition pipeline_add :: "pipe_fn list \<Rightarrow> pipe_fn list \<Rightarrow> pipe_fn list" where
  "pipeline_add fns queue = queue @ fns"

definition pipeline_remove :: "pipe_fn \<Rightarrow> pipe_fn list \<Rightarrow> pipe_fn list" where
  "pipeline_remove f queue = remove1 f queue"

text \<open>\<open>None\<close> is the error thrown for a label that is not registered.\<close>

fun pipeline_load :: "string list \<Rightarrow> pipe_fn list option" where
  "pipeline_load [] = Some []"
| "pipeline_load (l # ls) =
     (case map_of registeredFunctions l of
        None \<Rightarrow> None
      | Some f \<Rightarrow> map_option (\<lambda>q. f # q) (pipeline_load ls))"

definition word_char :: "char \<Rightarrow> bool" where
  "word_char c =
     (let n = (of_char c :: nat) in
      48 \<le> n \<and> n \<le> 57 \<or> 65 \<le> n \<and> n \<le> 90 \<or> 97 \<le> n \<and> n \<le> 122 \<or> n = 95)"

definition trim_nonword :: "string \<Rightarrow> string" where
  "trim_nonword s =
     rev (dropWhile (\<lambda>c. \<not> word_char c) (rev (dropWhile (\<lambda>c. \<not> word_char c) s)))"

text \<open>\<open>stem\<close> and \<open>stop\<close> are the stemmer and the stop word test; \<open>None\<close> is \<open>undefined\<close>.\<close>

fun apply_pipe :: "(string \<Rightarrow> string) \<Rightarrow> (string \<Rightarrow> bool) \<Rightarrow> pipe_fn \<Rightarrow> string \<Rightarrow> string option" where
  "apply_pipe stem stop trimmer t = Some (trim_nonword t)"
| "apply_pipe stem stop stopWordFilter t = (if t \<noteq> '''' \<and> \<not> stop t then Some t else None)"
| "apply_pipe stem stop stemmer t = Some (stem t)"

fun run_token :: "(string \<Rightarrow> string) \<Rightarrow> (string \<Rightarrow> bool) \<Rightarrow> pipe_fn list \<Rightarrow> string \<Rightarrow> string option" where
  "run_token stem stop [] t = Some t"
| "run_token stem stop (f # fs) t =
     (case apply_pipe stem stop f t of None \<Rightarrow> None | Some t' \<Rightarrow> run_token stem stop fs t')"

definition pipeline_run ::
    "(string \<Rightarrow> string) \<Rightarrow> (string \<Rightarrow> bool) \<Rightarrow> pipe_fn list \<Rightarrow> string list \<Rightarrow> string list" where
  "pipeline_run stem stop queue toks = List.map_filter (run_token stem stop queue) toks"

section \<open>Inverted index\<close>

datatype 'tf node = Node (docs: "(string \<times> 'tf) list") (df: int) (kids: "(char \<times> 'tf node) list")

definition empty_node :: "'tf node" where
  "empty_node = Node [] 0 []"

fun addToken :: "string \<Rightarrow> string \<Rightarrow> 'tf \<Rightarrow> 'tf node \<Rightarrow> 'tf node" where
  "addToken [] ref tf (Node ds n ks) =
     (if js_in ref ds then Node (mput ref tf ds) n ks else Node (mput ref tf ds) (n + 1) ks)"
| "addToken (c # cs) ref tf (Node ds n ks) =
     Node ds n (mput c (addToken cs ref tf (mget empty_node ks c)) ks)"

fun walk :: "string \<Rightarrow> 'tf node \<Rightarrow> 'tf node option" where
  "walk [] nd = Some nd"
| "walk (c # cs) nd = (case map_of (kids nd) c of None \<Rightarrow> None | Some k \<Rightarrow> walk cs k)"

definition getNode :: "string \<Rightarrow> 'tf node \<Rightarrow> 'tf node option" where
  "getNode tok root = (if tok = '''' then None else walk tok root)"

definition hasToken :: "string \<Rightarrow> 'tf node \<Rightarrow> bool" where
  "hasToken tok root = (tok \<noteq> '''' \<and> walk tok root \<noteq> None)"

definition getDocs :: "string \<Rightarrow> 'tf node \<Rightarrow> (string, 'tf) gomap" where
  "getDocs tok root = (case getNode tok root of None \<Rightarrow> [] | Some nd \<Rightarrow> docs nd)"

text \<open>\<open>None\<close> is \<open>undefined\<close>, the \<open>tf\<close> of an inherited property.\<close>

definition getTermFrequency :: "'tf \<Rightarrow> string \<Rightarrow> string \<Rightarrow> 'tf node \<Rightarrow> 'tf option" where
  "getTermFrequency zero tok ref root =
     (case getNode tok root of
        None \<Rightarrow> Some zero
      | Some nd \<Rightarrow>
          (case map_of (docs nd) ref of
             Some tf \<Rightarrow> Some tf
           | None \<Rightarrow> if inherited ref then None else Some zero))"

definition getDocFreq :: "string \<Rightarrow> 'tf node \<Rightarrow> int" where
  "getDocFreq tok root = (case getNode tok root of None \<Rightarrow> 0 | Some nd \<Rightarrow> df nd)"

text \<open>\<open>removeToken\<close> updates the node it finds in place.\<close>

fun update_at :: "string \<Rightarrow> ('tf node \<Rightarrow> 'tf node) \<Rightarrow> 'tf node \<Rightarrow> 'tf node" where
  "update_at [] f nd = f nd"
| "update_at (c # cs) f (Node ds n ks) =
     (case map_of ks c of None \<Rightarrow> Node ds n ks | Some k \<Rightarrow> Node ds n (mput c (update_at cs f k) ks))"

definition remove_ref :: "string \<Rightarrow> 'tf node \<Rightarrow> 'tf node" where
  "remove_ref ref nd = (if js_in ref (docs nd) then Node (mdel ref (docs nd)) (df nd - 1) (kids nd) else nd)"

definition removeToken :: "string \<Rightarrow> string \<Rightarrow> 'tf node \<Rightarrow> 'tf node" where
  "removeToken tok ref root = (if tok = '''' then root else update_at tok (remove_ref ref) root)"

definition is_digit :: "char \<Rightarrow> bool" where
  "is_digit c = (48 \<le> (of_char c :: nat) \<and> (of_char c :: nat) \<le> 57)"

definition for_in :: "(char \<times> 'a) list \<Rightarrow> (char \<times> 'a) list" where
  "for_in ks = sort_key fst (filter (\<lambda>(c, _). is_digit c) ks) @ filter (\<lambda>(c, _). \<not> is_digit c) ks"

lemma set_for_in [simp]: "set (for_in ks) = set ks"
  by (auto simp: for_in_def)

lemma node_kid_size: "(c, k) \<in> set (kids nd) \<Longrightarrow> size_node (\<lambda>_. 0) k < size_node (\<lambda>_. 0) nd"
  by (cases nd) (auto dest!: split_list)

function expand_node :: "string \<Rightarrow> 'tf node \<Rightarrow> string list" where
  "expand_node tok nd =
     (if df nd > 0 then [tok] else []) @
     concat (map (\<lambda>(c, k). expand_node (tok @ [c]) k) (for_in (kids nd)))"
  by pat_completeness auto
termination
  by (relation "measure (\<lambda>(_, nd). size_node (\<lambda>_. 0) nd)") (auto intro: node_kid_size)

definition expandToken :: "string \<Rightarrow> 'tf node \<Rightarrow> string list" where
  "expandToken tok root =
     (if tok = '''' then [] else case getNode tok root of None \<Rightarrow> [] | Some nd \<Rightarrow> expand_node tok nd)"

section \<open>Document store and index\<close>

record 'doc doc_store =
  ds_save :: bool
  ds_docs :: "(string, 'doc option) gomap"
  ds_docInfo :: "(string, (string, int) gomap) gomap"
  ds_length :: int

definition hasDoc :: "string \<Rightarrow> 'doc doc_store \<Rightarrow> bool" where
  "hasDoc ref st = js_in ref (ds_docs st)"

definition store_addDoc :: "string \<Rightarrow> 'doc \<Rightarrow> 'doc doc_store \<Rightarrow> 'doc doc_store" where
  "store_addDoc ref doc st =
     (let st1 = (if hasDoc ref st then st else st\<lparr>ds_length := ds_length st + 1\<rparr>)
      in st1\<lparr>ds_docs := mput ref (if ds_save st1 then Some doc else None) (ds_docs st1)\<rparr>)"

definition addFieldLength :: "string \<Rightarrow> string \<Rightarrow> int \<Rightarrow> 'doc doc_store \<Rightarrow> 'doc doc_store" where
  "addFieldLength ref field n st =
     (if \<not> hasDoc ref st then st
      else st\<lparr>ds_docInfo := mput ref (mput field n (mget [] (ds_docInfo st) ref)) (ds_docInfo st)\<rparr>)"

record ('doc, 'tf) search_index =
  ix_fields :: "string list"
  ix_ref :: string
  ix_pipeline :: "pipe_fn list"
  ix_store :: "'doc doc_store"
  ix_index :: "(string, 'tf node) gomap"

definition new_index :: "('doc, 'tf) search_index" where
  "new_index =
     \<lparr>ix_fields = [], ix_ref = ''id'', ix_pipeline = [],
      ix_store = \<lparr>ds_save = True, ds_docs = [], ds_docInfo = [], ds_length = 0\<rparr>, ix_index = []\<rparr>"

definition addField :: "string \<Rightarrow> ('doc, 'tf) search_index \<Rightarrow> ('doc, 'tf) search_index" where
  "addField f ix = ix\<lparr>ix_fields := ix_fields ix @ [f], ix_index := mput f empty_node (ix_index ix)\<rparr>"

definition setRef :: "string \<Rightarrow> ('doc, 'tf) search_index \<Rightarrow> ('doc, 'tf) search_index" where
  "setRef r ix = ix\<lparr>ix_ref := r\<rparr>"

text \<open>Counting the tokens of a field: \<open>e in r ? r[e]+=1 : r[e]=1\<close> on a plain object. The first
  increment of an inherited key appends to the text of a function; the value is then not a number
  (\<open>None\<close>) for good.\<close>

definition count_token :: "string \<Rightarrow> (string, int option) gomap \<Rightarrow> (string, int option) gomap" where
  "count_token e r =
     (case map_of r e of
        Some n \<Rightarrow> mput e (map_option (\<lambda>k. k + 1) n) r
      | None \<Rightarrow> if inherited e then mput e None r else mput e (Some 1) r)"

definition count_tokens :: "string list \<Rightarrow> (string, int option) gomap" where
  "count_tokens toks = fold count_token toks []"

text \<open>\<open>sqrt\<close> is \<open>Math.sqrt\<close> on a count (\<open>None\<close>: not a number); \<open>field_of doc f\<close> is \<open>doc[f]\<close>.\<close>

definition addDoc_field ::
    "(string \<Rightarrow> string) \<Rightarrow> (string \<Rightarrow> bool) \<Rightarrow> (int option \<Rightarrow> 'tf) \<Rightarrow> ('doc \<Rightarrow> string \<Rightarrow> string option) \<Rightarrow>
     'doc \<Rightarrow> string \<Rightarrow> string \<Rightarrow> ('doc, 'tf) search_index \<Rightarrow> ('doc, 'tf) search_index" where
  "addDoc_field stem stop sqrt field_of doc ref f ix =
     (let toks = pipeline_run stem stop (ix_pipeline ix) (tokenizer (field_of doc f));
          ix1 = ix\<lparr>ix_store := addFieldLength ref f (int (length toks)) (ix_store ix)\<rparr>
      in fold (\<lambda>(t, n) i. i\<lparr>ix_index := mput f (addToken t ref (sqrt n) (mget empty_node (ix_index i) f)) (ix_index i)\<rparr>)
           (count_tokens toks) ix1)"

definition index_addDoc ::
    "(string \<Rightarrow> string) \<Rightarrow> (string \<Rightarrow> bool) \<Rightarrow> (int option \<Rightarrow> 'tf) \<Rightarrow> ('doc \<Rightarrow> string \<Rightarrow> string option) \<Rightarrow>
     'doc \<Rightarrow> ('doc, 'tf) search_index \<Rightarrow> ('doc, 'tf) search_index" where
  "index_addDoc stem stop sqrt field_of doc ix =
     (let ref = (case field_of doc (ix_ref ix) of None \<Rightarrow> ''undefined'' | Some r \<Rightarrow> r);
          ix1 = ix\<lparr>ix_store := store_addDoc ref doc (ix_store ix)\<rparr>
      in fold (addDoc_field stem stop sqrt field_of doc ref) (ix_fields ix1) ix1)"

section \<open>The search of the site\<close>

definition search_fields :: "string list" where
  "search_fields =
     [''qualname'', ''fullname'', ''annotation'', ''default_value'', ''signature'', ''bases'', ''doc'']"

definition build_index ::
    "(string \<Rightarrow> string) \<Rightarrow> (string \<Rightarrow> bool) \<Rightarrow> (int option \<Rightarrow> 'tf) \<Rightarrow> ('doc \<Rightarrow> string \<Rightarrow> string option) \<Rightarrow>
     'doc list \<Rightarrow> ('doc, 'tf) search_index" where
  "build_index stem stop sqrt field_of ds =
     (let ix = new_index;
          ix0 = ix\<lparr>ix_pipeline := pipeline_add [trimmer, stopWordFilter, stemmer] (ix_pipeline ix)\<rparr>;
          ix1 = ix0\<lparr>ix_pipeline := pipeline_remove stemmer (ix_pipeline ix0)\<rparr>;
          ix2 = ix1\<lparr>ix_pipeline := pipeline_remove stopWordFilter (ix_pipeline ix1)\<rparr>;
          ix3 = fold addField search_fields ix2;
          ix4 = setRef ''fullname'' ix3
      in fold (index_addDoc stem stop sqrt field_of) ds ix4)"

text \<open>The serialised index of line 3, and \<open>Index.load\<close>.\<close>

record ('doc, 'tf) saved_index =
  sv_fields :: "string list"
  sv_ref :: string
  sv_pipeline :: "string list"
  sv_store :: "'doc doc_store"
  sv_index :: "(string, 'tf node) gomap"

definition load_index :: "('doc, 'tf) saved_index \<Rightarrow> ('doc, 'tf) search_index option" where
  "load_index sv =
     (case pipeline_load (sv_pipeline sv) of
        None \<Rightarrow> None
      | Some q \<Rightarrow> Some \<lparr>ix_fields = sv_fields sv, ix_ref = sv_ref sv, ix_pipeline = q,
                       ix_store = sv_store sv, ix_index = sv_index sv\<rparr>)"

record field_config =
  fc_boost :: int
  fc_bool :: string
  fc_expand :: bool

text \<open>The fields object passed to \<open>search\<close> (each with a boost only) and \<open>expand: true\<close>.\<close>

definition user_fields :: "(string \<times> int) list" where
  "user_fields =
     [(''qualname'', 4), (''fullname'', 2), (''annotation'', 2), (''default_value'', 2),
      (''signature'', 2), (''bases'', 2), (''doc'', 1)]"

definition buildUserConfig ::
    "bool \<Rightarrow> (string \<times> int) list \<Rightarrow> string list \<Rightarrow> (string, field_config) gomap" where
  "buildUserConfig expand user fields0 =
     fold (\<lambda>(r, boost) cfg.
             if r \<in> set fields0
             then mput r \<lparr>fc_boost = boost, fc_bool = ''OR'', fc_expand = expand\<rparr> cfg
             else cfg)
       user []"

definition search_config :: "('doc, 'tf) search_index \<Rightarrow> (string, field_config) gomap" where
  "search_config ix = buildUserConfig True user_fields (ix_fields ix)"

definition query_tokens ::
    "(string \<Rightarrow> string) \<Rightarrow> (string \<Rightarrow> bool) \<Rightarrow> ('doc, 'tf) search_index \<Rightarrow> string \<Rightarrow> string list" where
  "query_tokens stem stop ix term =
     (if term = '''' then [] else pipeline_run stem stop (ix_pipeline ix) (tokenizer (Some term)))"

text \<open>\<open>website/postcss.config.js\<close>.\<close>

definition postcss_plugins :: "string list" where
  "postcss_plugins = [''autoprefixer'']"

section \<open>Facts on the inverted index\<close>

definition docs_at :: "string \<Rightarrow> 'tf node \<Rightarrow> (string, 'tf) gomap" where
  "docs_at tok nd = (case walk tok nd of None \<Rightarrow> [] | Some n \<Rightarrow> docs n)"

lemma map_of_mput [simp]: "map_of (mput k v m) = (map_of m)(k \<mapsto> v)"
  by (rule ext) (simp add: mput_def update_conv)

lemma docs_at_empty [simp]: "docs_at s empty_node = []"
  by (cases s) (simp_all add: docs_at_def empty_node_def)

lemma docs_at_Cons: "docs_at (c # cs) (Node ds n ks) = docs_at cs (mget empty_node ks c)"
proof (cases "map_of ks c")
  case None
  then show ?thesis by (simp add: mget_def) (simp add: docs_at_def)
next
  case (Some k)
  then show ?thesis by (simp add: mget_def) (simp add: docs_at_def)
qed

lemma docs_at_addToken:
  "docs_at tok' (addToken tok ref tf root) =
     (if tok' = tok then mput ref tf (docs_at tok root) else docs_at tok' root)"
proof (induction tok ref tf root arbitrary: tok' rule: addToken.induct)
  case (1 ref tf ds n ks)
  show ?case by (cases tok') (auto simp: docs_at_def)
next
  case (2 c cs ref tf ds n ks)
  show ?case
  proof (cases tok')
    case Nil
    then show ?thesis by (simp add: docs_at_def)
  next
    case (Cons c' cs')
    then show ?thesis by (simp add: docs_at_Cons 2)
  qed
qed

lemma getDocs_docs_at: "getDocs tok root = (if tok = '''' then [] else docs_at tok root)"
  by (simp add: getDocs_def getNode_def docs_at_def)

lemma getDocs_addToken:
  "tok \<noteq> '''' \<Longrightarrow> map_of (getDocs tok' (addToken tok ref tf root)) ref' =
    (if tok' = tok \<and> ref' = ref then Some tf else map_of (getDocs tok' root) ref')"
  by (simp add: getDocs_docs_at docs_at_addToken)

text \<open>Every node has one entry per document, \<open>df\<close> is their number, and no two children share a
  character.\<close>

definition wf_here :: "'tf node \<Rightarrow> bool" where
  "wf_here nd \<longleftrightarrow> wf_gomap (docs nd) \<and> df nd = int (length (docs nd)) \<and> wf_gomap (kids nd)"

definition wf_index :: "'tf node \<Rightarrow> bool" where
  "wf_index root \<longleftrightarrow> (\<forall>p nd. walk p root = Some nd \<longrightarrow> wf_here nd)"

lemma wf_index_Node:
  "wf_index nd \<longleftrightarrow> wf_here nd \<and> (\<forall>c k. map_of (kids nd) c = Some k \<longrightarrow> wf_index k)"
proof
  assume wf: "wf_index nd"
  then have "wf_here nd" unfolding wf_index_def by (metis walk.simps(1))
  moreover have "wf_index k" if "map_of (kids nd) c = Some k" for c k
    unfolding wf_index_def
  proof (intro allI impI)
    fix p n assume "walk p k = Some n"
    then have "walk (c # p) nd = Some n" using that by simp
    with wf show "wf_here n" unfolding wf_index_def by blast
  qed
  ultimately show "wf_here nd \<and> (\<forall>c k. map_of (kids nd) c = Some k \<longrightarrow> wf_index k)" by blast
next
  assume a: "wf_here nd \<and> (\<forall>c k. map_of (kids nd) c = Some k \<longrightarrow> wf_index k)"
  show "wf_index nd" unfolding wf_index_def
  proof (intro allI impI)
    fix p n assume "walk p nd = Some n"
    with a show "wf_here n"
      by (cases p) (auto simp: wf_index_def split: option.splits)
  qed
qed

lemma wf_empty_node: "wf_index empty_node"
  by (subst wf_index_Node) (simp add: empty_node_def wf_here_def wf_gomap_def)

lemma length_mput_new: "\<not> mhas m k \<Longrightarrow> length (mput k v m) = Suc (length m)"
  by (induction m) (auto simp: mput_def mhas_def split: if_splits)

lemma length_mput_old: "mhas m k \<Longrightarrow> length (mput k v m) = length m"
  by (induction m) (auto simp: mput_def mhas_def split: if_splits)

lemma wf_addToken: "\<not> inherited ref \<Longrightarrow> wf_index nd \<Longrightarrow> wf_index (addToken tok ref tf nd)"
proof (induction tok ref tf nd rule: addToken.induct)
  case (1 ref tf ds n ks)
  then show ?case
    by (simp add: wf_index_Node [of "Node _ _ _"] wf_here_def js_in_def gm.wf_put length_mput_new length_mput_old)
next
  case (2 c cs ref tf ds n ks)
  have "wf_index (mget empty_node ks c)"
    using 2(3) wf_empty_node by (auto simp: wf_index_Node [of "Node _ _ _"] mget_def split: option.split)
  with 2 show ?case
    by (auto simp: wf_index_Node [of "Node _ _ _"] wf_here_def gm.wf_put split: if_splits)
qed

lemma mdel_absent: "\<not> mhas m k \<Longrightarrow> mdel k m = m"
  unfolding mdel_def mhas_def by (induction m) (auto split: if_splits)

lemma length_mdel: "mhas m k \<Longrightarrow> wf_gomap m \<Longrightarrow> length m = Suc (length (mdel k m))"
proof (induction m)
  case (Cons kv m)
  show ?case
  proof (cases "fst kv = k")
    case True
    with Cons.prems(2) have "mdel k m = m"
      by (intro mdel_absent) (auto simp: mhas_iff_keys wf_gomap_def)
    with True show ?thesis by (simp add: mdel_def)
  next
    case False
    with Cons show ?thesis by (cases kv) (simp add: mdel_def mhas_def wf_gomap_def)
  qed
qed simp

lemma wf_remove_ref: "\<not> inherited ref \<Longrightarrow> wf_index nd \<Longrightarrow> wf_index (remove_ref ref nd)"
proof (cases "mhas (docs nd) ref")
  case True
  assume wf: "wf_index nd"
  then have dist: "distinct (map fst (docs nd))"
    by (subst (asm) wf_index_Node) (simp add: wf_here_def wf_gomap_def)
  with True have "length (docs nd) = Suc (length (mdel ref (docs nd)))"
    by (intro length_mdel) (simp_all add: wf_gomap_def)
  with wf dist True show ?thesis
    by (subst wf_index_Node, subst (asm) wf_index_Node)
      (auto simp: remove_ref_def js_in_def wf_here_def wf_gomap_def mdel_def intro: distinct_delete)
qed (simp add: remove_ref_def js_in_def)

lemma wf_update_at:
  "(\<And>n. wf_index n \<Longrightarrow> wf_index (f n)) \<Longrightarrow> wf_index nd \<Longrightarrow> wf_index (update_at tok f nd)"
proof (induction tok f nd rule: update_at.induct)
  case (2 c cs f ds n ks)
  show ?case
  proof (cases "map_of ks c")
    case (Some k)
    with 2 have "wf_index (update_at cs f k)" by (auto simp: wf_index_Node [of "Node _ _ _"])
    with 2(3) Some show ?thesis
      by (auto simp: wf_index_Node [of "Node _ _ _"] wf_here_def gm.wf_put split: if_splits)
  qed (use 2 in simp)
qed simp

lemma expand_node_set:
  "wf_index nd \<Longrightarrow> t \<in> set (expand_node tok nd) \<longleftrightarrow>
     (\<exists>s n. t = tok @ s \<and> walk s nd = Some n \<and> df n > 0)"
proof (induction tok nd arbitrary: t rule: expand_node.induct)
  case (1 tok nd)
  have kid: "(c, k) \<in> set (kids nd) \<longleftrightarrow> map_of (kids nd) c = Some k" for c k
    using 1(2) by (subst (asm) wf_index_Node) (auto simp: wf_here_def wf_gomap_def)
  have IH: "u \<in> set (expand_node (tok @ [c]) k) \<longleftrightarrow>
      (\<exists>s n. u = (tok @ [c]) @ s \<and> walk s k = Some n \<and> df n > 0)" if "map_of (kids nd) c = Some k" for c k u
  proof -
    have "wf_index k" using 1(2) that by (subst (asm) wf_index_Node) blast
    with 1(1) [of "(c, k)" c k u] that kid show ?thesis by (simp del: expand_node.simps)
  qed
  have "t \<in> set (expand_node tok nd) \<longleftrightarrow>
      (df nd > 0 \<and> t = tok) \<or> (\<exists>c k. map_of (kids nd) c = Some k \<and> t \<in> set (expand_node (tok @ [c]) k))"
    unfolding kid [symmetric]
    by (subst expand_node.simps) (force simp del: expand_node.simps)
  also have "\<dots> \<longleftrightarrow> (df nd > 0 \<and> t = tok) \<or>
      (\<exists>c k s n. map_of (kids nd) c = Some k \<and> t = (tok @ [c]) @ s \<and> walk s k = Some n \<and> df n > 0)"
    using IH by blast
  also have "\<dots> \<longleftrightarrow> (\<exists>s n. t = tok @ s \<and> walk s nd = Some n \<and> df n > 0)"
    (is "?a \<or> ?b \<longleftrightarrow> ?c")
  proof
    assume "?a \<or> ?b" then show ?c by (force split: option.splits)
  next
    assume ?c
    then obtain s n where "t = tok @ s" "walk s nd = Some n" "df n > 0" by blast
    then show "?a \<or> ?b" by (cases s) (auto split: option.splits)
  qed
  finally show ?case .
qed

lemma expandToken_set:
  assumes "wf_index root" and "tok \<noteq> ''''"
  shows "set (expandToken tok root) = {tok @ s | s. getDocFreq (tok @ s) root > 0}"
proof -
  have split: "walk (p @ s) nd = (case walk p nd of None \<Rightarrow> None | Some n \<Rightarrow> walk s n)" for p s and nd :: "'a node"
    by (induction p nd rule: walk.induct) (auto split: option.split)
  show ?thesis
  proof (cases "walk tok root")
    case None
    with assms(2) show ?thesis
      by (auto simp: expandToken_def getNode_def getDocFreq_def split)
  next
    case (Some nd)
    then have "wf_index nd"
      using assms(1) split [of tok] unfolding wf_index_def by (metis option.simps(5))
    have "getDocFreq (tok @ s) root > 0 \<longleftrightarrow> (\<exists>n. walk s nd = Some n \<and> df n > 0)" for s
      using assms(2) Some by (auto simp: getDocFreq_def getNode_def split split: option.split)
    with expand_node_set [OF \<open>wf_index nd\<close>, of _ tok] Some assms(2) show ?thesis
      by (auto simp: expandToken_def getNode_def simp del: expand_node.simps)
  qed
qed

lemma js_split_no_sep:
  "\<forall>c\<in>set cur. \<not> sep_char c \<Longrightarrow> \<forall>w\<in>set (js_split cur s). \<forall>c\<in>set w. \<not> sep_char c"
proof (induction cur s rule: js_split.induct)
  case (1 cur s)
  show ?case
  proof (cases "match_sep s")
    case (Some rest)
    then have eq: "js_split cur s = cur # js_split [] rest" by (subst js_split.simps) simp
    show ?thesis unfolding eq using 1(2) [OF Some] 1(3) by simp
  next
    case None
    show ?thesis
    proof (cases s)
      case Nil
      then have eq: "js_split cur s = [cur]" using None by (subst js_split.simps) simp
      show ?thesis unfolding eq using 1(3) by simp
    next
      case (Cons d ds)
      then have eq: "js_split cur s = js_split (cur @ [d]) ds" using None by (subst js_split.simps) simp
      from None Cons have "\<not> sep_char d" by (auto simp: match_sep_def split: if_splits)
      with 1(1) [OF None Cons] 1(3) show ?thesis unfolding eq by simp
    qed
  qed
qed

lemma count_tokens_snoc: "count_tokens (toks @ [e]) = count_token e (count_tokens toks)"
  by (simp add: count_tokens_def)

lemma count_tokens_lookup:
  "map_of (count_tokens toks) t =
     (if t \<notin> set toks then None
      else if inherited t then Some None else Some (Some (int (count_list toks t))))"
proof (induction toks rule: rev_induct)
  case (snoc e toks)
  then show ?case
    by (auto simp: count_tokens_snoc count_token_def split: option.splits if_splits)
qed (simp add: count_tokens_def)

lemma addDoc_field_config:
  "ix_pipeline (addDoc_field stem stop sqrt field_of doc ref f ix) = ix_pipeline ix \<and>
   ix_fields (addDoc_field stem stop sqrt field_of doc ref f ix) = ix_fields ix \<and>
   ix_ref (addDoc_field stem stop sqrt field_of doc ref f ix) = ix_ref ix"
proof -
  have "ix_pipeline (fold (\<lambda>(t, n) i. i\<lparr>ix_index := g t n i\<rparr>) xs i) = ix_pipeline i \<and>
      ix_fields (fold (\<lambda>(t, n) i. i\<lparr>ix_index := g t n i\<rparr>) xs i) = ix_fields i \<and>
      ix_ref (fold (\<lambda>(t, n) i. i\<lparr>ix_index := g t n i\<rparr>) xs i) = ix_ref i"
    for g and xs :: "(string \<times> int option) list" and i :: "('a, 'b) search_index"
    by (induction xs arbitrary: i) auto
  then show ?thesis by (simp add: addDoc_field_def Let_def)
qed

lemma addDoc_config:
  "ix_pipeline (index_addDoc stem stop sqrt field_of doc ix) = ix_pipeline ix \<and>
   ix_fields (index_addDoc stem stop sqrt field_of doc ix) = ix_fields ix \<and>
   ix_ref (index_addDoc stem stop sqrt field_of doc ix) = ix_ref ix"
proof -
  have "ix_pipeline (fold (addDoc_field stem stop sqrt field_of doc ref) fs i) = ix_pipeline i \<and>
      ix_fields (fold (addDoc_field stem stop sqrt field_of doc ref) fs i) = ix_fields i \<and>
      ix_ref (fold (addDoc_field stem stop sqrt field_of doc ref) fs i) = ix_ref i" for ref fs i
    by (induction fs arbitrary: i) (auto simp: addDoc_field_config)
  then show ?thesis by (simp add: index_addDoc_def Let_def)
qed

lemma addDocs_config:
  "ix_pipeline (fold (index_addDoc stem stop sqrt field_of) ds ix) = ix_pipeline ix \<and>
   ix_fields (fold (index_addDoc stem stop sqrt field_of) ds ix) = ix_fields ix \<and>
   ix_ref (fold (index_addDoc stem stop sqrt field_of) ds ix) = ix_ref ix"
  by (induction ds arbitrary: ix) (auto simp: addDoc_config)

lemma build_index_config:
  "ix_pipeline (build_index stem stop sqrt field_of ds) = [trimmer] \<and>
   ix_fields (build_index stem stop sqrt field_of ds) = search_fields \<and>
   ix_ref (build_index stem stop sqrt field_of ds) = ''fullname''"
  by (simp add: build_index_def Let_def addDocs_config setRef_def addField_def new_index_def
      pipeline_add_def pipeline_remove_def search_fields_def)

section \<open>Properties\<close>

text \<open>Inserting a token into the inverted index and reading back: the documents of any token
  are what they were, except that the inserted token now has the inserted document with the
  given frequency.\<close>
theorem index_insert_lookup:
  assumes "tok \<noteq> ''''"
  shows "map_of (getDocs tok' (addToken tok ref tf root)) ref' =
    (if tok' = tok \<and> ref' = ref then Some tf else map_of (getDocs tok' root) ref')"
  using assms by (rule getDocs_addToken)

theorem index_insert_lookup_witness:
  "map_of (getDocs ''run'' (addToken ''run'' ''m.f'' (1::int) (addToken ''r'' ''m.g'' 2 empty_node))) ''m.f'' = Some 1"
  using index_insert_lookup [of "''run''" "''run''" "''m.f''" 1 "addToken ''r'' ''m.g'' (2::int) empty_node" "''m.f''"]
  by simp

text \<open>C35: The document frequency stored at every node of the inverted index is the number of its
  documents, and insertion and removal keep it so, for document references that are not property
  names of \<open>Object.prototype\<close>.\<close>
theorem index_df_invariant:
  assumes "\<not> inherited ref" and "wf_index root"
  shows "wf_index (addToken tok ref tf root) \<and> wf_index (removeToken tok ref root)"
proof -
  have "wf_index (update_at tok (remove_ref ref) root)"
    using assms by (intro wf_update_at wf_remove_ref)
  with wf_addToken [OF assms] assms(2) show ?thesis by (simp add: removeToken_def)
qed

theorem index_df_invariant_witness:
  "wf_index (addToken ''run'' ''m.f'' (1::int) empty_node) \<and>
   wf_index (removeToken ''run'' ''m.f'' (empty_node :: int node))"
  by (rule index_df_invariant [OF _ wf_empty_node]) (simp add: inherited_def object_prototype_keys_def)

text \<open>Expanding a query token returns exactly the indexed tokens that start with it and occur
  in some document.\<close>
theorem expandToken_prefixes:
  assumes "wf_index root" and "tok \<noteq> ''''"
  shows "set (expandToken tok root) = {tok @ s | s. getDocFreq (tok @ s) root > 0}"
  using assms by (rule expandToken_set)

theorem expandToken_prefixes_witness:
  "set (expandToken ''ru'' (addToken ''run'' ''m.f'' (1::int) empty_node)) =
     {''ru'' @ s | s. getDocFreq (''ru'' @ s) (addToken ''run'' ''m.f'' (1::int) empty_node) > 0}"
  by (rule expandToken_prefixes, rule wf_addToken [OF _ wf_empty_node])
    (simp_all add: inherited_def object_prototype_keys_def)

text \<open>The tokenizer splits at every separator: no token it returns contains one of the
  separator characters.\<close>
theorem tokenizer_no_separator:
  "w \<in> set (tokenizer v) \<longrightarrow> (\<forall>c\<in>set w. \<not> sep_char c)"
  using js_split_no_sep [of "[]"] by (cases v) (simp_all add: tokenizer_def del: js_split.simps)

theorem tokenizer_no_separator_witness:
  "tokenizer (Some ''a-b'') = [''a'', ''b''] \<and> \<not> sep_char CHR ''b''"
proof -
  have t: "tokenizer (Some ''a-b'') = [''a'', ''b'']" by code_simp
  with tokenizer_no_separator [of "''b''" "Some ''a-b''"] show ?thesis by simp
qed


text \<open>An index built in the browser and the precompiled one are searched alike. The built
  index keeps only the trimmer in its pipeline, which is what the precompiled data loads; it
  indexes the seven fields by full name, and the configuration of a search boosts exactly these
  fields, with prefix expansion.\<close>
theorem site_search_configuration:
  "ix_pipeline (build_index stem stop sqrt field_of ds) = [trimmer] \<and>
   pipeline_load [''trimmer''] = Some [trimmer] \<and>
   ix_ref (build_index stem stop sqrt field_of ds) = ''fullname'' \<and>
   map fst (search_config (build_index stem stop sqrt field_of ds)) =
     ix_fields (build_index stem stop sqrt field_of ds) \<and>
   map (\<lambda>(f, c). (f, fc_boost c)) (search_config (build_index stem stop sqrt field_of ds)) = user_fields \<and>
   list_all (\<lambda>(f, c). fc_expand c) (search_config (build_index stem stop sqrt field_of ds))"
proof -
  have "buildUserConfig True user_fields search_fields =
    map (\<lambda>(f, b). (f, \<lparr>fc_boost = b, fc_bool = ''OR'', fc_expand = True\<rparr>)) user_fields"
    by code_simp
  then have "search_config (build_index stem stop sqrt field_of ds) =
    map (\<lambda>(f, b). (f, \<lparr>fc_boost = b, fc_bool = ''OR'', fc_expand = True\<rparr>)) user_fields"
    by (simp add: search_config_def build_index_config)
  then show ?thesis
    by (simp add: build_index_config user_fields_def search_fields_def registeredFunctions_def)
qed

end
