(* ===== verification/SiteDocuments.thy ===== *)
theory SiteDocuments
  imports SiteSearch
begin

text \<open>
  \<open>website/static/python-api/search.js\<close>, line 2: removing and updating documents of a search
  index (\<open>DocumentStore.removeDoc\<close>, \<open>Index.removeDoc\<close>, \<open>removeDocByRef\<close>, \<open>updateDoc\<close>), and the
  refinement of the index to a map from references to documents: the postings of the inverted
  index are at any time those of the stored documents.

  A document is never one of the values JavaScript takes for false. Where a reference is the name
  of a property of \<open>Object.prototype\<close> and not that of a stored document, \<open>getDoc\<close> returns a built-in
  function; that the code goes on to take it for a document is not modelled. The events the
  operations emit only empty the cache of \<open>idf\<close>, which is not part of the state here.
\<close>

section \<open>Operations\<close>

definition isDocStored :: "'doc doc_store \<Rightarrow> bool" where
  "isDocStored st = ds_save st"

definition getDoc :: "string \<Rightarrow> 'doc doc_store \<Rightarrow> 'doc option" where
  "getDoc ref st = (case map_of (ds_docs st) ref of None \<Rightarrow> None | Some d \<Rightarrow> d)"

definition store_removeDoc :: "string \<Rightarrow> 'doc doc_store \<Rightarrow> 'doc doc_store" where
  "store_removeDoc ref st =
     (if hasDoc ref st
      then st\<lparr>ds_docs := mdel ref (ds_docs st), ds_docInfo := mdel ref (ds_docInfo st), ds_length := ds_length st - 1\<rparr>
      else st)"

definition updateFieldLength :: "string \<Rightarrow> string \<Rightarrow> int \<Rightarrow> 'doc doc_store \<Rightarrow> 'doc doc_store" where
  "updateFieldLength ref field n st = (if \<not> hasDoc ref st then st else addFieldLength ref field n st)"

text \<open>The key a document is stored under; an absent field is the key \<open>undefined\<close>.\<close>

definition doc_ref :: "('doc \<Rightarrow> string \<Rightarrow> string option) \<Rightarrow> 'doc \<Rightarrow> ('doc, 'tf) search_index \<Rightarrow> string" where
  "doc_ref field_of doc ix = (case field_of doc (ix_ref ix) of None \<Rightarrow> ''undefined'' | Some r \<Rightarrow> r)"

definition field_tokens ::
    "(string \<Rightarrow> string) \<Rightarrow> (string \<Rightarrow> bool) \<Rightarrow> ('doc \<Rightarrow> string \<Rightarrow> string option) \<Rightarrow> 'doc \<Rightarrow> string \<Rightarrow>
     ('doc, 'tf) search_index \<Rightarrow> string list" where
  "field_tokens stem stop field_of doc f ix = pipeline_run stem stop (ix_pipeline ix) (tokenizer (field_of doc f))"

definition removeDoc_field ::
    "(string \<Rightarrow> string) \<Rightarrow> (string \<Rightarrow> bool) \<Rightarrow> ('doc \<Rightarrow> string \<Rightarrow> string option) \<Rightarrow>
     'doc \<Rightarrow> string \<Rightarrow> string \<Rightarrow> ('doc, 'tf) search_index \<Rightarrow> ('doc, 'tf) search_index" where
  "removeDoc_field stem stop field_of doc ref f ix =
     fold (\<lambda>t i. i\<lparr>ix_index := mput f (removeToken t ref (mget empty_node (ix_index i) f)) (ix_index i)\<rparr>)
       (field_tokens stem stop field_of doc f ix) ix"

definition index_removeDoc ::
    "(string \<Rightarrow> string) \<Rightarrow> (string \<Rightarrow> bool) \<Rightarrow> ('doc \<Rightarrow> string \<Rightarrow> string option) \<Rightarrow>
     'doc \<Rightarrow> ('doc, 'tf) search_index \<Rightarrow> ('doc, 'tf) search_index" where
  "index_removeDoc stem stop field_of doc ix =
     (let ref = doc_ref field_of doc ix in
      if hasDoc ref (ix_store ix) then
        (let ix1 = ix\<lparr>ix_store := store_removeDoc ref (ix_store ix)\<rparr>
         in fold (removeDoc_field stem stop field_of doc ref) (ix_fields ix1) ix1)
      else ix)"

definition removeDocByRef ::
    "(string \<Rightarrow> string) \<Rightarrow> (string \<Rightarrow> bool) \<Rightarrow> ('doc \<Rightarrow> string \<Rightarrow> string option) \<Rightarrow>
     string option \<Rightarrow> ('doc, 'tf) search_index \<Rightarrow> ('doc, 'tf) search_index" where
  "removeDocByRef stem stop field_of ref ix =
     (case ref of
        None \<Rightarrow> ix
      | Some r \<Rightarrow>
          if r \<noteq> '''' \<and> isDocStored (ix_store ix) \<and> hasDoc r (ix_store ix) then
            (case getDoc r (ix_store ix) of None \<Rightarrow> ix | Some doc \<Rightarrow> index_removeDoc stem stop field_of doc ix)
          else ix)"

definition updateDoc ::
    "(string \<Rightarrow> string) \<Rightarrow> (string \<Rightarrow> bool) \<Rightarrow> (int option \<Rightarrow> 'tf) \<Rightarrow> ('doc \<Rightarrow> string \<Rightarrow> string option) \<Rightarrow>
     'doc \<Rightarrow> ('doc, 'tf) search_index \<Rightarrow> ('doc, 'tf) search_index" where
  "updateDoc stem stop sqrt field_of doc ix =
     index_addDoc stem stop sqrt field_of doc (removeDocByRef stem stop field_of (field_of doc (ix_ref ix)) ix)"

section \<open>Postings\<close>

definition posting :: "string \<Rightarrow> string \<Rightarrow> 'tf node \<Rightarrow> 'tf option" where
  "posting tok ref root = map_of (getDocs tok root) ref"

lemma posting_addToken:
  "tok' \<noteq> '''' \<Longrightarrow> posting tok' ref' (addToken tok ref tf root) =
    (if tok' = tok \<and> ref' = ref then Some tf else posting tok' ref' root)"
  by (simp add: posting_def getDocs_docs_at docs_at_addToken)

lemma docs_at_update_at:
  "docs_at tok' (update_at tok f root) =
     (if tok' = tok then case walk tok root of None \<Rightarrow> [] | Some nd \<Rightarrow> docs (f nd) else docs_at tok' root)"
  if "\<And>nd. kids (f nd) = kids nd"
  using that
proof (induction tok f root arbitrary: tok' rule: update_at.induct)
  case (1 f nd)
  then show ?case by (cases tok') (simp_all add: docs_at_def)
next
  case (2 c cs f ds n ks)
  show ?case
  proof (cases tok')
    case Nil
    then show ?thesis by (simp add: docs_at_def split: option.split)
  next
    case (Cons c' cs')
    show ?thesis
    proof (cases "map_of ks c")
      case None
      then show ?thesis by (auto simp: docs_at_def)
    next
      case (Some k)
      then show ?thesis using 2 Cons by (auto simp: docs_at_Cons mget_def)
    qed
  qed
qed

lemma posting_removeToken:
  "posting tok' ref' (removeToken tok ref root) =
    (if tok' = tok \<and> ref' = ref then None else posting tok' ref' root)"
proof (cases "tok = '''' \<or> tok' = ''''")
  case True
  then show ?thesis by (auto simp: posting_def getDocs_docs_at removeToken_def)
next
  case False
  have k: "kids (remove_ref ref nd) = kids nd" for nd :: "'a node" by (simp add: remove_ref_def)
  have "map_of (docs (remove_ref ref nd)) ref' = (if ref' = ref then None else map_of (docs nd) ref')" for nd :: "'a node"
    by (auto simp: remove_ref_def mdel_def delete_conv js_in_def mhas_def split: option.splits)
  then show ?thesis
    using False docs_at_update_at [of "remove_ref ref" tok' tok root, OF k]
    by (auto simp: posting_def getDocs_docs_at removeToken_def docs_at_def split: option.splits)
qed

lemma posting_adds:
  "distinct (map fst cs) \<Longrightarrow> tok \<noteq> '''' \<Longrightarrow>
   posting tok ref' (fold (\<lambda>(t, n) root. addToken t ref (g n) root) cs root) =
     (if ref' = ref \<and> tok \<in> fst ` set cs then map_option g (map_of cs tok) else posting tok ref' root)"
proof (induction cs arbitrary: root)
  case (Cons c cs)
  obtain t n where c: "c = (t, n)" by fastforce
  have "tok = t \<Longrightarrow> tok \<notin> fst ` set cs" using Cons.prems(1) c by auto
  then show ?case using Cons by (simp add: c posting_addToken) auto
qed simp

lemma posting_removes:
  "posting tok ref' (fold (\<lambda>t root. removeToken t ref root) ts root) =
     (if ref' = ref \<and> tok \<in> set ts then None else posting tok ref' root)"
  by (induction ts arbitrary: root) (auto simp: posting_removeToken)

section \<open>The trees of the fields\<close>

definition tree :: "('doc, 'tf) search_index \<Rightarrow> string \<Rightarrow> 'tf node" where
  "tree ix f = mget empty_node (ix_index ix) f"

definition on_tree :: "string \<Rightarrow> ('tf node \<Rightarrow> 'tf node) \<Rightarrow> ('doc, 'tf) search_index \<Rightarrow> ('doc, 'tf) search_index" where
  "on_tree f g ix = ix\<lparr>ix_index := mput f (g (mget empty_node (ix_index ix) f)) (ix_index ix)\<rparr>"

lemma tree_on_tree [simp]: "tree (on_tree f g ix) f' = (if f' = f then g (tree ix f) else tree ix f')"
  by (simp add: tree_def on_tree_def mget_def)

definition same_frame :: "('doc, 'tf) search_index \<Rightarrow> ('doc, 'tf) search_index \<Rightarrow> bool" where
  "same_frame ix ix' \<longleftrightarrow> ix_fields ix' = ix_fields ix \<and> ix_ref ix' = ix_ref ix \<and> ix_pipeline ix' = ix_pipeline ix"

lemma same_frame_trans: "same_frame a b \<Longrightarrow> same_frame b c \<Longrightarrow> same_frame a c"
  by (simp add: same_frame_def)

lemma same_frame_tokens:
  "same_frame ix ix' \<Longrightarrow> field_tokens stem stop field_of d f ix' = field_tokens stem stop field_of d f ix"
  by (simp add: same_frame_def field_tokens_def)

lemma fold_on_tree:
  "tree (fold (\<lambda>x. on_tree f (G x)) xs ix) f' = (if f' = f then fold G xs (tree ix f) else tree ix f') \<and>
   same_frame ix (fold (\<lambda>x. on_tree f (G x)) xs ix) \<and> ix_store (fold (\<lambda>x. on_tree f (G x)) xs ix) = ix_store ix"
proof (induction xs arbitrary: ix)
  case (Cons x xs)
  have "same_frame ix (on_tree f (G x) ix)" "ix_store (on_tree f (G x) ix) = ix_store ix"
    by (simp_all add: on_tree_def same_frame_def)
  then show ?case using Cons [of "on_tree f (G x) ix"] same_frame_trans by auto
qed (simp add: same_frame_def)

definition posted :: "(int option \<Rightarrow> 'tf) \<Rightarrow> string list \<Rightarrow> string \<Rightarrow> 'tf option" where
  "posted sqrt toks tok = map_option sqrt (map_of (count_tokens toks) tok)"

lemma count_tokens_distinct: "distinct (map fst (count_tokens toks))"
proof (induction toks rule: rev_induct)
  case (snoc t toks)
  then show ?case
    using gm.wf_put by (auto simp: count_tokens_snoc count_token_def wf_gomap_def split: option.split)
qed (simp add: count_tokens_def)

lemma count_tokens_keys: "tok \<in> fst ` set (count_tokens toks) \<longleftrightarrow> tok \<in> set toks"
  using count_tokens_lookup [of toks tok] map_of_eq_None_iff [of "count_tokens toks" tok] by (auto split: if_splits)

lemma posted_absent: "tok \<notin> set toks \<Longrightarrow> posted sqrt toks tok = None"
  by (simp add: posted_def count_tokens_lookup)

lemma addDoc_field_effect:
  assumes ix'_def: "ix' = addDoc_field stem stop sqrt field_of doc ref f ix"
  shows "tok \<noteq> '''' \<Longrightarrow> posting tok r (tree ix' f') =
      (if f' = f \<and> r = ref \<and> tok \<in> set (field_tokens stem stop field_of doc f ix)
       then posted sqrt (field_tokens stem stop field_of doc f ix) tok else posting tok r (tree ix f'))"
    and "same_frame ix ix'"
    and "ix_store ix' = addFieldLength ref f (int (length (field_tokens stem stop field_of doc f ix))) (ix_store ix)"
    and "tree ix' f' = (if f' = f then fold (\<lambda>(t, n) root. addToken t ref (sqrt n) root)
        (count_tokens (field_tokens stem stop field_of doc f ix)) (tree ix f) else tree ix f')"
proof -
  let ?toks = "field_tokens stem stop field_of doc f ix"
  define ix1 where "ix1 = ix\<lparr>ix_store := addFieldLength ref f (int (length ?toks)) (ix_store ix)\<rparr>"
  have step: "(\<lambda>(t, n) i. i\<lparr>ix_index := mput f (addToken t ref (sqrt n) (mget empty_node (ix_index i) f)) (ix_index i)\<rparr>) =
      (\<lambda>x. on_tree f ((\<lambda>(t, n) root. addToken t ref (sqrt n) root) x))"
    by (auto simp: fun_eq_iff on_tree_def)
  have ix': "ix' = fold (\<lambda>x. on_tree f ((\<lambda>(t, n) root. addToken t ref (sqrt n) root) x)) (count_tokens ?toks) ix1"
    unfolding ix'_def addDoc_field_def Let_def step ix1_def field_tokens_def ..
  have 1: "tree ix1 = tree ix" "same_frame ix ix1" by (simp_all add: ix1_def tree_def same_frame_def fun_eq_iff)
  note eff = fold_on_tree [of f "\<lambda>(t, n) root. addToken t ref (sqrt n) root" "count_tokens ?toks" ix1, folded ix']
  show "tok \<noteq> '''' \<Longrightarrow> posting tok r (tree ix' f') =
      (if f' = f \<and> r = ref \<and> tok \<in> set ?toks then posted sqrt ?toks tok else posting tok r (tree ix f'))"
    using eff by (simp add: 1 posting_adds [OF count_tokens_distinct] count_tokens_keys posted_def)
  show "same_frame ix ix'" "ix_store ix' = addFieldLength ref f (int (length ?toks)) (ix_store ix)"
    using eff 1(2) same_frame_trans by (blast, simp add: ix1_def)
  show "tree ix' f' = (if f' = f then fold (\<lambda>(t, n) root. addToken t ref (sqrt n) root) (count_tokens ?toks) (tree ix f)
      else tree ix f')" using eff by (simp add: 1)
qed

lemma removeDoc_field_effect:
  assumes ix'_def: "ix' = removeDoc_field stem stop field_of doc ref f ix"
  shows "posting tok r (tree ix' f') =
      (if f' = f \<and> r = ref \<and> tok \<in> set (field_tokens stem stop field_of doc f ix) then None else posting tok r (tree ix f'))"
    and "same_frame ix ix'" and "ix_store ix' = ix_store ix"
proof -
  let ?toks = "field_tokens stem stop field_of doc f ix"
  have step: "(\<lambda>t i. i\<lparr>ix_index := mput f (removeToken t ref (mget empty_node (ix_index i) f)) (ix_index i)\<rparr>) =
      (\<lambda>x. on_tree f ((\<lambda>t root. removeToken t ref root) x))"
    by (auto simp: fun_eq_iff on_tree_def)
  have ix': "ix' = fold (\<lambda>x. on_tree f ((\<lambda>t root. removeToken t ref root) x)) ?toks ix"
    unfolding ix'_def removeDoc_field_def step ..
  note eff = fold_on_tree [of f "\<lambda>t root. removeToken t ref root" ?toks ix, folded ix']
  then show "posting tok r (tree ix' f') =
      (if f' = f \<and> r = ref \<and> tok \<in> set ?toks then None else posting tok r (tree ix f'))"
    by (simp add: posting_removes)
  show "same_frame ix ix'" "ix_store ix' = ix_store ix" using eff by blast+
qed

lemma addDoc_fields_effect:
  assumes "tok \<noteq> ''''"
  shows "distinct fs \<Longrightarrow> ix' = fold (addDoc_field stem stop sqrt field_of doc ref) fs ix \<Longrightarrow>
    posting tok r (tree ix' f) =
      (if f \<in> set fs \<and> r = ref \<and> tok \<in> set (field_tokens stem stop field_of doc f ix)
       then posted sqrt (field_tokens stem stop field_of doc f ix) tok else posting tok r (tree ix f)) \<and>
    same_frame ix ix'"
proof (induction fs arbitrary: ix)
  case (Cons g fs)
  define ix1 where "ix1 = addDoc_field stem stop sqrt field_of doc ref g ix"
  have s: "same_frame ix ix1" by (rule addDoc_field_effect(2) [OF ix1_def])
  have "distinct fs" "ix' = fold (addDoc_field stem stop sqrt field_of doc ref) fs ix1"
    using Cons.prems unfolding ix1_def by (simp_all only: fold_simps distinct.simps simp_thms)
  note eff = Cons.IH [OF this, unfolded same_frame_tokens [OF s] addDoc_field_effect(1) [OF ix1_def assms]]
  have "same_frame ix ix'" using s conjunct2 [OF eff] by (rule same_frame_trans)
  then show ?case using Cons.prems(1) conjunct1 [OF eff] by (cases "f = g") simp_all
qed (simp add: same_frame_def)

lemma removeDoc_fields_effect:
  "distinct fs \<Longrightarrow> ix' = fold (removeDoc_field stem stop field_of doc ref) fs ix \<Longrightarrow>
    posting tok r (tree ix' f) =
      (if f \<in> set fs \<and> r = ref \<and> tok \<in> set (field_tokens stem stop field_of doc f ix) then None
       else posting tok r (tree ix f)) \<and>
    same_frame ix ix' \<and> ix_store ix' = ix_store ix"
proof (induction fs arbitrary: ix)
  case (Cons g fs)
  define ix1 where "ix1 = removeDoc_field stem stop field_of doc ref g ix"
  have s: "same_frame ix ix1" "ix_store ix1 = ix_store ix" by (rule removeDoc_field_effect(2,3) [OF ix1_def])+
  have "distinct fs" "ix' = fold (removeDoc_field stem stop field_of doc ref) fs ix1"
    using Cons.prems unfolding ix1_def by (simp_all only: fold_simps distinct.simps simp_thms)
  note eff = Cons.IH [OF this, unfolded same_frame_tokens [OF s(1)] removeDoc_field_effect(1) [OF ix1_def] s(2)]
  have "same_frame ix ix'" using s(1) conjunct1 [OF conjunct2 [OF eff]] by (rule same_frame_trans)
  then show ?case using Cons.prems(1) eff by (cases "f = g") simp_all
qed (simp add: same_frame_def)

definition same_docs :: "'doc doc_store \<Rightarrow> 'doc doc_store \<Rightarrow> bool" where
  "same_docs st st' \<longleftrightarrow> ds_docs st' = ds_docs st \<and> ds_length st' = ds_length st \<and> ds_save st' = ds_save st"

lemma addDoc_fields_store: "same_docs (ix_store ix) (ix_store (fold (addDoc_field stem stop sqrt field_of doc ref) fs ix))"
proof (induction fs arbitrary: ix)
  case (Cons f fs)
  have "same_docs (ix_store ix) (ix_store (addDoc_field stem stop sqrt field_of doc ref f ix))"
    unfolding addDoc_field_effect(3) [OF refl] by (simp add: addFieldLength_def same_docs_def)
  then show ?case using Cons [of "addDoc_field stem stop sqrt field_of doc ref f ix"] by (simp add: same_docs_def)
qed (simp add: same_docs_def)

section \<open>The index as a map of documents\<close>

text \<open>The contract of a collection of documents under their keys.\<close>

locale document_map =
  fixes put :: "'d \<Rightarrow> 's \<Rightarrow> 's" and remove :: "'k \<Rightarrow> 's \<Rightarrow> 's" and key :: "'d \<Rightarrow> 'k" and ok :: "'k \<Rightarrow> bool"
    and inv :: "'s \<Rightarrow> bool" and abs :: "'s \<Rightarrow> 'k \<Rightarrow> 'd option"
  assumes put: "inv s \<Longrightarrow> ok (key d) \<Longrightarrow> inv (put d s) \<and> abs (put d s) = (abs s)(key d \<mapsto> d)"
    and remove: "inv s \<Longrightarrow> ok k \<Longrightarrow> inv (remove k s) \<and> abs (remove k s) = (abs s)(k := None)"
begin

lemma put_all:
  "inv s \<Longrightarrow> \<forall>d\<in>set ds. ok (key d) \<Longrightarrow>
   inv (fold put ds s) \<and> abs (fold put ds s) = fold (\<lambda>d m. m(key d \<mapsto> d)) ds (abs s)"
proof (induction ds arbitrary: s)
  case (Cons d ds)
  then show ?case using put [of s d] by (simp add: fun_upd_def)
qed simp

lemma put_remove:
  "inv s \<Longrightarrow> ok (key d) \<Longrightarrow> abs s (key d) = None \<Longrightarrow> abs (remove (key d) (put d s)) = abs s"
  using put [of s d] remove [of "put d s" "key d"] by (auto simp: fun_eq_iff)

end

definition documents :: "('doc, 'tf) search_index \<Rightarrow> string \<Rightarrow> 'doc option" where
  "documents ix r = getDoc r (ix_store ix)"

definition usable :: "string \<Rightarrow> bool" where
  "usable r \<longleftrightarrow> r \<noteq> '''' \<and> \<not> inherited r"

definition store_inv :: "('doc \<Rightarrow> string) \<Rightarrow> 'doc doc_store \<Rightarrow> bool" where
  "store_inv key st \<longleftrightarrow>
     ds_save st \<and> wf_gomap (ds_docs st) \<and> ds_length st = int (length (ds_docs st)) \<and>
     (\<forall>r d. map_of (ds_docs st) r = Some d \<longrightarrow> usable r \<and> (\<exists>doc. d = Some doc \<and> key doc = r))"

definition postings_inv ::
    "(string \<Rightarrow> string) \<Rightarrow> (string \<Rightarrow> bool) \<Rightarrow> (int option \<Rightarrow> 'tf) \<Rightarrow> ('doc \<Rightarrow> string \<Rightarrow> string option) \<Rightarrow>
     ('doc, 'tf) search_index \<Rightarrow> bool" where
  "postings_inv stem stop sqrt field_of ix \<longleftrightarrow>
     (\<forall>f\<in>set (ix_fields ix). \<forall>tok. tok \<noteq> '''' \<longrightarrow> (\<forall>r. posting tok r (tree ix f) =
        (case documents ix r of None \<Rightarrow> None | Some d \<Rightarrow> posted sqrt (field_tokens stem stop field_of d f ix) tok)))"

definition index_inv ::
    "(string \<Rightarrow> string) \<Rightarrow> (string \<Rightarrow> bool) \<Rightarrow> (int option \<Rightarrow> 'tf) \<Rightarrow> ('doc \<Rightarrow> string \<Rightarrow> string option) \<Rightarrow> ('doc \<Rightarrow> string) \<Rightarrow>
     string \<Rightarrow> ('doc, 'tf) search_index \<Rightarrow> bool" where
  "index_inv stem stop sqrt field_of key ref ix \<longleftrightarrow>
     distinct (ix_fields ix) \<and> ix_ref ix = ref \<and> store_inv key (ix_store ix) \<and> postings_inv stem stop sqrt field_of ix"

text \<open>The keys of the documents: the reference field, as text.\<close>

definition ref_key :: "('doc \<Rightarrow> string \<Rightarrow> string option) \<Rightarrow> string \<Rightarrow> 'doc \<Rightarrow> string" where
  "ref_key field_of ref d = (case field_of d ref of None \<Rightarrow> ''undefined'' | Some r \<Rightarrow> r)"

lemma store_addDoc_inv:
  assumes "store_inv key st" "usable (key d)"
  shows "store_inv key (store_addDoc (key d) d st) \<and> (\<lambda>r. getDoc r (store_addDoc (key d) d st)) = (\<lambda>r. getDoc r st)(key d \<mapsto> d)"
  using assms
  by (auto simp: store_inv_def store_addDoc_def getDoc_def hasDoc_def js_in_def usable_def fun_eq_iff Let_def gm.wf_put
      length_mput_new length_mput_old split: if_splits)

lemma store_removeDoc_inv:
  assumes "store_inv key st" "usable r"
  shows "store_inv key (store_removeDoc r st) \<and> (\<lambda>x. getDoc x (store_removeDoc r st)) = (\<lambda>x. getDoc x st)(r := None)"
proof -
  have "wf_gomap (mdel r m)" if "wf_gomap m" for m :: "(string, 'a option) gomap"
    using that by (simp add: wf_gomap_def mdel_def distinct_delete)
  then show ?thesis
    using assms length_mdel [of "ds_docs st" r]
    by (auto simp: store_inv_def store_removeDoc_def getDoc_def hasDoc_def js_in_def usable_def fun_eq_iff mdel_def delete_conv
        mhas_def split: if_splits option.splits)
qed

lemma same_docs_inv:
  "same_docs st st' \<Longrightarrow> store_inv key st' = store_inv key st \<and> getDoc r st' = getDoc r st"
  by (simp add: same_docs_def store_inv_def getDoc_def)

lemma index_addDoc_inv:
  assumes inv: "index_inv stem stop sqrt field_of (ref_key field_of ref) ref ix"
    and k: "k = ref_key field_of ref d" "usable k" "documents ix k = None"
  defines "ix' \<equiv> index_addDoc stem stop sqrt field_of d ix"
  shows "index_inv stem stop sqrt field_of (ref_key field_of ref) ref ix' \<and> documents ix' = (documents ix)(k \<mapsto> d)"
proof -
  note I = inv [unfolded index_inv_def postings_inv_def]
  define ix1 where "ix1 = ix\<lparr>ix_store := store_addDoc k d (ix_store ix)\<rparr>"
  have ix': "ix' = fold (addDoc_field stem stop sqrt field_of d k) (ix_fields ix) ix1"
    using I k(1) by (simp add: ix'_def index_addDoc_def ix1_def ref_key_def Let_def)
  have 1: "same_frame ix ix1" "tree ix1 = tree ix" by (simp_all add: ix1_def same_frame_def tree_def fun_eq_iff)
  have eff: "posting tok r (tree ix' f) =
      (if f \<in> set (ix_fields ix) \<and> r = k \<and> tok \<in> set (field_tokens stem stop field_of d f ix)
       then posted sqrt (field_tokens stem stop field_of d f ix) tok else posting tok r (tree ix f)) \<and> same_frame ix1 ix'"
    if "tok \<noteq> ''''" for tok r f
    using addDoc_fields_effect [OF that _ ix', of r f] I unfolding same_frame_tokens [OF 1(1)] 1(2) by blast
  have fr: "same_frame ix ix'" using same_frame_trans [OF 1(1)] eff [of "''a''"] by blast
  have st: "store_inv (ref_key field_of ref) (ix_store ix1)" "documents ix1 = (documents ix)(k \<mapsto> d)"
    using store_addDoc_inv [of "ref_key field_of ref" "ix_store ix" d] I k by (auto simp: ix1_def documents_def fun_eq_iff)
  have same: "same_docs (ix_store ix1) (ix_store ix')" unfolding ix' by (rule addDoc_fields_store)
  have docs: "documents ix' = (documents ix)(k \<mapsto> d)"
    using same_docs_inv [OF same] st(2) by (simp add: documents_def fun_eq_iff)
  have "posting tok r (tree ix' f) =
      (case documents ix' r of None \<Rightarrow> None | Some d \<Rightarrow> posted sqrt (field_tokens stem stop field_of d f ix') tok)"
    if "f \<in> set (ix_fields ix)" "tok \<noteq> ''''" for f tok r
    using eff [OF that(2), of r f] that I k(3) unfolding docs same_frame_tokens [OF fr] by (auto simp: posted_absent)
  then show ?thesis
    using I fr docs same_docs_inv [OF same] st(1) by (simp add: index_inv_def postings_inv_def same_frame_def)
qed

lemma index_removeDoc_inv:
  assumes inv: "index_inv stem stop sqrt field_of (ref_key field_of ref) ref ix" and d: "documents ix k = Some d"
  defines "ix' \<equiv> index_removeDoc stem stop field_of d ix"
  shows "index_inv stem stop sqrt field_of (ref_key field_of ref) ref ix' \<and> documents ix' = (documents ix)(k := None)"
proof -
  note I = inv [unfolded index_inv_def postings_inv_def]
  have k: "ref_key field_of ref d = k" "usable k" "hasDoc k (ix_store ix)"
    using d I by (auto simp: documents_def getDoc_def store_inv_def hasDoc_def js_in_def mhas_def split: option.splits)
  define ix1 where "ix1 = ix\<lparr>ix_store := store_removeDoc k (ix_store ix)\<rparr>"
  have ix': "ix' = fold (removeDoc_field stem stop field_of d k) (ix_fields ix) ix1"
    using I k(1,3) by (simp add: ix'_def index_removeDoc_def ix1_def doc_ref_def ref_key_def Let_def)
  have 1: "same_frame ix ix1" "tree ix1 = tree ix" by (simp_all add: ix1_def same_frame_def tree_def fun_eq_iff)
  have eff: "posting tok r (tree ix' f) =
      (if f \<in> set (ix_fields ix) \<and> r = k \<and> tok \<in> set (field_tokens stem stop field_of d f ix) then None
       else posting tok r (tree ix f)) \<and> same_frame ix1 ix' \<and> ix_store ix' = ix_store ix1" for tok r f
    using removeDoc_fields_effect [OF _ ix', of tok r f] I unfolding same_frame_tokens [OF 1(1)] 1(2) by blast
  have fr: "same_frame ix ix'" using same_frame_trans [OF 1(1)] eff by blast
  have st: "store_inv (ref_key field_of ref) (ix_store ix')" "documents ix' = (documents ix)(k := None)"
    using store_removeDoc_inv [of "ref_key field_of ref" "ix_store ix" k] I k eff
    by (auto simp: ix1_def documents_def fun_eq_iff)
  have "posting tok r (tree ix' f) =
      (case documents ix' r of None \<Rightarrow> None | Some d \<Rightarrow> posted sqrt (field_tokens stem stop field_of d f ix') tok)"
    if "f \<in> set (ix_fields ix)" "tok \<noteq> ''''" for f tok r
    using eff [of tok r f] that I d unfolding st(2) same_frame_tokens [OF fr] by (auto simp: posted_absent)
  then show ?thesis using I fr st by (simp add: index_inv_def postings_inv_def same_frame_def)
qed

lemma removeDocByRef_inv:
  assumes inv: "index_inv stem stop sqrt field_of (ref_key field_of ref) ref ix" and k: "usable k"
  shows "index_inv stem stop sqrt field_of (ref_key field_of ref) ref (removeDocByRef stem stop field_of (Some k) ix) \<and>
    documents (removeDocByRef stem stop field_of (Some k) ix) = (documents ix)(k := None)"
proof (cases "documents ix k")
  case None
  then have "\<not> mhas (ds_docs (ix_store ix)) k"
    using inv by (auto simp: index_inv_def store_inv_def documents_def getDoc_def mhas_def split: option.splits)
  then have "removeDocByRef stem stop field_of (Some k) ix = ix"
    using k by (simp add: removeDocByRef_def hasDoc_def js_in_def usable_def)
  then show ?thesis using inv None by (simp add: fun_upd_idem)
next
  case (Some d)
  then have "removeDocByRef stem stop field_of (Some k) ix = index_removeDoc stem stop field_of d ix"
    using k inv
    by (auto simp: removeDocByRef_def documents_def getDoc_def hasDoc_def js_in_def mhas_def usable_def isDocStored_def index_inv_def
        store_inv_def split: option.splits)
  then show ?thesis using index_removeDoc_inv [OF inv Some] by simp
qed

lemma updateDoc_inv:
  assumes inv: "index_inv stem stop sqrt field_of (ref_key field_of ref) ref ix" and k: "usable (ref_key field_of ref d)"
    "ref_key field_of ref d \<noteq> ''undefined''"
  shows "index_inv stem stop sqrt field_of (ref_key field_of ref) ref (updateDoc stem stop sqrt field_of d ix) \<and>
    documents (updateDoc stem stop sqrt field_of d ix) = (documents ix)(ref_key field_of ref d \<mapsto> d)"
proof -
  define k where "k = ref_key field_of ref d"
  have r: "field_of d (ix_ref ix) = Some k"
    using inv k(2) by (auto simp: k_def ref_key_def index_inv_def split: option.splits)
  define ix1 where "ix1 = removeDocByRef stem stop field_of (Some k) ix"
  have "index_inv stem stop sqrt field_of (ref_key field_of ref) ref ix1" "documents ix1 = (documents ix)(k := None)"
    unfolding ix1_def using removeDocByRef_inv [OF inv] k(1) k_def by blast+
  then show ?thesis
    using index_addDoc_inv [OF _ k_def, of stem stop sqrt ix1] k(1) by (simp add: updateDoc_def r ix1_def k_def)
qed

text \<open>A key that can be used and is not the text of an absent field.\<close>

definition proper :: "string \<Rightarrow> bool" where
  "proper k \<longleftrightarrow> usable k \<and> k \<noteq> ''undefined''"

interpretation site_docs: document_map "updateDoc stem stop sqrt field_of" "\<lambda>k. removeDocByRef stem stop field_of (Some k)"
    "ref_key field_of ref" proper "index_inv stem stop sqrt field_of (ref_key field_of ref) ref" documents
  for stem stop sqrt field_of ref
  by unfold_locales (simp_all add: proper_def updateDoc_inv removeDocByRef_inv)

lemma index_inv_empty:
  "index_inv stem stop sqrt field_of (ref_key field_of ''fullname'') ''fullname'' (build_index stem stop sqrt field_of [])"
proof -
  have "tree (build_index stem stop sqrt field_of []) f = empty_node" for f
    by (simp add: tree_def build_index_def addField_def setRef_def new_index_def search_fields_def Let_def mget_def)
  moreover have "documents (build_index stem stop sqrt field_of []) r = None" for r
    by (simp add: documents_def getDoc_def build_index_def addField_def setRef_def new_index_def search_fields_def Let_def)
  moreover have "store_inv key (ix_store (build_index stem stop sqrt field_of []))" for key
    by (simp add: store_inv_def wf_gomap_def build_index_def addField_def setRef_def new_index_def search_fields_def Let_def)
  ultimately show ?thesis
    by (simp add: index_inv_def postings_inv_def build_index_config posting_def getDocs_docs_at) (simp add: search_fields_def)
qed

section \<open>Property\<close>

text \<open>C8: A search index is a map from references to documents. Updating a document sets it at its
  reference, and removing by reference takes it out, whatever was stored before; adding a document
  under a new reference sets it too. At any time the frequencies in the inverted index are those of
  the tokens of the stored documents and of no others, and the store counts its documents. The
  references are not empty, not \<open>undefined\<close> and not property names of \<open>Object.prototype\<close>.\<close>
theorem index_refines_document_map:
  assumes "index_inv stem stop sqrt field_of (ref_key field_of ref) ref ix" and "proper (ref_key field_of ref d)" and "proper k"
  shows "index_inv stem stop sqrt field_of (ref_key field_of ref) ref (updateDoc stem stop sqrt field_of d ix) \<and>
    documents (updateDoc stem stop sqrt field_of d ix) = (documents ix)(ref_key field_of ref d \<mapsto> d) \<and>
    index_inv stem stop sqrt field_of (ref_key field_of ref) ref (removeDocByRef stem stop field_of (Some k) ix) \<and>
    documents (removeDocByRef stem stop field_of (Some k) ix) = (documents ix)(k := None) \<and>
    (documents ix (ref_key field_of ref d) = None \<longrightarrow>
      index_inv stem stop sqrt field_of (ref_key field_of ref) ref (index_addDoc stem stop sqrt field_of d ix) \<and>
      documents (index_addDoc stem stop sqrt field_of d ix) = (documents ix)(ref_key field_of ref d \<mapsto> d))"
  using site_docs.put [OF assms(1,2)] site_docs.remove [OF assms(1,3)] index_addDoc_inv [OF assms(1) refl] assms(2)
  by (auto simp: proper_def)

theorem index_refines_document_map_witness:
  "let field_of = (\<lambda>(d :: string) f. if f = ''fullname'' then Some d else None);
       ix = build_index id (\<lambda>_. False) id field_of []
   in documents (updateDoc id (\<lambda>_. False) id field_of ''dag.task'' ix) ''dag.task'' = Some ''dag.task''"
proof -
  let ?f = "\<lambda>(d :: string) f. if f = ''fullname'' then Some d else None"
  have "proper (ref_key ?f ''fullname'' ''dag.task'')" "ref_key ?f ''fullname'' ''dag.task'' = ''dag.task''"
    by (simp_all add: proper_def usable_def ref_key_def inherited_def object_prototype_keys_def)
  then show ?thesis
    using index_refines_document_map [OF index_inv_empty [of id "\<lambda>_. False" id ?f], of "''dag.task''" "''dag.task''"]
    by (simp add: Let_def)
qed

end
