(* ===== verification/SiteQuery.thy ===== *)
theory SiteQuery
  imports Complex_Main SiteDocuments "HOL-Library.Multiset"
begin

text \<open>
  \<open>website/static/python-api/search.js\<close>, line 2: searching an index (\<open>Index.search\<close>, \<open>fieldSearch\<close>,
  \<open>mergeScores\<close>, \<open>fieldSearchStats\<close>, \<open>coordNorm\<close>, \<open>idf\<close>, \<open>DocumentStore.getFieldLength\<close>), with
  the configuration the page uses.

  Scores are numbers of an ordered field, so the rounding of floating point is left out; the square
  trie and the logarithm are parameters. A score that is not a number is \<open>None\<close>: it comes from
  adding to an inherited property of an object. The outer \<open>None\<close> of a search is an exception.
  \<open>idf\<close> is computed and not cached. Field names are not property names of \<open>Object.prototype\<close>.
\<close>

section \<open>Scores\<close>

text \<open>The order in which JavaScript enumerates the keys of an object: array indices, ascending, then
  the other keys as they were inserted.\<close>

definition digit_value :: "char \<Rightarrow> int" where
  "digit_value c = of_char c - 48"

definition key_number :: "string \<Rightarrow> int" where
  "key_number k = fold (\<lambda>c n. 10 * n + digit_value c) k 0"

definition array_index :: "string \<Rightarrow> bool" where
  "array_index k \<longleftrightarrow>
     k \<noteq> '''' \<and> (\<forall>c\<in>set k. is_digit c) \<and> (hd k \<noteq> CHR ''0'' \<or> k = ''0'') \<and> key_number k < 4294967295"

definition enumerate_object :: "(string, 'v) gomap \<Rightarrow> (string, 'v) gomap" where
  "enumerate_object m =
     sort_key (\<lambda>kv. key_number (fst kv)) (filter (\<lambda>kv. array_index (fst kv)) m) @ filter (\<lambda>kv. \<not> array_index (fst kv)) m"

type_synonym 'n scores = "(string, 'n option) gomap"

fun plus_score :: "'n::linordered_field option \<Rightarrow> 'n option \<Rightarrow> 'n option" where
  "plus_score (Some a) (Some b) = Some (a + b)"
| "plus_score _ _ = None"

text \<open>\<open>c in r ? r[c] += v : r[c] = v\<close>\<close>

definition add_score :: "string \<Rightarrow> 'n::linordered_field option \<Rightarrow> 'n scores \<Rightarrow> 'n scores" where
  "add_score c v r =
     (case map_of r c of
        Some x \<Rightarrow> mput c (plus_score x v) r
      | None \<Rightarrow> if inherited c then mput c None r else mput c v r)"

definition merge_and :: "'n::linordered_field scores \<Rightarrow> 'n scores \<Rightarrow> 'n scores" where
  "merge_and e t =
     fold (\<lambda>(c, v) r. if js_in c e then mput c (plus_score (mget None e c) v) r else r) (enumerate_object t) []"

definition mergeScores :: "'n::linordered_field scores option \<Rightarrow> 'n scores \<Rightarrow> string \<Rightarrow> 'n scores" where
  "mergeScores e t bool =
     (case e of
        None \<Rightarrow> t
      | Some e \<Rightarrow> if bool = ''AND'' then merge_and e t else fold (\<lambda>(c, v). add_score c v) (enumerate_object t) e)"

text \<open>A loop that may throw.\<close>

fun fold_throw :: "('a \<Rightarrow> 's \<Rightarrow> 's option) \<Rightarrow> 'a list \<Rightarrow> 's \<Rightarrow> 's option" where
  "fold_throw f [] s = Some s"
| "fold_throw f (x # xs) s = (case f x s of None \<Rightarrow> None | Some s' \<Rightarrow> fold_throw f xs s')"

text \<open>The matched tokens of each document. An inherited property has no method \<open>push\<close>.\<close>

definition fieldSearchStats ::
    "(string, string list) gomap \<Rightarrow> string \<Rightarrow> string list \<Rightarrow> (string, string list) gomap option" where
  "fieldSearchStats u tok refs =
     fold_throw (\<lambda>c u. case map_of u c of
                         Some ts \<Rightarrow> Some (mput c (ts @ [tok]) u)
                       | None \<Rightarrow> if inherited c then None else Some (mput c [tok] u)) refs u"

definition coordNorm :: "'n::linordered_field scores option \<Rightarrow> (string, string list) gomap \<Rightarrow> nat \<Rightarrow> 'n scores option" where
  "coordNorm e u n =
     map_option (map (\<lambda>(c, v). (c, case map_of u c of
                                     None \<Rightarrow> v
                                   | Some ts \<Rightarrow> map_option (\<lambda>x. x * of_nat (length ts) / of_nat n) v))) e"

section \<open>Searching a field\<close>

definition getFieldLength :: "string \<Rightarrow> string \<Rightarrow> 'doc doc_store \<Rightarrow> int option" where
  "getFieldLength ref field st =
     (if hasDoc ref st then
        (case map_of (ds_docInfo st) ref of
           Some m \<Rightarrow> Some (mget 0 m field)
         | None \<Rightarrow> if inherited ref then Some 0 else None)
      else Some 0)"

definition idf :: "('n::linordered_field \<Rightarrow> 'n) \<Rightarrow> string \<Rightarrow> string \<Rightarrow> ('doc, 'n) search_index \<Rightarrow> 'n" where
  "idf log_of tok f ix = 1 + log_of (of_int (ds_length (ix_store ix)) / (of_int (getDocFreq tok (tree ix f)) + 1))"

definition penalty :: "string \<Rightarrow> string \<Rightarrow> 'n::linordered_field" where
  "penalty n e =
     (if n \<noteq> e then 15 / 100 * (1 - (of_nat (length n) - of_nat (length e)) / of_nat (length n)) else 1)"

definition score_doc ::
    "('n::linordered_field \<Rightarrow> 'n) \<Rightarrow> ('n \<Rightarrow> 'n) \<Rightarrow> ('doc, 'n) search_index \<Rightarrow> string \<Rightarrow> string \<Rightarrow> string \<Rightarrow>
     string \<Rightarrow> 'n scores \<Rightarrow> 'n scores option" where
  "score_doc root_of log_of ix f e n c r =
     (case getFieldLength c f (ix_store ix) of
        None \<Rightarrow> None
      | Some len \<Rightarrow>
          (let d = getTermFrequency 0 n c (tree ix f);
               h = (if len \<noteq> 0 then 1 / root_of (of_int len) else 1)
           in Some (add_score c (map_option (\<lambda>d. d * idf log_of n f ix * h * penalty n e) d) r)))"

text \<open>The documents of an expanded token, restricted to those found so far if the tokens are joined by
  \<open>AND\<close>.\<close>

definition matched_docs :: "'n scores option \<Rightarrow> string \<Rightarrow> (string, 'tf) gomap \<Rightarrow> string list" where
  "matched_docs s bool ds =
     (case s of
        Some sc \<Rightarrow> if bool = ''AND'' then filter (\<lambda>c. js_in c ds) (map fst (enumerate_object sc))
                   else map fst (enumerate_object ds)
      | None \<Rightarrow> map fst (enumerate_object ds))"

definition search_token ::
    "('n::linordered_field \<Rightarrow> 'n) \<Rightarrow> ('n \<Rightarrow> 'n) \<Rightarrow> ('doc, 'n) search_index \<Rightarrow> string \<Rightarrow> field_config \<Rightarrow> string \<Rightarrow>
     'n scores option \<times> (string, string list) gomap \<Rightarrow> ('n scores option \<times> (string, string list) gomap) option" where
  "search_token root_of log_of ix f cfg e su =
     (case su of (s, u) \<Rightarrow>
        (let ns = (if fc_expand cfg then expandToken e (tree ix f) else [e]);
             visit = (\<lambda>n (r, u).
               let refs = matched_docs s (fc_bool cfg) (getDocs n (tree ix f)) in
               case (if n = e then fieldSearchStats u n refs else Some u) of
                 None \<Rightarrow> None
               | Some u' \<Rightarrow> map_option (\<lambda>r'. (r', u')) (fold_throw (score_doc root_of log_of ix f e n) refs r))
         in map_option (\<lambda>(r, u'). (Some (mergeScores s r (fc_bool cfg)), u')) (fold_throw visit ns ([], u))))"

definition fieldSearch ::
    "('n::linordered_field \<Rightarrow> 'n) \<Rightarrow> ('n \<Rightarrow> 'n) \<Rightarrow> ('doc, 'n) search_index \<Rightarrow> string list \<Rightarrow> string \<Rightarrow> field_config \<Rightarrow>
     'n scores option option" where
  "fieldSearch root_of log_of ix toks f cfg =
     (if fc_boost cfg \<noteq> 0 then
        map_option (\<lambda>(s, u). coordNorm s u (length toks)) (fold_throw (search_token root_of log_of ix f cfg) toks (None, []))
      else Some None)"

section \<open>Searching the index\<close>

record ('doc, 'n) hit =
  hit_ref :: string
  hit_score :: "'n option"
  hit_doc :: "'doc option"

text \<open>\<open>Array.sort\<close> with the difference of the scores: stable and descending; an element whose score is not
  a number compares equal with every other.\<close>

definition score_less :: "'n::linordered_field option \<Rightarrow> 'n option \<Rightarrow> bool" where
  "score_less a b = (case (a, b) of (Some x, Some y) \<Rightarrow> x < y | _ \<Rightarrow> False)"

fun insert_hit :: "('doc, 'n::linordered_field) hit \<Rightarrow> ('doc, 'n) hit list \<Rightarrow> ('doc, 'n) hit list" where
  "insert_hit h [] = [h]"
| "insert_hit h (x # xs) = (if score_less (hit_score x) (hit_score h) then h # x # xs else x # insert_hit h xs)"

definition sort_hits :: "('doc, 'n::linordered_field) hit list \<Rightarrow> ('doc, 'n) hit list" where
  "sort_hits hs = fold insert_hit hs []"

definition add_field ::
    "('n::linordered_field \<Rightarrow> 'n) \<Rightarrow> ('n \<Rightarrow> 'n) \<Rightarrow> ('doc, 'n) search_index \<Rightarrow> string list \<Rightarrow> string \<times> field_config \<Rightarrow>
     'n scores \<Rightarrow> 'n scores option" where
  "add_field root_of log_of ix toks fc l =
     (case fieldSearch root_of log_of ix toks (fst fc) (snd fc) of
        None \<Rightarrow> None
      | Some None \<Rightarrow> Some l
      | Some (Some s) \<Rightarrow>
          Some (fold (\<lambda>(c, v). add_score c (map_option (\<lambda>x. x * of_int (fc_boost (snd fc))) v)) (enumerate_object s) l))"

definition search ::
    "(string \<Rightarrow> string) \<Rightarrow> (string \<Rightarrow> bool) \<Rightarrow> ('n::linordered_field \<Rightarrow> 'n) \<Rightarrow> ('n \<Rightarrow> 'n) \<Rightarrow> ('doc, 'n) search_index \<Rightarrow> string \<Rightarrow>
     ('doc, 'n) hit list option" where
  "search stem stop root_of log_of ix term =
     (if term = '''' then Some []
      else
        map_option (\<lambda>l. sort_hits (map (\<lambda>(c, v). \<lparr>hit_ref = c, hit_score = v,
            hit_doc = (if hasDoc c (ix_store ix) then getDoc c (ix_store ix) else None)\<rparr>) (enumerate_object l)))
          (fold_throw (add_field root_of log_of ix (query_tokens stem stop ix term)) (enumerate_object (search_config ix)) []))"

section \<open>The keys of scores\<close>

lemma set_enumerate [simp]: "set (enumerate_object m) = set m"
  by (auto simp: enumerate_object_def)

lemma distinct_enumerate: "wf_gomap m \<Longrightarrow> distinct (map fst (enumerate_object m))"
proof -
  assume "wf_gomap m"
  then have "distinct (map fst (filter P m))" for P by (simp add: wf_gomap_def distinct_map_filter)
  moreover have "distinct (map fst (sort_key k xs)) = distinct (map fst xs)" for k :: "string \<times> 'a \<Rightarrow> int" and xs
    by (metis mset_map mset_sort mset_eq_imp_distinct_iff)
  ultimately show ?thesis by (auto simp: enumerate_object_def)
qed

definition scored :: "'n scores \<Rightarrow> string set" where
  "scored r = dom (map_of r)"

text \<open>Every score is a number and belongs to an ordinary key.\<close>

definition numeric :: "'n scores \<Rightarrow> bool" where
  "numeric r \<longleftrightarrow> wf_gomap r \<and> (\<forall>c v. map_of r c = Some v \<longrightarrow> v \<noteq> None \<and> \<not> inherited c)"

lemma numeric_Nil [simp]: "numeric []" "scored [] = {}"
  by (simp_all add: numeric_def wf_gomap_def scored_def)

lemma numeric_entry: "numeric r \<Longrightarrow> (c, v) \<in> set r \<Longrightarrow> v \<noteq> None \<and> \<not> inherited c"
  by (auto simp: numeric_def wf_gomap_def)

lemma numeric_add:
  assumes "numeric r" "\<not> inherited c" "v \<noteq> None"
  shows "numeric (add_score c v r) \<and> scored (add_score c v r) = insert c (scored r)"
proof -
  have "plus_score x v \<noteq> None" if "x \<noteq> None" for x using that assms(3) by auto
  then show ?thesis
    using assms by (auto simp: numeric_def scored_def add_score_def gm.wf_put simp del: not_None_eq split: option.splits if_splits)
qed

lemma numeric_adds:
  "numeric r \<Longrightarrow> \<forall>(c, v)\<in>set xs. \<not> inherited c \<and> g v \<noteq> None \<Longrightarrow>
   numeric (fold (\<lambda>(c, v). add_score c (g v)) xs r) \<and> scored (fold (\<lambda>(c, v). add_score c (g v)) xs r) = scored r \<union> fst ` set xs"
proof (induction xs arbitrary: r)
  case (Cons x xs)
  obtain c v where x: "x = (c, v)" by fastforce
  have a: "numeric (add_score c (g v) r)" "scored (add_score c (g v) r) = insert c (scored r)"
    using numeric_add [of r c "g v"] Cons.prems by (simp_all add: x)
  then show ?case using Cons.IH [OF a(1)] Cons.prems(2) by (simp add: x)
qed simp

lemma scored_fst: "scored r = fst ` set r"
  by (simp add: scored_def dom_map_of_conv_image_fst)

lemma numeric_mergeScores:
  assumes "case s of None \<Rightarrow> True | Some s \<Rightarrow> numeric s" "numeric r" "b \<noteq> ''AND''"
  shows "numeric (mergeScores s r b) \<and> scored (mergeScores s r b) = (case s of None \<Rightarrow> {} | Some s \<Rightarrow> scored s) \<union> scored r"
proof (cases s)
  case (Some e)
  have "\<forall>(c, v)\<in>set (enumerate_object r). \<not> inherited c \<and> v \<noteq> None" using assms(2) numeric_entry by auto
  then show ?thesis
    using numeric_adds [of e "enumerate_object r" "\<lambda>v. v"] assms Some by (simp add: mergeScores_def scored_fst)
qed (use assms in \<open>simp add: mergeScores_def\<close>)

text \<open>A loop whose steps all return: it returns, keeps the invariant and collects what the steps add.\<close>

lemma fold_throw_collects:
  assumes "\<And>x s. x \<in> set xs \<Longrightarrow> I s \<Longrightarrow> \<exists>s'. f x s = Some s' \<and> I s' \<and> K s' = K s \<union> g x"
  shows "I s \<Longrightarrow> \<exists>s'. fold_throw f xs s = Some s' \<and> I s' \<and> K s' = K s \<union> \<Union> (g ` set xs)"
  using assms
proof (induction xs arbitrary: s)
  case (Cons x xs)
  obtain s1 where s1: "f x s = Some s1" "I s1" "K s1 = K s \<union> g x" using Cons.prems(1) Cons.prems(2) [of x s] by auto
  have "\<exists>s'. fold_throw f xs s1 = Some s' \<and> I s' \<and> K s' = K s1 \<union> \<Union> (g ` set xs)"
    using Cons.prems(2) by (intro Cons.IH s1) auto
  then show ?case using s1 by (auto simp: Un_assoc)
qed simp

lemma fieldSearchStats_returns:
  "\<forall>c\<in>set refs. \<not> inherited c \<Longrightarrow> \<exists>u'. fieldSearchStats u tok refs = Some u'"
  unfolding fieldSearchStats_def by (induction refs arbitrary: u) (auto split: option.split)

section \<open>What a search finds\<close>

text \<open>Every field has a sound inverted index whose documents can be scored.\<close>

definition searchable :: "('doc, 'n) search_index \<Rightarrow> bool" where
  "searchable ix \<longleftrightarrow>
     (\<forall>f\<in>set (ix_fields ix). wf_index (tree ix f) \<and>
        (\<forall>tok r. posting tok r (tree ix f) \<noteq> None \<longrightarrow> \<not> inherited r \<and> getFieldLength r f (ix_store ix) \<noteq> None))"

definition posted_docs :: "string \<Rightarrow> 'n node \<Rightarrow> string set" where
  "posted_docs tok trie = {r. posting tok r trie \<noteq> None}"

lemma posted_docs_keys: "posted_docs tok trie = fst ` set (getDocs tok trie)"
  by (auto simp: posted_docs_def posting_def map_of_eq_None_iff)

lemma score_doc_adds:
  assumes "numeric r" "\<not> inherited c" "getFieldLength c f (ix_store ix) \<noteq> None"
  shows "\<exists>r'. score_doc root_of log_of ix f e n c r = Some r' \<and> numeric r' \<and> scored r' = scored r \<union> {c}"
proof -
  have "getTermFrequency 0 n c (tree ix f) \<noteq> None"
    using assms(2) by (simp add: getTermFrequency_def split: option.split)
  then show ?thesis using assms(3) numeric_add [OF assms(1,2)] by (auto simp: score_doc_def Let_def)
qed

lemma search_token_adds:
  assumes ix: "searchable ix" "f \<in> set (ix_fields ix)" and cfg: "fc_expand cfg" "fc_bool cfg \<noteq> ''AND''"
    and s: "case fst su of None \<Rightarrow> True | Some s \<Rightarrow> numeric s"
  shows "\<exists>su'. search_token root_of log_of ix f cfg e su = Some su' \<and> (case fst su' of None \<Rightarrow> True | Some s \<Rightarrow> numeric s) \<and>
    (case fst su' of None \<Rightarrow> {} | Some s \<Rightarrow> scored s) =
      (case fst su of None \<Rightarrow> {} | Some s \<Rightarrow> scored s) \<union>
      (\<Union>n\<in>set (expandToken e (tree ix f)). posted_docs n (tree ix f))"
proof -
  obtain s0 u0 where su: "su = (s0, u0)" by fastforce
  define refs where "refs n = map fst (enumerate_object (getDocs n (tree ix f)))" for n
  define visit where "visit = (\<lambda>n (r, u).
      case (if n = e then fieldSearchStats u n (refs n) else Some u) of
        None \<Rightarrow> None | Some u' \<Rightarrow> map_option (\<lambda>r'. (r', u')) (fold_throw (score_doc root_of log_of ix f e n) (refs n) r))"
  have refs: "set (refs n) = posted_docs n (tree ix f)" for n by (simp add: refs_def posted_docs_keys)
  then have ok: "\<not> inherited c \<and> getFieldLength c f (ix_store ix) \<noteq> None" if "c \<in> set (refs n)" for c n
    using ix that by (auto simp: searchable_def posted_docs_def)
  have v: "\<exists>ru'. visit n ru = Some ru' \<and> numeric (fst ru') \<and> scored (fst ru') = scored (fst ru) \<union> posted_docs n (tree ix f)"
    if ru: "numeric (fst ru)" for n ru
  proof -
    obtain u' where u': "(if n = e then fieldSearchStats (snd ru) n (refs n) else Some (snd ru)) = Some u'"
      using fieldSearchStats_returns [of "refs n" "snd ru" n] ok by (cases "n = e") auto
    have "\<exists>r'. fold_throw (score_doc root_of log_of ix f e n) (refs n) (fst ru) = Some r' \<and> numeric r' \<and>
        scored r' = scored (fst ru) \<union> (\<Union>c\<in>set (refs n). {c})"
      using ok by (intro fold_throw_collects [where I = numeric and K = scored and g = "\<lambda>c. {c}"] score_doc_adds ru) auto
    then show ?thesis using u' by (auto simp: visit_def case_prod_beta refs)
  qed
  have "\<exists>ru. fold_throw visit (expandToken e (tree ix f)) ([], u0) = Some ru \<and> numeric (fst ru) \<and>
      scored (fst ru) = (\<Union>n\<in>set (expandToken e (tree ix f)). posted_docs n (tree ix f))"
    using fold_throw_collects [of "expandToken e (tree ix f)" "\<lambda>ru. numeric (fst ru)" visit "\<lambda>ru. scored (fst ru)"
        "\<lambda>n. posted_docs n (tree ix f)" "([], u0)", OF v] by simp
  moreover have "search_token root_of log_of ix f cfg e su =
      map_option (\<lambda>(r, u'). (Some (mergeScores s0 r (fc_bool cfg)), u')) (fold_throw visit (expandToken e (tree ix f)) ([], u0))"
  proof -
    have m: "matched_docs s0 (fc_bool cfg) (getDocs n (tree ix f)) = refs n" for n
      using cfg(2) by (cases s0) (simp_all add: matched_docs_def refs_def)
    show ?thesis using cfg(1) unfolding search_token_def su visit_def Let_def prod.case m by simp
  qed
  ultimately show ?thesis
    using numeric_mergeScores [of s0 _ "fc_bool cfg"] s cfg(2) by (auto simp: su case_prod_beta)
qed

definition field_matches :: "('doc, 'n) search_index \<Rightarrow> string list \<Rightarrow> string \<Rightarrow> string set" where
  "field_matches ix toks f = (\<Union>e\<in>set toks. \<Union>n\<in>set (expandToken e (tree ix f)). posted_docs n (tree ix f))"

lemma map_of_map_value: "map_of (map (\<lambda>(c, v). (c, h c v)) m) k = map_option (h k) (map_of m k)"
  by (induction m) auto

lemma coordNorm_keys:
  "numeric s \<Longrightarrow> \<exists>s'. coordNorm (Some s) u n = Some s' \<and> numeric s' \<and> scored s' = scored s"
proof -
  assume s: "numeric s"
  define h :: "string \<Rightarrow> 'a option \<Rightarrow> 'a option" where "h c v = (case map_of u c of None \<Rightarrow> v | Some ts \<Rightarrow> map_option (\<lambda>x. x * of_nat (length ts) / of_nat n) v)" for c v
  define s' where "s' = map (\<lambda>(c, v). (c, h c v)) s"
  have "coordNorm (Some s) u n = Some s'" by (simp add: coordNorm_def s'_def h_def)
  moreover have k: "map_of s' c = map_option (h c) (map_of s c)" "map fst s' = map fst s" for c
    by (simp_all add: s'_def map_of_map_value case_prod_beta comp_def)
  have "h c v \<noteq> None" if "v \<noteq> None" for c v using that by (auto simp: h_def split: option.split)
  then have "numeric s'" using s unfolding numeric_def wf_gomap_def k by (metis map_option_eq_Some)
  moreover have "scored s' = scored s" by (auto simp: scored_def k dom_def)
  ultimately show ?thesis by blast
qed

lemma fieldSearch_finds:
  assumes ix: "searchable ix" "f \<in> set (ix_fields ix)" and cfg: "fc_expand cfg" "fc_bool cfg \<noteq> ''AND''" "fc_boost cfg \<noteq> 0"
  shows "\<exists>s. fieldSearch root_of log_of ix toks f cfg = Some s \<and> (case s of None \<Rightarrow> True | Some s \<Rightarrow> numeric s) \<and>
    (case s of None \<Rightarrow> {} | Some s \<Rightarrow> scored s) = field_matches ix toks f"
proof -
  let ?I = "\<lambda>su. case fst su of None \<Rightarrow> True | Some s \<Rightarrow> numeric s"
    and ?K = "\<lambda>su. case fst su of None \<Rightarrow> {} | Some s \<Rightarrow> scored s"
  have "\<exists>su. fold_throw (search_token root_of log_of ix f cfg) toks (None, []) = Some su \<and> ?I su \<and>
      ?K su = (\<Union>e\<in>set toks. \<Union>n\<in>set (expandToken e (tree ix f)). posted_docs n (tree ix f))"
    using fold_throw_collects [of toks ?I "search_token root_of log_of ix f cfg" ?K
        "\<lambda>e. \<Union>n\<in>set (expandToken e (tree ix f)). posted_docs n (tree ix f)" "(None, [])",
        OF search_token_adds [OF ix cfg(1,2)]] by simp
  then obtain s u where su: "fold_throw (search_token root_of log_of ix f cfg) toks (None, []) = Some (s, u)"
      "case s of None \<Rightarrow> True | Some s \<Rightarrow> numeric s" "(case s of None \<Rightarrow> {} | Some s \<Rightarrow> scored s) = field_matches ix toks f"
    by (auto simp: field_matches_def)
  show ?thesis
  proof (cases s)
    case None
    then show ?thesis using su cfg(3) by (simp add: fieldSearch_def coordNorm_def)
  next
    case (Some sc)
    then show ?thesis using su cfg(3) coordNorm_keys [of sc u "length toks"] by (auto simp: fieldSearch_def)
  qed
qed

lemma add_field_adds:
  assumes ix: "searchable ix" "fst fc \<in> set (ix_fields ix)"
    and cfg: "fc_expand (snd fc)" "fc_bool (snd fc) \<noteq> ''AND''" "fc_boost (snd fc) \<noteq> 0" and l: "numeric l"
  shows "\<exists>l'. add_field root_of log_of ix toks fc l = Some l' \<and> numeric l' \<and> scored l' = scored l \<union> field_matches ix toks (fst fc)"
proof -
  obtain s where s: "fieldSearch root_of log_of ix toks (fst fc) (snd fc) = Some s"
      "case s of None \<Rightarrow> True | Some s \<Rightarrow> numeric s" "(case s of None \<Rightarrow> {} | Some s \<Rightarrow> scored s) = field_matches ix toks (fst fc)"
    using fieldSearch_finds [OF ix cfg] by blast
  show ?thesis
  proof (cases s)
    case None
    then show ?thesis using s l by (simp add: add_field_def)
  next
    case (Some sc)
    have "\<forall>(c, v)\<in>set (enumerate_object sc). \<not> inherited c \<and> map_option (\<lambda>x. x * of_int (fc_boost (snd fc))) v \<noteq> None"
      using s(2) Some numeric_entry [of sc] by auto
    from numeric_adds [OF l this] show ?thesis using s Some by (simp add: add_field_def scored_fst)
  qed
qed

lemma search_config_fields:
  assumes "ix_fields ix = search_fields"
  shows "map fst (search_config ix) = search_fields"
    and "fc \<in> set (search_config ix) \<Longrightarrow> fc_expand (snd fc) \<and> fc_bool (snd fc) \<noteq> ''AND'' \<and> fc_boost (snd fc) \<noteq> 0"
proof -
  have "buildUserConfig True user_fields search_fields =
      map (\<lambda>(f, b). (f, \<lparr>fc_boost = b, fc_bool = ''OR'', fc_expand = True\<rparr>)) user_fields" by code_simp
  then have c: "search_config ix = map (\<lambda>(f, b). (f, \<lparr>fc_boost = b, fc_bool = ''OR'', fc_expand = True\<rparr>)) user_fields"
    by (simp add: search_config_def assms)
  show "map fst (search_config ix) = search_fields" by (simp add: c user_fields_def search_fields_def)
  show "fc \<in> set (search_config ix) \<Longrightarrow> fc_expand (snd fc) \<and> fc_bool (snd fc) \<noteq> ''AND'' \<and> fc_boost (snd fc) \<noteq> 0"
    unfolding c by (auto simp: user_fields_def)
qed

section \<open>The order of the results\<close>

definition descending :: "('doc, 'n::linordered_field) hit list \<Rightarrow> bool" where
  "descending hs = sorted_wrt (\<lambda>a b. \<not> score_less (hit_score a) (hit_score b)) hs"

lemma set_insert_hit: "set (insert_hit h hs) = insert h (set hs)"
  by (induction hs) auto

lemma mset_insert_hit: "mset (insert_hit h xs) = add_mset h (mset xs)"
  by (induction xs) auto

lemma mset_sort_hits: "mset (sort_hits hs) = mset hs"
proof -
  have "mset (fold insert_hit hs acc) = mset hs + mset acc" for acc
    by (induction hs arbitrary: acc) (simp_all add: mset_insert_hit)
  then show ?thesis by (simp add: sort_hits_def)
qed

lemma insert_hit_descending:
  assumes "\<forall>x\<in>set (h # hs). hit_score x \<noteq> None" "descending hs"
  shows "descending (insert_hit h hs)"
  using assms
proof (induction hs)
  case (Cons x hs)
  then show ?case by (auto simp: descending_def set_insert_hit score_less_def split: option.splits)
qed (simp add: descending_def)

lemma sort_hits_descending:
  assumes "\<forall>x\<in>set hs. hit_score x \<noteq> None"
  shows "descending (sort_hits hs)"
proof -
  have "\<forall>x\<in>set acc. hit_score x \<noteq> None \<Longrightarrow> descending acc \<Longrightarrow> descending (fold insert_hit hs acc)" for acc
    using assms
  proof (induction hs arbitrary: acc)
    case (Cons h hs)
    then show ?case using insert_hit_descending [of h acc] by (simp add: set_insert_hit)
  qed simp
  then show ?thesis by (simp add: sort_hits_def descending_def)
qed

section \<open>Searching an index\<close>

lemma expandToken_docs:
  assumes "wf_index trie"
  shows "(\<Union>n\<in>set (expandToken e trie). posted_docs n trie) = {r. e \<noteq> '''' \<and> (\<exists>s. posting (e @ s) r trie \<noteq> None)}"
proof (cases "e = ''''")
  case True
  then show ?thesis by (simp add: expandToken_def)
next
  case False
  have "getDocFreq (e @ s) trie > 0" if p: "posting (e @ s) r trie \<noteq> None" for s r
  proof -
    obtain nd where nd: "walk (e @ s) trie = Some nd" "map_of (docs nd) r \<noteq> None"
      using p False by (auto simp: posting_def getDocs_def getNode_def split: option.splits)
    then have "df nd = int (length (docs nd))" "docs nd \<noteq> []" using assms by (auto simp: wf_index_def wf_here_def)
    then show ?thesis using nd False by (simp add: getDocFreq_def getNode_def)
  qed
  then have "r \<in> (\<Union>n\<in>set (expandToken e trie). posted_docs n trie) \<longleftrightarrow> (\<exists>s. posting (e @ s) r trie \<noteq> None)" for r
    unfolding expandToken_set [OF assms False] posted_docs_def by blast
  then show ?thesis using False by blast
qed

definition matches :: "('doc, 'n) search_index \<Rightarrow> string list \<Rightarrow> string set" where
  "matches ix toks =
     {r. \<exists>f\<in>set (ix_fields ix). \<exists>e\<in>set toks. e \<noteq> '''' \<and> (\<exists>s. posting (e @ s) r (tree ix f) \<noteq> None)}"

lemma field_matches_union:
  assumes "searchable ix"
  shows "(\<Union>f\<in>set (ix_fields ix). field_matches ix toks f) = matches ix toks"
proof -
  have "field_matches ix toks f = {r. \<exists>e\<in>set toks. e \<noteq> [] \<and> (\<exists>s. posting (e @ s) r (tree ix f) \<noteq> None)}"
    if "f \<in> set (ix_fields ix)" for f
    using expandToken_docs [of "tree ix f"] assms that unfolding field_matches_def searchable_def by auto
  then show ?thesis unfolding matches_def by blast
qed

lemma search_finds:
  assumes ix: "searchable ix" "ix_fields ix = search_fields" and t: "term \<noteq> ''''"
  shows "\<exists>hits. search stem stop root_of log_of ix term = Some hits \<and> distinct (map hit_ref hits) \<and> descending hits \<and>
    (\<forall>h\<in>set hits. hit_score h \<noteq> None \<and> hit_doc h = documents ix (hit_ref h)) \<and>
    hit_ref ` set hits = matches ix (query_tokens stem stop ix term)"
proof -
  let ?toks = "query_tokens stem stop ix term" and ?fields = "enumerate_object (search_config ix)"
  let ?hit = "\<lambda>(c, v). \<lparr>hit_ref = c, hit_score = v, hit_doc = if hasDoc c (ix_store ix) then getDoc c (ix_store ix) else None\<rparr>"
  note cfg = search_config_fields [OF ix(2)]
  have f: "fst ` set ?fields = set (ix_fields ix)" using cfg(1) ix(2) by (metis set_enumerate set_map)
  have "\<exists>l'. add_field root_of log_of ix ?toks fc l = Some l' \<and> numeric l' \<and> scored l' = scored l \<union> field_matches ix ?toks (fst fc)"
    if "fc \<in> set ?fields" "numeric l" for fc l
    using that f cfg(2) [of fc] by (intro add_field_adds [OF ix(1)]) auto
  from fold_throw_collects [of ?fields numeric _ scored "\<lambda>fc. field_matches ix ?toks (fst fc)" "[]", OF this]
  obtain l where l: "fold_throw (add_field root_of log_of ix ?toks) ?fields [] = Some l" "numeric l"
      "scored l = (\<Union>f\<in>set (ix_fields ix). field_matches ix ?toks f)"
    unfolding f [symmetric] by auto
  define hs where "hs = map ?hit (enumerate_object l)"
  have hs: "search stem stop root_of log_of ix term = Some (sort_hits hs)" using t l(1) by (simp add: search_def hs_def)
  have refs: "map hit_ref hs = map fst (enumerate_object l)" by (simp add: hs_def case_prod_beta)
  have set: "set (sort_hits hs) = set hs" "mset (map hit_ref (sort_hits hs)) = mset (map hit_ref hs)"
    using mset_sort_hits [of hs] by (metis set_mset_mset, simp)
  have num: "\<forall>h\<in>set hs. hit_score h \<noteq> None \<and> hit_doc h = documents ix (hit_ref h)"
    using numeric_entry [OF l(2)] by (auto simp: hs_def documents_def hasDoc_def js_in_def getDoc_def mhas_def split: option.split)
  have "distinct (map hit_ref (sort_hits hs))"
    using set(2) distinct_enumerate [of l] l(2) refs by (metis mset_eq_imp_distinct_iff numeric_def)
  moreover have "descending (sort_hits hs)" using num by (intro sort_hits_descending) blast
  moreover have "hit_ref ` set (sort_hits hs) = matches ix ?toks"
  proof -
    have "hit_ref ` set (sort_hits hs) = fst ` set l" using refs unfolding set(1) by (metis set_enumerate set_map)
    then show ?thesis using l(3) field_matches_union [OF ix(1)] by (simp add: scored_fst)
  qed
  ultimately show ?thesis using hs num set(1) by auto
qed

section \<open>Searching the index of the page\<close>

definition info_inv :: "'doc doc_store \<Rightarrow> bool" where
  "info_inv st \<longleftrightarrow> (\<forall>r. mhas (ds_docs st) r \<longrightarrow> mhas (ds_docInfo st) r)"

definition tables_inv :: "('doc, 'tf) search_index \<Rightarrow> bool" where
  "tables_inv ix \<longleftrightarrow> (\<forall>f. wf_index (tree ix f)) \<and> info_inv (ix_store ix)"

lemma wf_adds: "\<not> inherited ref \<Longrightarrow> wf_index trie \<Longrightarrow> wf_index (fold (\<lambda>(t, n) trie. addToken t ref (g n) trie) cs trie)"
  by (induction cs arbitrary: trie) (auto simp: wf_addToken)

lemma addDoc_fields_tables:
  assumes ref: "\<not> inherited ref"
  shows "\<forall>f. wf_index (tree ix f) \<Longrightarrow> mhas (ds_docs (ix_store ix)) ref \<Longrightarrow>
    (\<forall>r. mhas (ds_docs (ix_store ix)) r \<longrightarrow> r \<noteq> ref \<or> fs = [] \<longrightarrow> mhas (ds_docInfo (ix_store ix)) r) \<Longrightarrow>
    tables_inv (fold (addDoc_field stem stop root_of field_of doc ref) fs ix)"
proof (induction fs arbitrary: ix)
  case Nil
  then show ?case by (simp add: tables_inv_def info_inv_def)
next
  case (Cons f fs)
  define ix1 where "ix1 = addDoc_field stem stop root_of field_of doc ref f ix"
  have tree: "\<forall>f. wf_index (tree ix1 f)"
    using Cons.prems(1) unfolding addDoc_field_effect(4) [OF ix1_def] by (simp add: wf_adds [OF ref])
  have st: "ds_docs (ix_store ix1) = ds_docs (ix_store ix)" "mhas (ds_docInfo (ix_store ix1)) ref"
      "mhas (ds_docInfo (ix_store ix)) r \<Longrightarrow> mhas (ds_docInfo (ix_store ix1)) r" for r
    using Cons.prems(2) unfolding addDoc_field_effect(3) [OF ix1_def]
    by (simp_all add: addFieldLength_def hasDoc_def js_in_def mhas_def)
  have "tables_inv (fold (addDoc_field stem stop root_of field_of doc ref) fs ix1)"
    using Cons.prems(2,3) st by (intro Cons.IH tree) auto
  then show ?case by (simp add: ix1_def)
qed

lemma index_addDoc_tables:
  assumes "tables_inv ix" "ix_ref ix = ref" "\<not> inherited (ref_key field_of ref d)" "ix_fields ix \<noteq> []"
  shows "tables_inv (index_addDoc stem stop root_of field_of d ix)"
proof -
  define k ix1 where "k = ref_key field_of ref d" and "ix1 = ix\<lparr>ix_store := store_addDoc k d (ix_store ix)\<rparr>"
  have "index_addDoc stem stop root_of field_of d ix = fold (addDoc_field stem stop root_of field_of d k) (ix_fields ix) ix1"
    using assms(2) by (simp add: index_addDoc_def ix1_def k_def ref_key_def Let_def)
  moreover have "tables_inv (fold (addDoc_field stem stop root_of field_of d k) (ix_fields ix) ix1)"
    using assms
    by (intro addDoc_fields_tables)
      (auto simp: ix1_def k_def tables_inv_def info_inv_def tree_def store_addDoc_def Let_def mhas_def)
  ultimately show ?thesis by simp
qed

lemma build_index_snoc:
  "build_index stem stop root_of field_of (ds @ [d]) = index_addDoc stem stop root_of field_of d (build_index stem stop root_of field_of ds)"
  by (simp add: build_index_def Let_def)

lemma build_index_inv:
  assumes "distinct (map (ref_key field_of ''fullname'') ds)" "\<forall>d\<in>set ds. proper (ref_key field_of ''fullname'' d)"
    and ix_def: "ix = build_index stem stop root_of field_of ds"
  shows "index_inv stem stop root_of field_of (ref_key field_of ''fullname'') ''fullname'' ix \<and> tables_inv ix \<and>
    (\<forall>r d. documents ix r = Some d \<longleftrightarrow> d \<in> set ds \<and> ref_key field_of ''fullname'' d = r)"
  using assms(1,2) unfolding ix_def
proof (induction ds rule: rev_induct)
  case Nil
  have "tables_inv (build_index stem stop root_of field_of [])"
    using wf_empty_node
    by (simp add: tables_inv_def info_inv_def tree_def build_index_def addField_def setRef_def new_index_def search_fields_def
        Let_def mget_def mhas_def)
  moreover have "documents (build_index stem stop root_of field_of []) r = None" for r
    by (simp add: documents_def getDoc_def build_index_def addField_def setRef_def new_index_def search_fields_def Let_def)
  ultimately show ?case using index_inv_empty by auto
next
  case (snoc d ds)
  let ?ix = "build_index stem stop root_of field_of ds" and ?key = "ref_key field_of ''fullname''"
  have I: "index_inv stem stop root_of field_of ?key ''fullname'' ?ix" "tables_inv ?ix"
      "\<And>r d. documents ?ix r = Some d \<longleftrightarrow> d \<in> set ds \<and> ?key d = r"
    using snoc by auto
  have new: "documents ?ix (?key d) = None"
  proof (cases "documents ?ix (?key d)")
    case (Some d')
    then have "d' \<in> set ds" "?key d = ?key d'" by (simp_all add: I(3))
    then have "?key d \<in> ?key ` set ds" by simp
    then show ?thesis using snoc.prems(1) by simp
  qed
  have p: "proper (?key d)" using snoc.prems(2) by simp
  then have A: "index_inv stem stop root_of field_of ?key ''fullname'' (index_addDoc stem stop root_of field_of d ?ix)"
      "documents (index_addDoc stem stop root_of field_of d ?ix) = (documents ?ix)(?key d \<mapsto> d)"
    using index_addDoc_inv [OF I(1) refl _ new] by (auto simp: proper_def)
  moreover have "tables_inv (index_addDoc stem stop root_of field_of d ?ix)"
    by (rule index_addDoc_tables [OF I(2)])
      (use p in \<open>auto simp: build_index_config search_fields_def proper_def usable_def\<close>)
  moreover have "((documents ?ix)(?key d \<mapsto> d)) r = Some d' \<longleftrightarrow> d' \<in> set (ds @ [d]) \<and> ?key d' = r" for r d'
  proof (cases "r = ?key d")
    case True
    have "\<not> (d' \<in> set ds \<and> ?key d' = ?key d)" using new I(3) [of "?key d" d'] by simp
    then show ?thesis using True by auto
  next
    case False
    then show ?thesis using I(3) [of r d'] by auto
  qed
  ultimately show ?case unfolding build_index_snoc by simp
qed

lemma index_searchable:
  assumes "index_inv stem stop root_of field_of key ref ix" "tables_inv ix"
  shows "searchable ix"
  unfolding searchable_def
proof (intro ballI conjI allI impI)
  fix f tok r assume f: "f \<in> set (ix_fields ix)" and p: "posting tok r (tree ix f) \<noteq> None"
  have "tok \<noteq> ''''" using p by (auto simp: posting_def getDocs_docs_at)
  then obtain d where d: "documents ix r = Some d"
    using assms(1) f p by (auto simp: index_inv_def postings_inv_def split: option.splits)
  then have h: "mhas (ds_docs (ix_store ix)) r" "usable r"
    using assms(1) by (auto simp: documents_def getDoc_def mhas_def index_inv_def store_inv_def split: option.splits)
  then show "\<not> inherited r" by (simp add: usable_def)
  show "getFieldLength r f (ix_store ix) \<noteq> None"
    using h assms(2) by (auto simp: getFieldLength_def tables_inv_def info_inv_def mhas_def split: option.split)
qed (use assms(2) in \<open>simp add: tables_inv_def\<close>)

text \<open>A document with a token that starts with a token of the query.\<close>

definition relevant ::
    "(string \<Rightarrow> string) \<Rightarrow> (string \<Rightarrow> bool) \<Rightarrow> ('doc \<Rightarrow> string \<Rightarrow> string option) \<Rightarrow> ('doc, 'tf) search_index \<Rightarrow> string list \<Rightarrow>
     'doc \<Rightarrow> bool" where
  "relevant stem stop field_of ix toks d \<longleftrightarrow>
     (\<exists>f\<in>set (ix_fields ix). \<exists>t\<in>set (field_tokens stem stop field_of d f ix). \<exists>q\<in>set toks. q \<noteq> '''' \<and> take (length q) t = q)"

lemma posted_present: "posted rt toks tok \<noteq> None \<longleftrightarrow> tok \<in> set toks"
  by (simp add: posted_def count_tokens_lookup)

lemma posting_documents:
  assumes "index_inv stem stop rt field_of key ref ix" "f \<in> set (ix_fields ix)" "t \<noteq> ''''"
  shows "posting t r (tree ix f) \<noteq> None \<longleftrightarrow> (\<exists>d. documents ix r = Some d \<and> t \<in> set (field_tokens stem stop field_of d f ix))"
proof -
  have "posting t r (tree ix f) =
      (case documents ix r of None \<Rightarrow> None | Some d \<Rightarrow> posted rt (field_tokens stem stop field_of d f ix) t)"
    using assms by (simp add: index_inv_def postings_inv_def)
  then show ?thesis by (cases "documents ix r") (simp_all add: posted_present del: not_None_eq)
qed

lemma matches_relevant:
  assumes "index_inv stem stop rt field_of key ref ix"
  shows "r \<in> matches ix toks \<longleftrightarrow> (\<exists>d. documents ix r = Some d \<and> relevant stem stop field_of ix toks d)"
proof
  assume "r \<in> matches ix toks"
  then obtain f q s where q: "f \<in> set (ix_fields ix)" "q \<in> set toks" "q \<noteq> ''''" "posting (q @ s) r (tree ix f) \<noteq> None"
    unfolding matches_def by blast
  then obtain d where "documents ix r = Some d" "q @ s \<in> set (field_tokens stem stop field_of d f ix)"
    using posting_documents [OF assms q(1), of "q @ s" r] by auto
  moreover have "take (length q) (q @ s) = q" by simp
  ultimately show "\<exists>d. documents ix r = Some d \<and> relevant stem stop field_of ix toks d"
    using q unfolding relevant_def by blast
next
  assume "\<exists>d. documents ix r = Some d \<and> relevant stem stop field_of ix toks d"
  then obtain d f t q where d: "documents ix r = Some d" "f \<in> set (ix_fields ix)"
      "t \<in> set (field_tokens stem stop field_of d f ix)" "q \<in> set toks" "q \<noteq> ''''" "take (length q) t = q"
    unfolding relevant_def by blast
  have t: "t = q @ drop (length q) t" using d(6) by (metis append_take_drop_id)
  then have "t \<noteq> ''''" using d(5) by auto
  then have "posting t r (tree ix f) \<noteq> None" using posting_documents [OF assms d(2), of t r] d(1,3) by blast
  then have "posting (q @ drop (length q) t) r (tree ix f) \<noteq> None" using t by simp
  then show "r \<in> matches ix toks" using d unfolding matches_def by blast
qed



end
