(* ===== verification/SortedSet.thy ===== *)
theory SortedSet
  imports Prelude
begin

text \<open>
  \<open>website/static/python-api/search.js\<close>, line 2: \<open>lunr.SortedSet\<close>, an ordered set in an array with
  binary search. The elements are of a linear order (the strings or the numbers of JavaScript);
  \<open>undefined\<close>, which an index outside the array yields, is \<open>None\<close> and compares false with everything.
  The loops of the binary search change their bounds only if a comparison succeeds, so they are
  partial functions: \<open>None\<close> as a result is a loop that does not end.
\<close>

section \<open>The set\<close>

record 'a sorted_set =
  ss_length :: int
  ss_elements :: "'a list"

definition sorted_set_new :: "'a sorted_set" where
  "sorted_set_new = \<lparr>ss_length = 0, ss_elements = []\<rparr>"

definition sorted_set_load :: "'a list \<Rightarrow> 'a sorted_set" where
  "sorted_set_load e = \<lparr>ss_length = int (length e), ss_elements = e\<rparr>"

definition toArray :: "'a sorted_set \<Rightarrow> 'a list" where
  "toArray s = ss_elements s"

definition clone :: "'a sorted_set \<Rightarrow> 'a sorted_set" where
  "clone s = \<lparr>ss_length = int (length (toArray s)), ss_elements = toArray s\<rparr>"

text \<open>\<open>xs[k]\<close> and the comparison \<open>a < b\<close>, where either may be undefined.\<close>

definition elem :: "'a list \<Rightarrow> nat \<Rightarrow> 'a option" where
  "elem xs k = (if k < length xs then Some (xs ! k) else None)"

definition js_less :: "'a::linorder option \<Rightarrow> 'a option \<Rightarrow> bool" where
  "js_less a b = (case (a, b) of (Some x, Some y) \<Rightarrow> x < y | _ \<Rightarrow> False)"

text \<open>The state of a search is the pair of bounds; \<open>middle\<close> is the index looked at.\<close>

definition middle :: "nat \<Rightarrow> nat \<Rightarrow> nat" where
  "middle t n = t + (n - t) div 2"

definition narrow_low :: "'a::linorder list \<Rightarrow> 'a \<Rightarrow> nat \<Rightarrow> nat \<Rightarrow> nat" where
  "narrow_low xs e t n = (if js_less (elem xs (middle t n)) (Some e) then middle t n else t)"

definition narrow_high :: "'a::linorder list \<Rightarrow> 'a \<Rightarrow> nat \<Rightarrow> nat \<Rightarrow> nat" where
  "narrow_high xs e t n = (if js_less (Some e) (elem xs (middle t n)) then middle t n else n)"

partial_function (option) index_loop :: "'a::linorder list \<Rightarrow> 'a \<Rightarrow> nat \<Rightarrow> nat \<Rightarrow> int option" where
  [code]: "index_loop xs e t n =
     (if n - t > 1 then
        (if elem xs (middle t n) = Some e then Some (int (middle t n))
         else index_loop xs e (narrow_low xs e t n) (narrow_high xs e t n))
      else Some (if elem xs (middle t n) = Some e then int (middle t n) else - 1))"

definition set_indexOf :: "'a::linorder \<Rightarrow> 'a list \<Rightarrow> int option" where
  "set_indexOf e xs = index_loop xs e 0 (length xs)"

text \<open>The inner option of \<open>locationFor\<close> is \<open>undefined\<close>.\<close>

partial_function (option) location_loop :: "'a::linorder list \<Rightarrow> 'a \<Rightarrow> nat \<Rightarrow> nat \<Rightarrow> nat option option" where
  [code]: "location_loop xs e t n =
     (if n - t > 1 then location_loop xs e (narrow_low xs e t n) (narrow_high xs e t n)
      else Some (if js_less (Some e) (elem xs (middle t n)) then Some (middle t n)
                 else if js_less (elem xs (middle t n)) (Some e) then Some (middle t n + 1)
                 else None))"

definition locationFor :: "'a::linorder \<Rightarrow> 'a list \<Rightarrow> nat option option" where
  "locationFor e xs = location_loop xs e 0 (length xs)"

text \<open>\<open>splice(k, 0, x)\<close>; an undefined index counts as 0.\<close>

definition splice_in :: "nat option \<Rightarrow> 'a \<Rightarrow> 'a list \<Rightarrow> 'a list" where
  "splice_in k x xs = (let i = (case k of None \<Rightarrow> 0 | Some i \<Rightarrow> i) in take i xs @ [x] @ drop i xs)"

definition add_one :: "'a::linorder \<Rightarrow> 'a list \<Rightarrow> 'a list option" where
  "add_one x xs =
     (case set_indexOf x xs of
        None \<Rightarrow> None
      | Some i \<Rightarrow> if i \<noteq> - 1 then Some xs else map_option (\<lambda>k. splice_in k x xs) (locationFor x xs))"

fun add_all :: "'a::linorder list \<Rightarrow> 'a list \<Rightarrow> 'a list option" where
  "add_all [] xs = Some xs"
| "add_all (y # ys) xs = (case add_one y xs of None \<Rightarrow> None | Some xs' \<Rightarrow> add_all ys xs')"

definition sorted_set_add :: "'a::linorder list \<Rightarrow> 'a sorted_set \<Rightarrow> 'a sorted_set option" where
  "sorted_set_add ys s =
     map_option (\<lambda>xs. \<lparr>ss_length = int (length xs), ss_elements = xs\<rparr>) (add_all ys (ss_elements s))"

partial_function (option) intersect_loop ::
    "'a::linorder sorted_set \<Rightarrow> 'a sorted_set \<Rightarrow> nat \<Rightarrow> nat \<Rightarrow> 'a sorted_set \<Rightarrow> 'a sorted_set option" where
  [code]: "intersect_loop a b n i t =
     (if int n > ss_length a - 1 \<or> int i > ss_length b - 1 then Some t
      else
        (let x = elem (ss_elements a) n; y = elem (ss_elements b) i in
         if x \<noteq> y then
           intersect_loop a b (if js_less x y then n + 1 else n) (if \<not> js_less x y \<and> js_less y x then i + 1 else i) t
         else
           (case x of
              None \<Rightarrow> intersect_loop a b (n + 1) (i + 1) t
            | Some v \<Rightarrow> (case sorted_set_add [v] t of None \<Rightarrow> None | Some t' \<Rightarrow> intersect_loop a b (n + 1) (i + 1) t'))))"

definition intersect :: "'a::linorder sorted_set \<Rightarrow> 'a sorted_set \<Rightarrow> 'a sorted_set option" where
  "intersect a b = intersect_loop a b 0 0 sorted_set_new"

fun add_each :: "'a::linorder list \<Rightarrow> 'a sorted_set \<Rightarrow> 'a sorted_set option" where
  "add_each [] s = Some s"
| "add_each (y # ys) s = (case sorted_set_add [y] s of None \<Rightarrow> None | Some s' \<Rightarrow> add_each ys s')"

definition union :: "'a::linorder sorted_set \<Rightarrow> 'a sorted_set \<Rightarrow> 'a sorted_set option" where
  "union a b =
     (let (long, short) = (if ss_length a \<ge> ss_length b then (a, b) else (b, a))
      in add_each (toArray short) (clone long))"

section \<open>The binary search\<close>

definition strictly_sorted :: "'a::linorder list \<Rightarrow> bool" where
  "strictly_sorted xs = sorted_wrt (<) xs"

lemma strictly_sorted_nth: "strictly_sorted xs \<Longrightarrow> i < j \<Longrightarrow> j < length xs \<Longrightarrow> xs ! i < xs ! j"
  by (simp add: strictly_sorted_def sorted_wrt_nth_less)

lemma middle_bounds: "n - t > 1 \<Longrightarrow> t < middle t n \<and> middle t n < n"
  by (simp add: middle_def)

lemma strictly_sorted_iff:
  "strictly_sorted xs \<Longrightarrow> i < length xs \<Longrightarrow> j < length xs \<Longrightarrow> xs ! i < xs ! j \<longleftrightarrow> i < j"
  using strictly_sorted_nth by (metis linorder_neqE_nat order_less_asym order_less_irrefl)

lemma narrow:
  assumes "m = middle t n" "m < length xs"
  shows "narrow_low xs e t n = (if xs ! m < e then m else t)" "narrow_high xs e t n = (if e < xs ! m then m else n)"
  using assms by (simp_all add: narrow_low_def narrow_high_def elem_def js_less_def)

lemma index_loop_finds:
  assumes "strictly_sorted xs"
  shows "n \<le> length xs \<Longrightarrow> (\<And>k. k < length xs \<Longrightarrow> xs ! k = e \<Longrightarrow> t \<le> k \<and> k < n) \<Longrightarrow>
    \<exists>r. index_loop xs e t n = Some r \<and>
      (if e \<in> set xs then 0 \<le> r \<and> nat r < length xs \<and> xs ! nat r = e else r = - 1)"
proof (induction "n - t" arbitrary: t n rule: less_induct)
  case less
  let ?m = "middle t n"
  show ?case
  proof (cases "n - t > 1")
    case True
    then have m: "t < ?m" "?m < n" using middle_bounds by blast+
    then have ml: "?m < length xs" using less.prems(1) by simp
    show ?thesis
    proof (cases "xs ! ?m = e")
      case found: True
      then have "e \<in> set xs" using ml by (metis nth_mem)
      then show ?thesis using True found ml by (simp add: index_loop.simps [of _ _ t] elem_def)
    next
      case False
      define t' n' where "t' = narrow_low xs e t n" and "n' = narrow_high xs e t n"
      note nr = narrow [OF refl ml, of e]
      have "n' - t' < n - t" "n' \<le> length xs" using nr False m less.prems(1) True by (auto simp: t'_def n'_def)
      moreover have "t' \<le> k \<and> k < n'" if k: "k < length xs" "xs ! k = e" for k
        using less.prems(2) [OF k] nr strictly_sorted_iff [OF assms k(1) ml] strictly_sorted_iff [OF assms ml k(1)] k(2)
        by (auto simp: t'_def n'_def)
      ultimately have "\<exists>r. index_loop xs e t' n' = Some r \<and>
          (if e \<in> set xs then 0 \<le> r \<and> nat r < length xs \<and> xs ! nat r = e else r = - 1)"
        by (intro less.hyps) auto
      then show ?thesis using True False ml by (simp add: index_loop.simps [of _ _ t] elem_def t'_def n'_def)
    qed
  next
    case False
    then have mt: "?m = t" by (simp add: middle_def)
    have "k = t" if "k < length xs" "xs ! k = e" for k using less.prems(2) [OF that] False by linarith
    then have "e \<in> set xs \<longleftrightarrow> t < length xs \<and> xs ! t = e" by (metis in_set_conv_nth nth_mem)
    then show ?thesis using False mt by (simp add: index_loop.simps [of _ _ t] elem_def)
  qed
qed

lemma set_indexOf_finds:
  "strictly_sorted xs \<Longrightarrow>
    \<exists>r. set_indexOf e xs = Some r \<and> (if e \<in> set xs then 0 \<le> r \<and> nat r < length xs \<and> xs ! nat r = e else r = - 1)"
  unfolding set_indexOf_def by (rule index_loop_finds) simp_all

definition splits_at :: "'a::linorder \<Rightarrow> 'a list \<Rightarrow> nat \<Rightarrow> bool" where
  "splits_at e xs p \<longleftrightarrow> (\<forall>x\<in>set (take p xs). x < e) \<and> (\<forall>x\<in>set (drop p xs). e < x)"

lemma splits_atI:
  assumes "strictly_sorted xs" "p \<le> length xs" "p = 0 \<or> xs ! (p - 1) < e" "p = length xs \<or> e < xs ! p"
  shows "splits_at e xs p"
proof -
  have "xs ! i < e" if "i < p" for i
  proof (cases "i = p - 1")
    case False
    then have "xs ! i < xs ! (p - 1)" using assms(2) that by (intro strictly_sorted_nth [OF assms(1)]) auto
    then show ?thesis using assms(3) that by auto
  qed (use assms(3) that in auto)
  moreover have "e < xs ! i" if "p \<le> i" "i < length xs" for i
    using assms that strictly_sorted_nth [OF assms(1), of p i] by (cases "i = p") (auto intro: order_less_trans)
  ultimately show ?thesis
    by (auto simp: splits_at_def in_set_conv_nth)
qed

lemma location_loop_finds:
  assumes "strictly_sorted xs" "e \<notin> set xs" "xs \<noteq> []"
  shows "t < n \<Longrightarrow> n \<le> length xs \<Longrightarrow> t = 0 \<or> xs ! t < e \<Longrightarrow> n = length xs \<or> e < xs ! n \<Longrightarrow>
    \<exists>p. location_loop xs e t n = Some (Some p) \<and> splits_at e xs p \<and> p \<le> length xs"
proof (induction "n - t" arbitrary: t n rule: less_induct)
  case less
  let ?m = "middle t n"
  have m: "t \<le> ?m" "?m < n" using less.prems(1) by (auto simp: middle_def)
  then have ml: "?m < length xs" using less.prems(2) by simp
  then have ne: "xs ! ?m \<noteq> e" using assms(2) nth_mem by metis
  show ?case
  proof (cases "n - t > 1")
    case True
    define t' n' where "t' = narrow_low xs e t n" and "n' = narrow_high xs e t n"
    have "t < ?m" using True middle_bounds by blast
    then have "n' - t' < n - t" "t' < n'" "n' \<le> length xs" "t' = 0 \<or> xs ! t' < e" "n' = length xs \<or> e < xs ! n'"
      using narrow [OF refl ml, of e] ne m ml less.prems by (auto simp: t'_def n'_def)
    then have "\<exists>p. location_loop xs e t' n' = Some (Some p) \<and> splits_at e xs p \<and> p \<le> length xs"
      by (intro less.hyps) auto
    then show ?thesis using True by (simp add: location_loop.simps [of _ _ t] t'_def n'_def)
  next
    case False
    then have t: "n = Suc t" "?m = t" using less.prems(1) by (auto simp: middle_def)
    define p where "p = (if e < xs ! t then t else Suc t)"
    have "location_loop xs e t n = Some (Some p)"
      using t ml ne by (auto simp: location_loop.simps [of _ _ t] elem_def js_less_def p_def)
    moreover have "splits_at e xs p"
      using t ml ne less.prems by (intro splits_atI [OF assms(1)]) (auto simp: p_def)
    ultimately show ?thesis using t ml by (auto simp: p_def)
  qed
qed

lemma locationFor_finds:
  assumes "strictly_sorted xs" "e \<notin> set xs"
  shows "\<exists>p. locationFor e xs = Some p \<and> splits_at e xs (case p of None \<Rightarrow> 0 | Some i \<Rightarrow> i)"
proof (cases "xs = []")
  case True
  then show ?thesis
    by (simp add: locationFor_def location_loop.simps [of _ _ 0] elem_def js_less_def splits_at_def)
next
  case False
  then show ?thesis using location_loop_finds [OF assms False, of 0 "length xs"] by (auto simp: locationFor_def)
qed

text \<open>On an element of the array other than the first, the bounds stay around it and the loop goes on.\<close>

lemma location_loop_stuck:
  "location_loop xs e t n = Some y \<Longrightarrow>
   \<not> (strictly_sorted xs \<and> n \<le> length xs \<and> t < k \<and> k < n \<and> xs ! k = e)"
proof (rule location_loop.raw_induct [of "\<lambda>xs e t n y. \<not> (strictly_sorted xs \<and> n \<le> length xs \<and> t < k \<and> k < n \<and> xs ! k = e)"],
    rule notI, elim conjE)
  fix loop xs e t n y
  assume IH: "\<And>xs (e::'a) t n y. loop xs e t n = Some y \<Longrightarrow>
      \<not> (strictly_sorted xs \<and> n \<le> length xs \<and> t < k \<and> k < n \<and> xs ! k = e)"
    and body: "(if 1 < n - t then loop xs e (narrow_low xs e t n) (narrow_high xs e t n)
      else Some (if js_less (Some e) (elem xs (middle t n)) then Some (middle t n)
                 else if js_less (elem xs (middle t n)) (Some e) then Some (middle t n + 1) else None)) = Some y"
    and s: "strictly_sorted xs" "n \<le> length xs" "t < k" "k < n" "xs ! k = e"
  let ?m = "middle t n"
  have long: "1 < n - t" using s(3,4) by linarith
  then have ml: "?m < length xs" using middle_bounds [OF long] s(2) by simp
  have rec: "loop xs e (narrow_low xs e t n) (narrow_high xs e t n) = Some y" using body long by simp
  have k: "k < length xs" using s by simp
  show False
    using IH [OF rec] s narrow [OF refl ml, of e] strictly_sorted_iff [OF s(1) k ml] strictly_sorted_iff [OF s(1) ml k] ml
    by auto
qed

lemma locationFor_first:
  assumes "strictly_sorted (e # xs)"
  shows "t = 0 \<Longrightarrow> 0 < n \<Longrightarrow> n \<le> length (e # xs) \<Longrightarrow> location_loop (e # xs) e t n = Some None"
proof (induction n arbitrary: t rule: less_induct)
  case (less n)
  let ?m = "middle 0 n"
  show ?case
  proof (cases "n > 1")
    case True
    then have m: "0 < ?m" "?m < n" using middle_bounds [of n 0] by simp_all
    then have ml: "?m < length (e # xs)" using less.prems(3) by simp
    have "e < (e # xs) ! ?m" using strictly_sorted_nth [OF assms m(1) ml] by simp
    then have "narrow_low (e # xs) e 0 n = 0" "narrow_high (e # xs) e 0 n = ?m" using narrow [OF refl ml, of e] by auto
    then show ?thesis
      using less.IH [OF m(2)] m ml less.prems(1) True by (simp add: location_loop.simps [of _ _ 0 n])
  next
    case False
    then have "n = 1" using less.prems(2) by simp
    then show ?thesis using less.prems(1) by (simp add: location_loop.simps [of _ _ 0 "Suc 0"] middle_def elem_def js_less_def)
  qed
qed

lemma locationFor_ends:
  assumes "strictly_sorted xs"
  shows "locationFor e xs \<noteq> None \<longleftrightarrow> e \<notin> set (tl xs)"
proof (cases "e \<in> set xs")
  case False
  then have "e \<notin> set (tl xs)" by (cases xs) auto
  then show ?thesis using locationFor_finds [OF assms False] by auto
next
  case True
  then obtain k where k: "k < length xs" "xs ! k = e" by (auto simp: in_set_conv_nth)
  show ?thesis
  proof (cases k)
    case 0
    then obtain ys where ys: "xs = e # ys" using k by (cases xs) auto
    then have "e \<notin> set ys" using assms by (auto simp: strictly_sorted_def)
    then show ?thesis using locationFor_first [of e ys 0 "length xs"] assms ys by (simp add: locationFor_def)
  next
    case (Suc j)
    then have "e \<in> set (tl xs)" using k by (cases xs) auto
    moreover have "locationFor e xs = None"
    proof (cases "locationFor e xs")
      case (Some y)
      then show ?thesis
        using location_loop_stuck [of xs e 0 "length xs" y k] assms k Suc by (simp add: locationFor_def)
    qed
    ultimately show ?thesis by simp
  qed
qed

section \<open>The set operations\<close>

text \<open>The contract of an ordered set: every operation returns, keeps the invariant and is the
  operation of the same name on the abstract set.\<close>

locale ordered_set =
  fixes new :: 's and add :: "'a list \<Rightarrow> 's \<Rightarrow> 's option" and inv :: "'s \<Rightarrow> bool" and abs :: "'s \<Rightarrow> 'a set"
  assumes new: "inv new" "abs new = {}"
    and add: "inv s \<Longrightarrow> \<exists>r. add ys s = Some r \<and> inv r \<and> abs r = abs s \<union> set ys"
begin

lemma add_obtain:
  assumes "inv s"
  obtains r where "add ys s = Some r" "inv r" "abs r = abs s \<union> set ys"
  using add [OF assms] by blast

end

definition set_inv :: "'a::linorder sorted_set \<Rightarrow> bool" where
  "set_inv s \<longleftrightarrow> strictly_sorted (ss_elements s) \<and> ss_length s = int (length (ss_elements s))"

definition set_abs :: "'a sorted_set \<Rightarrow> 'a set" where
  "set_abs s = set (ss_elements s)"

lemma splice_in_sorted:
  assumes "strictly_sorted xs" "splits_at x xs (case k of None \<Rightarrow> 0 | Some i \<Rightarrow> i)"
  shows "strictly_sorted (splice_in k x xs) \<and> set (splice_in k x xs) = insert x (set xs)"
proof -
  define i where "i = (case k of None \<Rightarrow> 0 | Some i \<Rightarrow> i)"
  have "sorted_wrt (<) (take i xs @ drop i xs)" "set (take i xs @ drop i xs) = set xs"
    using assms(1) by (simp_all add: strictly_sorted_def)
  then show ?thesis
    using assms(2) unfolding splice_in_def Let_def i_def [symmetric] strictly_sorted_def splits_at_def sorted_wrt_append set_append
    by auto
qed

lemma add_one_inserts:
  assumes "strictly_sorted xs"
  shows "\<exists>ys. add_one x xs = Some ys \<and> strictly_sorted ys \<and> set ys = insert x (set xs)"
proof (cases "x \<in> set xs")
  case True
  then obtain r where "set_indexOf x xs = Some r" "0 \<le> r" using set_indexOf_finds [OF assms, of x] by auto
  then show ?thesis using assms True by (auto simp: add_one_def)
next
  case False
  then have "set_indexOf x xs = Some (- 1)" using set_indexOf_finds [OF assms, of x] by auto
  moreover obtain k where "locationFor x xs = Some k" "splits_at x xs (case k of None \<Rightarrow> 0 | Some i \<Rightarrow> i)"
    using locationFor_finds [OF assms False] by blast
  ultimately show ?thesis using splice_in_sorted [OF assms] by (simp add: add_one_def)
qed

lemma add_all_inserts:
  "strictly_sorted xs \<Longrightarrow> \<exists>zs. add_all ys xs = Some zs \<and> strictly_sorted zs \<and> set zs = set xs \<union> set ys"
proof (induction ys arbitrary: xs)
  case (Cons y ys)
  obtain xs' where x: "add_one y xs = Some xs'" "strictly_sorted xs'" "set xs' = insert y (set xs)"
    using add_one_inserts [OF Cons.prems] by blast
  then show ?case using Cons.IH [OF x(2)] by auto
qed simp

interpretation sset: ordered_set sorted_set_new sorted_set_add set_inv set_abs
proof
  show "set_inv sorted_set_new" "set_abs sorted_set_new = {}"
    by (simp_all add: sorted_set_new_def set_inv_def set_abs_def strictly_sorted_def)
  fix s :: "'a sorted_set" and ys
  assume "set_inv s"
  then show "\<exists>r. sorted_set_add ys s = Some r \<and> set_inv r \<and> set_abs r = set_abs s \<union> set ys"
    using add_all_inserts [of "ss_elements s" ys] by (auto simp: sorted_set_add_def set_inv_def set_abs_def)
qed

lemma add_each_inserts:
  "set_inv s \<Longrightarrow> \<exists>r. add_each ys s = Some r \<and> set_inv r \<and> set_abs r = set_abs s \<union> set ys"
proof (induction ys arbitrary: s)
  case (Cons y ys)
  obtain s' where s: "sorted_set_add [y] s = Some s'" "set_inv s'" "set_abs s' = set_abs s \<union> set [y]"
    by (rule sset.add_obtain [OF Cons.prems])
  then show ?case using Cons.IH [OF s(2)] by auto
qed simp

lemma union_unites:
  assumes "set_inv a" "set_inv b"
  shows "\<exists>r. union a b = Some r \<and> set_inv r \<and> set_abs r = set_abs a \<union> set_abs b"
proof -
  have c: "set_inv (clone s) \<and> set_abs (clone s) = set_abs s" if "set_inv s" for s :: "'a sorted_set"
    using that by (simp add: set_inv_def set_abs_def clone_def toArray_def)
  show ?thesis
    using add_each_inserts [of "clone a" "toArray b"] add_each_inserts [of "clone b" "toArray a"] c [OF assms(1)] c [OF assms(2)]
    by (auto simp: union_def toArray_def set_abs_def)
qed

lemma later_above:
  "strictly_sorted xs \<Longrightarrow> n < length xs \<Longrightarrow> y \<in> set (drop (Suc n) xs) \<Longrightarrow> xs ! n < y"
  by (auto simp: in_set_conv_nth strictly_sorted_nth)

lemma intersect_loop_steps:
  assumes "set_inv a" "set_inv b" "n < length (ss_elements a)" "i < length (ss_elements b)"
  shows "ss_elements a ! n < ss_elements b ! i \<Longrightarrow> intersect_loop a b n i t = intersect_loop a b (Suc n) i t"
    and "ss_elements b ! i < ss_elements a ! n \<Longrightarrow> intersect_loop a b n i t = intersect_loop a b n (Suc i) t"
    and "ss_elements a ! n = ss_elements b ! i \<Longrightarrow> sorted_set_add [ss_elements a ! n] t = Some t' \<Longrightarrow>
      intersect_loop a b n i t = intersect_loop a b (Suc n) (Suc i) t'"
  using assms by (auto simp: intersect_loop.simps [of a b n i] elem_def js_less_def set_inv_def Let_def)

lemma intersect_loop_meets:
  assumes a: "set_inv a" and b: "set_inv b"
  shows "set_inv t \<Longrightarrow> \<exists>r. intersect_loop a b n i t = Some r \<and> set_inv r \<and>
    set_abs r = set_abs t \<union> set (drop n (ss_elements a)) \<inter> set (drop i (ss_elements b))"
proof (induction "length (ss_elements a) - n + (length (ss_elements b) - i)" arbitrary: n i t rule: less_induct)
  case less
  let ?xs = "ss_elements a" and ?ys = "ss_elements b"
  have len: "ss_length a = int (length ?xs)" "ss_length b = int (length ?ys)" "strictly_sorted ?xs" "strictly_sorted ?ys"
    using a b by (simp_all add: set_inv_def)
  show ?case
  proof (cases "length ?xs \<le> n \<or> length ?ys \<le> i")
    case True
    then show ?thesis using less.prems len by (auto simp: intersect_loop.simps [of a b n])
  next
    case False
    then have bounds: "n < length ?xs" "i < length ?ys" by simp_all
    then have d: "set (drop n ?xs) = insert (?xs ! n) (set (drop (Suc n) ?xs))"
        "set (drop i ?ys) = insert (?ys ! i) (set (drop (Suc i) ?ys))"
      by (simp_all add: Cons_nth_drop_Suc [symmetric])
    have above: "\<forall>x\<in>set (drop (Suc n) ?xs). ?xs ! n < x" "\<forall>y\<in>set (drop (Suc i) ?ys). ?ys ! i < y"
      using later_above len bounds by blast+
    consider "?xs ! n < ?ys ! i" | "?ys ! i < ?xs ! n" | "?xs ! n = ?ys ! i" by fastforce
    then show ?thesis
    proof cases
      case 1
      have "set (drop n ?xs) \<inter> set (drop i ?ys) = set (drop (Suc n) ?xs) \<inter> set (drop i ?ys)"
        using 1 above d by fastforce
      then show ?thesis using less.hyps [of "Suc n" i t] less.prems bounds 1 intersect_loop_steps(1) [OF a b bounds] by simp
    next
      case 2
      have "set (drop n ?xs) \<inter> set (drop i ?ys) = set (drop n ?xs) \<inter> set (drop (Suc i) ?ys)"
        using 2 above d by fastforce
      then show ?thesis using less.hyps [of n "Suc i" t] less.prems bounds 2 intersect_loop_steps(2) [OF a b bounds] by simp
    next
      case 3
      obtain t' where t: "sorted_set_add [?xs ! n] t = Some t'" "set_inv t'" "set_abs t' = set_abs t \<union> set [?xs ! n]"
        by (rule sset.add_obtain [OF less.prems])
      have "set (drop n ?xs) \<inter> set (drop i ?ys) = insert (?xs ! n) (set (drop (Suc n) ?xs) \<inter> set (drop (Suc i) ?ys))"
        using 3 above d by fastforce
      then show ?thesis using less.hyps [of "Suc n" "Suc i" t'] t bounds 3 intersect_loop_steps(3) [OF a b bounds] by auto
    qed
  qed
qed

section \<open>Properties\<close>

text \<open>C18: The sorted set implements a set. Adding elements, uniting and intersecting always return,
  keep the elements strictly ascending and the length right, and yield the set with the elements
  added, the union and the intersection; the binary search finds exactly the members.\<close>
theorem sorted_set_refines:
  assumes "set_inv a" and "set_inv b"
  shows "(\<exists>r. sorted_set_add ys a = Some r \<and> set_inv r \<and> set_abs r = set_abs a \<union> set ys) \<and>
    (\<exists>r. union a b = Some r \<and> set_inv r \<and> set_abs r = set_abs a \<union> set_abs b) \<and>
    (\<exists>r. intersect a b = Some r \<and> set_inv r \<and> set_abs r = set_abs a \<inter> set_abs b) \<and>
    (\<exists>i. set_indexOf x (ss_elements a) = Some i \<and> (i \<noteq> - 1 \<longleftrightarrow> x \<in> set_abs a))"
proof -
  have "\<exists>i. set_indexOf x (ss_elements a) = Some i \<and> (i \<noteq> - 1 \<longleftrightarrow> x \<in> set_abs a)"
    using set_indexOf_finds [of "ss_elements a" x] assms(1) by (auto simp: set_inv_def set_abs_def split: if_splits)
  moreover have "\<exists>r. intersect a b = Some r \<and> set_inv r \<and> set_abs r = set_abs a \<inter> set_abs b"
    using intersect_loop_meets [OF assms sset.new(1), of 0 0] by (simp add: intersect_def sset.new(2)) (simp add: set_abs_def)
  ultimately show ?thesis using sset.add [OF assms(1)] union_unites [OF assms] by blast
qed

theorem sorted_set_refines_witness:
  "map_option ss_elements (intersect (sorted_set_load [1, 3, 4]) (sorted_set_load [3, 4, 9 :: int])) = Some [3, 4] \<and>
   (\<exists>r. intersect (sorted_set_load [1, 3, 4]) (sorted_set_load [3, 4, 9 :: int]) = Some r \<and>
     set_abs r = set_abs (sorted_set_load [1, 3, 4]) \<inter> set_abs (sorted_set_load [3, 4, 9]))"
proof -
  have i: "set_inv (sorted_set_load [1, 3, 4 :: int])" "set_inv (sorted_set_load [3, 4, 9 :: int])"
    by (simp_all add: set_inv_def sorted_set_load_def strictly_sorted_def)
  have "map_option ss_elements (intersect (sorted_set_load [1, 3, 4]) (sorted_set_load [3, 4, 9 :: int])) = Some [3, 4]"
    by code_simp
  then show ?thesis using sorted_set_refines [OF i] by blast
qed

text \<open>Searching the place of an element ends exactly if the element is not behind the first one.
  On any other element of the array neither comparison of the loop succeeds when it looks at it, so
  the bounds stay as they are for ever; the code is safe because it searches a place only for
  elements that are not in the array.\<close>
theorem locationFor_returns:
  assumes "strictly_sorted xs"
  shows "locationFor e xs \<noteq> None \<longleftrightarrow> e \<notin> set (tl xs)"
  using assms by (rule locationFor_ends)

theorem locationFor_returns_witness:
  "locationFor (2 :: int) [1, 2, 3] = None \<and> locationFor (1 :: int) [1, 2, 3] = Some None \<and>
   locationFor (4 :: int) [1, 2, 3] = Some (Some 3)"
proof -
  have "locationFor (2 :: int) [1, 2, 3] = None"
    using locationFor_returns [of "[1, 2, 3 :: int]" 2] by (simp add: strictly_sorted_def)
  moreover have "locationFor (1 :: int) [1, 2, 3] = Some None \<and> locationFor (4 :: int) [1, 2, 3] = Some (Some 3)"
    by code_simp
  ultimately show ?thesis by blast
qed

end
