(* ===== verification/YamlScalar.thy ===== *)
theory YamlScalar
  imports Prelude
begin

text \<open>
  \<open>internal/ui/assets/assets/index-DHyr8oiy.js\<close>, lines 214 to 244: how the YAML library of the
  web UI turns the source of a scalar token into its value. Block scalars
  (\<open>KGt\<close>, \<open>qGt\<close>, \<open>JGt\<close>), plain (\<open>XGt\<close>), single-quoted (\<open>ZGt\<close>) and double-quoted (\<open>$Gt\<close>)
  scalars, line folding (\<open>QGt\<close>, \<open>eKt\<close>) and character escapes (\<open>tKt\<close>, \<open>nKt\<close>). The file is a
  bundle; the definitions keep its minified names as comments and carry readable ones.

  A JavaScript string is the list of its UTF-16 code units. An error callback is modelled by the
  list of the reported errors with their offset; \<open>None\<close> is a thrown exception. A loop over an
  index of a string is a recursion over the rest of the string from that index. The sticky
  regular expressions of \<open>QGt\<close> are written out: each takes one line, drops one carriage return
  before the line feed and the blanks before that, and (from the second line on) the leading
  blanks.
\<close>

type_synonym ustr = "nat list"

definition u :: "string \<Rightarrow> ustr" where
  "u s = map of_char s"

datatype err_code =
    MISSING_CHAR | BAD_INDENT | UNEXPECTED_TOKEN | BAD_SCALAR_START | BAD_DQ_ESCAPE | IMPOSSIBLE
  | TAB_AS_INDENT | MULTIPLE_ANCHORS | MULTIPLE_TAGS | BAD_PROP_ORDER | BAD_ALIAS
  | BLOCK_AS_IMPLICIT_KEY | MULTILINE_IMPLICIT_KEY | DUPLICATE_KEY | KEY_OVER_1024_CHARS | BLOCK_IN_FLOW

type_synonym yerr = "int \<times> err_code"

definition blank :: "nat \<Rightarrow> bool" where
  "blank c = (c = 32 \<or> c = 9)"

abbreviation (input) LF :: nat where "LF \<equiv> 10"
abbreviation (input) CR :: nat where "CR \<equiv> 13"

section \<open>Folding of flow scalars\<close>

definition rstrip :: "ustr \<Rightarrow> ustr" where
  "rstrip s = rev (dropWhile blank (rev s))"

definition lstrip :: "ustr \<Rightarrow> ustr" where
  "lstrip s = dropWhile blank s"

definition drop_cr :: "ustr \<Rightarrow> ustr" where
  "drop_cr s = (if s \<noteq> [] \<and> last s = CR then butlast s else s)"

text \<open>The text before the first line feed, and what follows it.\<close>

definition take_line :: "ustr \<Rightarrow> (ustr \<times> ustr) option" where
  "take_line s =
     (case dropWhile (\<lambda>c. c \<noteq> LF) s of [] \<Rightarrow> None | _ # rest \<Rightarrow> Some (takeWhile (\<lambda>c. c \<noteq> LF) s, rest))"

lemma take_line_length: "take_line s = Some (l, rest) \<Longrightarrow> length rest < length s"
proof -
  assume "take_line s = Some (l, rest)"
  then have "\<exists>c. dropWhile (\<lambda>c. c \<noteq> LF) s = c # rest"
    by (auto simp: take_line_def split: list.splits)
  then show ?thesis using length_dropWhile_le [of "\<lambda>c. c \<noteq> LF" s] by auto
qed

function fold_lines :: "ustr \<Rightarrow> ustr \<Rightarrow> ustr \<Rightarrow> ustr" where
  "fold_lines i a s =
     (case take_line s of
        None \<Rightarrow> i @ a @ lstrip s
      | Some (l, rest) \<Rightarrow>
          (let c = lstrip (rstrip (drop_cr l)) in
           if c = [] then
             (if a = [LF] then fold_lines (i @ a) a rest else fold_lines i [LF] rest)
           else fold_lines (i @ a @ c) [32] rest))"
  by pat_completeness auto
termination by (relation "measure (\<lambda>(_, _, s). length s)") (auto dest: take_line_length)

declare fold_lines.simps [simp del]

text \<open>\<open>QGt\<close>\<close>

definition foldLines :: "ustr \<Rightarrow> ustr" where
  "foldLines e =
     (case take_line e of
        None \<Rightarrow> e
      | Some (l, rest) \<Rightarrow> fold_lines (rstrip (drop_cr l)) [32] rest)"

section \<open>Plain and single-quoted scalars\<close>

text \<open>\<open>XGt\<close>\<close>

definition plainValue :: "ustr \<Rightarrow> ustr \<times> yerr list" where
  "plainValue e =
     (foldLines e,
      case e of
        [] \<Rightarrow> []
      | c # _ \<Rightarrow> if c \<in> {9, 44, 37, 124, 62, 64, 96} then [(0, BAD_SCALAR_START)] else [])"

text \<open>\<open>e.slice(1,-1)\<close>\<close>

definition unquote :: "ustr \<Rightarrow> ustr" where
  "unquote e = butlast (tl e)"

fun undouble :: "ustr \<Rightarrow> ustr" where
  "undouble (a # b # s) = (if a = 39 \<and> b = 39 then 39 # undouble s else a # undouble (b # s))"
| "undouble s = s"

text \<open>\<open>ZGt\<close>\<close>

definition singleQuotedValue :: "ustr \<Rightarrow> ustr \<times> yerr list" where
  "singleQuotedValue e =
     (undouble (foldLines (unquote e)),
      if e = [] \<or> last e \<noteq> 39 \<or> length e = 1 then [(int (length e), MISSING_CHAR)] else [])"

section \<open>Double-quoted scalars\<close>

text \<open>\<open>eKt\<close>: the folded text after a line break, and how far it reaches.\<close>

fun fold_newline :: "ustr \<Rightarrow> ustr \<times> nat" where
  "fold_newline (r # s) =
     (if (r = 32 \<or> r = 9 \<or> r = LF \<or> r = CR) \<and> \<not> (r = CR \<and> (s = [] \<or> hd s \<noteq> LF)) then
        (let (n, k) = fold_newline s in (if r = LF then LF # n else n, Suc k))
      else ([], 0))"
| "fold_newline [] = ([], 0)"

definition foldNewline :: "ustr \<Rightarrow> ustr \<times> nat" where
  "foldNewline s = (let (n, k) = fold_newline s in (if n = [] then [32] else n, k))"

text \<open>\<open>tKt\<close>\<close>

definition escapes :: "(nat, ustr) gomap" where
  "escapes =
     [(48, [0]), (97, [7]), (98, [8]), (101, [27]), (102, [12]), (110, [10]), (114, [13]),
      (116, [9]), (118, [11]), (78, [133]), (95, [160]), (76, [8232]), (80, [8233]), (32, [32]),
      (34, [34]), (47, [47]), (92, [92]), (9, [9])]"

definition hex_digit :: "nat \<Rightarrow> nat option" where
  "hex_digit c =
     (if 48 \<le> c \<and> c \<le> 57 then Some (c - 48)
      else if 97 \<le> c \<and> c \<le> 102 then Some (c - 87)
      else if 65 \<le> c \<and> c \<le> 70 then Some (c - 55)
      else None)"

fun parse_hex :: "nat \<Rightarrow> ustr \<Rightarrow> nat option" where
  "parse_hex acc [] = Some acc"
| "parse_hex acc (c # s) =
     (case hex_digit c of None \<Rightarrow> None | Some d \<Rightarrow> parse_hex (16 * acc + d) s)"

text \<open>\<open>String.fromCodePoint\<close> throws beyond the last code point.\<close>

definition fromCodePoint :: "nat \<Rightarrow> ustr option" where
  "fromCodePoint a =
     (if a > 1114111 then None
      else if a < 65536 then Some [a]
      else Some [55296 + (a - 65536) div 1024, 56320 + (a - 65536) mod 1024])"

text \<open>\<open>nKt\<close>, with \<open>s\<close> the text after the escape letter \<open>c\<close>, which stands at \<open>pos\<close>.\<close>

definition parseCharCode :: "nat \<Rightarrow> nat \<Rightarrow> nat \<Rightarrow> ustr \<Rightarrow> (ustr \<times> yerr list) option" where
  "parseCharCode pos c n s =
     (let cc = take n s in
      case (if length cc = n then parse_hex 0 cc else None) of
        None \<Rightarrow> Some ([92, c] @ cc, [(int pos - 1, BAD_DQ_ESCAPE)])
      | Some a \<Rightarrow> map_option (\<lambda>v. (v, [])) (fromCodePoint a))"

definition blanks :: "ustr \<Rightarrow> nat" where
  "blanks s = length (takeWhile blank s)"

definition prepend :: "ustr \<times> yerr list \<Rightarrow> (ustr \<times> yerr list) option \<Rightarrow> (ustr \<times> yerr list) option" where
  "prepend p r = (case r of None \<Rightarrow> None | Some (v, es) \<Rightarrow> Some (fst p @ v, snd p @ es))"

definition code_length :: "nat \<Rightarrow> nat" where
  "code_length c = (if c = 120 then 2 else if c = 117 then 4 else 8)"

text \<open>\<open>crlf s\<close>: \<open>s\<close> starts with a carriage return and a line feed.\<close>

definition crlf :: "ustr \<Rightarrow> bool" where
  "crlf s = (case s of a # b # _ \<Rightarrow> a = CR \<and> b = LF | _ \<Rightarrow> False)"

text \<open>The loop of \<open>$Gt\<close>: \<open>xs\<close> is the source from index \<open>pos\<close>; the last character is not read.\<close>

function dq_loop :: "nat \<Rightarrow> ustr \<Rightarrow> (ustr \<times> yerr list) option" where
  "dq_loop pos xs =
     (case xs of
        i # c # rest \<Rightarrow>
          if i = CR \<and> c = LF then dq_loop (pos + 1) (c # rest)
          else if i = LF then
            (let (f, k) = foldNewline (c # rest)
             in prepend (f, []) (dq_loop (pos + 1 + k) (drop k (c # rest))))
          else if i = 92 then
            (case map_of escapes c of
               Some a \<Rightarrow> prepend (a, []) (dq_loop (pos + 2) rest)
             | None \<Rightarrow>
                 if c = LF then dq_loop (pos + 2 + blanks rest) (drop (blanks rest) rest)
                 else if crlf (c # rest) then
                   dq_loop (pos + 3 + blanks (tl rest)) (drop (blanks (tl rest)) (tl rest))
                 else if c = 120 \<or> c = 117 \<or> c = 85 then
                   (case parseCharCode (pos + 1) c (code_length c) rest of
                      None \<Rightarrow> None
                    | Some p \<Rightarrow>
                        prepend p (dq_loop (pos + 2 + code_length c) (drop (code_length c) rest)))
                 else prepend ([92, c], [(int pos, BAD_DQ_ESCAPE)]) (dq_loop (pos + 2) rest))
          else if blank i then
            (let k = blanks (c # rest); after = drop k (c # rest) in
             prepend
               (if (after = [] \<or> hd after \<noteq> LF) \<and> \<not> crlf after then i # take k (c # rest) else [], [])
               (dq_loop (pos + 1 + k) after))
          else prepend ([i], []) (dq_loop (pos + 1) (c # rest))
      | _ \<Rightarrow> Some ([], []))"
  by pat_completeness auto
termination by (relation "measure (\<lambda>(_, xs). length xs)") auto

declare dq_loop.simps [simp del]

text \<open>\<open>$Gt\<close>\<close>

definition doubleQuotedValue :: "ustr \<Rightarrow> (ustr \<times> yerr list) option" where
  "doubleQuotedValue e =
     map_option (\<lambda>(v, es). (v,
         es @ (if e = [] \<or> last e \<noteq> 34 \<or> length e = 1 then [(int (length e), MISSING_CHAR)] else [])))
       (dq_loop 1 (tl e))"

section \<open>Block scalars\<close>

datatype prop_type =
    T_header | T_space | T_newline | T_comment | T_error | T_other

record prop_token =
  pr_type :: prop_type
  pr_offset :: int
  pr_source :: ustr

record block_header =
  bh_mode :: nat
  bh_indent :: nat
  bh_chomp :: ustr
  bh_comment :: ustr
  bh_length :: nat

text \<open>The characters of the header: chomping sign, indentation digit, first stray character.\<close>

fun header_chars :: "int \<Rightarrow> ustr \<Rightarrow> ustr \<times> nat \<times> int option \<Rightarrow> ustr \<times> nat \<times> int option" where
  "header_chars off [] st = st"
| "header_chars off (n # s) (chomp, ind, bad) =
     header_chars (off + 1) s
       (if chomp = [] \<and> (n = 45 \<or> n = 43) then ([n], ind, bad)
        else if ind = 0 \<and> 49 \<le> n \<and> n \<le> 57 then (chomp, n - 48, bad)
        else (chomp, ind, if bad = None then Some off else bad))"

fun header_props ::
    "bool \<Rightarrow> prop_token list \<Rightarrow> bool \<times> ustr \<times> nat \<times> yerr list \<Rightarrow> bool \<times> ustr \<times> nat \<times> yerr list" where
  "header_props strict [] st = st"
| "header_props strict (p # ps) (space, comment, len, errs) =
     header_props strict ps
       (case pr_type p of
          T_space \<Rightarrow> (True, comment, len + length (pr_source p), errs)
        | T_newline \<Rightarrow> (space, comment, len + length (pr_source p), errs)
        | T_comment \<Rightarrow>
            (space, tl (pr_source p), len + length (pr_source p),
             errs @ (if strict \<and> \<not> space then [(pr_offset p, MISSING_CHAR)] else []))
        | _ \<Rightarrow> (space, comment, len + length (pr_source p), errs @ [(pr_offset p, UNEXPECTED_TOKEN)]))"

text \<open>\<open>qGt\<close>\<close>

definition parseBlockScalarHeader ::
    "int \<Rightarrow> prop_token list \<Rightarrow> bool \<Rightarrow> block_header option \<times> yerr list" where
  "parseBlockScalarHeader offset props strict =
     (case props of
        [] \<Rightarrow> (None, [])
      | h # ps \<Rightarrow>
          if pr_type h \<noteq> T_header then (None, [(pr_offset h, IMPOSSIBLE)])
          else
            (let (chomp, ind, bad) = header_chars (offset + 1) (tl (pr_source h)) ([], 0, None);
                 errs = (case bad of None \<Rightarrow> [] | Some b \<Rightarrow> [(b, UNEXPECTED_TOKEN)]);
                 (space, comment, len, errs') = header_props strict ps (False, [], length (pr_source h), errs)
             in (Some \<lparr>bh_mode = hd (pr_source h), bh_indent = ind, bh_chomp = chomp,
                       bh_comment = comment, bh_length = len\<rparr>, errs')))"

type_synonym yline = "ustr \<times> ustr"

fun split_lf :: "ustr \<Rightarrow> ustr list" where
  "split_lf [] = [[]]"
| "split_lf (c # s) =
     (if c = LF then [] # split_lf s
      else case split_lf s of [] \<Rightarrow> [[c]] | l # ls \<Rightarrow> (c # l) # ls)"

definition indent_of :: "ustr \<Rightarrow> yline" where
  "indent_of l = (takeWhile (\<lambda>c. c = 32) l, dropWhile (\<lambda>c. c = 32) l)"

text \<open>\<open>JGt\<close>\<close>

definition splitLines :: "ustr \<Rightarrow> yline list" where
  "splitLines s = map indent_of (split_lf s)"

definition empty_line :: "yline \<Rightarrow> bool" where
  "empty_line l = (snd l = [] \<or> snd l = [CR])"

definition content_end :: "yline list \<Rightarrow> nat" where
  "content_end ls = length (dropWhile empty_line (rev ls))"

text \<open>The first line with content fixes the indentation: the indentation, the line's index, the
  errors and the offset of the line.\<close>

fun find_content ::
    "bool \<Rightarrow> nat \<Rightarrow> yline list \<Rightarrow> nat \<Rightarrow> int \<Rightarrow> int \<Rightarrow> int \<times> nat \<times> yerr list \<times> int" where
  "find_content atRoot ind [] t c off = (c, 0, [], off)"
| "find_content atRoot ind ((sp, con) # ls) t c off =
     (if empty_line (sp, con) then
        find_content atRoot ind ls (Suc t)
          (if ind = 0 \<and> int (length sp) > c then int (length sp) else c)
          (off + int (length sp) + int (length con) + 1)
      else
        (let c' = (if ind = 0 then int (length sp) else c) in
         (c', t,
          (if int (length sp) < c then [(off + int (length sp), MISSING_CHAR)] else []) @
          (if c' = 0 \<and> \<not> atRoot then [(off, BAD_INDENT)] else []), off)))"

text \<open>Trailing lines of blanks beyond the indentation belong to the content.\<close>

definition extend_end :: "int \<Rightarrow> yline list \<Rightarrow> nat \<Rightarrow> nat" where
  "extend_end c ls s =
     s + length (dropWhile (\<lambda>l. \<not> int (length (fst l)) > c) (rev (drop s ls)))"

definition slice_from :: "int \<Rightarrow> ustr \<Rightarrow> ustr" where
  "slice_from c s = drop (nat c) s"

record block_acc =
  ba_value :: ustr
  ba_sep :: ustr
  ba_more :: bool
  ba_off :: int
  ba_errs :: "yerr list"

definition block_line :: "bool \<Rightarrow> int \<Rightarrow> yline \<Rightarrow> block_acc \<Rightarrow> block_acc" where
  "block_line literal c l acc =
     (let (sp, con0) = l;
          off = ba_off acc + int (length sp) + int (length con0) + 1;
          cr = (con0 \<noteq> [] \<and> last con0 = CR);
          con = (if cr then butlast con0 else con0);
          bad = (con \<noteq> [] \<and> int (length sp) < c);
          errs = ba_errs acc @
            (if bad then [(off - int (length con) - (if cr then 2 else 1), BAD_INDENT)] else []);
          ind = (if bad then [] else sp);
          d = ba_value acc; f = ba_sep acc; p = ba_more acc
      in
      if literal then
        \<lparr>ba_value = d @ f @ slice_from c ind @ con, ba_sep = [LF], ba_more = p, ba_off = off, ba_errs = errs\<rparr>
      else if int (length ind) > c \<or> (con \<noteq> [] \<and> hd con = 9) then
        (let f' = (if f = [32] then [LF] else if \<not> p \<and> f = [LF] then [LF, LF] else f) in
         \<lparr>ba_value = d @ f' @ slice_from c ind @ con, ba_sep = [LF], ba_more = True, ba_off = off, ba_errs = errs\<rparr>)
      else if con = [] then
        (if f = [LF]
         then \<lparr>ba_value = d @ [LF], ba_sep = f, ba_more = p, ba_off = off, ba_errs = errs\<rparr>
         else \<lparr>ba_value = d, ba_sep = [LF], ba_more = p, ba_off = off, ba_errs = errs\<rparr>)
      else \<lparr>ba_value = d @ f @ con, ba_sep = [32], ba_more = False, ba_off = off, ba_errs = errs\<rparr>)"

definition chomp_tail :: "ustr \<Rightarrow> int \<Rightarrow> yline list \<Rightarrow> ustr \<Rightarrow> ustr" where
  "chomp_tail chomp c tail d =
     (if chomp = [45] then d
      else if chomp = [43] then
        (let d' = d @ concat (map (\<lambda>l. LF # slice_from c (fst l)) tail)
         in if d' = [] \<or> last d' \<noteq> LF then d' @ [LF] else d')
      else d @ [LF])"

record block_token =
  bt_offset :: int
  bt_indent :: int
  bt_props :: "prop_token list"
  bt_source :: ustr

text \<open>\<open>KGt\<close>: the value and the reported errors.\<close>

definition resolveBlockScalar :: "bool \<Rightarrow> bool \<Rightarrow> block_token \<Rightarrow> ustr \<times> yerr list" where
  "resolveBlockScalar strict atRoot t =
     (case parseBlockScalarHeader (bt_offset t) (bt_props t) strict of
        (None, errs) \<Rightarrow> ([], errs)
      | (Some h, errs) \<Rightarrow>
          (let ls = (if bt_source t = [] then [] else splitLines (bt_source t));
               s0 = content_end ls
           in
           if s0 = 0 then
             (if bh_chomp h = [43] \<and> ls \<noteq> [] then replicate (max 1 (length ls - 1)) LF else [], errs)
           else
             (let (c, first, errs1, off) =
                    find_content atRoot (bh_indent h) (take s0 ls) 0
                      (bt_indent t + int (bh_indent h)) (bt_offset t + int (bh_length h));
                  s = extend_end c ls s0;
                  d0 = concat (map (\<lambda>l. slice_from c (fst l) @ [LF]) (take first ls));
                  acc = fold (block_line (bh_mode h \<noteq> 62) c) (drop first (take s ls))
                          \<lparr>ba_value = d0, ba_sep = [], ba_more = False, ba_off = off, ba_errs = []\<rparr>
              in (chomp_tail (bh_chomp h) c (drop s ls) (ba_value acc), errs @ errs1 @ ba_errs acc))))"

section \<open>Facts\<close>

lemma parse_hex_bound: "parse_hex acc s = Some a \<Longrightarrow> a < (acc + 1) * 16 ^ length s"
proof (induction s arbitrary: acc)
  case (Cons c s)
  then obtain d where d: "hex_digit c = Some d" "parse_hex (16 * acc + d) s = Some a"
    by (auto split: option.splits)
  then have "a < (16 * acc + d + 1) * 16 ^ length s" using Cons.IH by blast
  moreover have "d < 16" using d(1) by (auto simp: hex_digit_def split: if_splits)
  then have "(16 * acc + d + 1) * 16 ^ length s \<le> (16 * (acc + 1)) * 16 ^ length s"
    by (intro mult_right_mono) auto
  ultimately have "a < (16 * (acc + 1)) * 16 ^ length s" by (rule less_le_trans)
  also have "\<dots> = (acc + 1) * 16 ^ length (c # s)" by (simp add: algebra_simps)
  finally show ?case .
qed simp

lemma parseCharCode_returns:
  assumes "c = 120 \<or> c = 117"
  shows "parseCharCode pos c (code_length c) s \<noteq> None"
proof (cases "if length (take (code_length c) s) = code_length c then parse_hex 0 (take (code_length c) s) else None")
  case (Some a)
  then have len: "length (take (code_length c) s) = code_length c"
    and "parse_hex 0 (take (code_length c) s) = Some a" by (auto split: if_splits)
  then have "a < 16 ^ code_length c" using parse_hex_bound [of 0] by fastforce
  moreover have "(16::nat) ^ code_length c \<le> 65536" using assms by (auto simp: code_length_def)
  ultimately have "fromCodePoint a = Some [a]" by (simp add: fromCodePoint_def)
  with Some show ?thesis by (simp add: parseCharCode_def Let_def)
qed (simp add: parseCharCode_def Let_def)

lemma prepend_None [simp]: "prepend p r = None \<longleftrightarrow> r = None"
  by (auto simp: prepend_def split: option.splits)

lemma returns_intros:
  "(P \<Longrightarrow> a \<noteq> None) \<Longrightarrow> (\<not> P \<Longrightarrow> b \<noteq> None) \<Longrightarrow> (if P then a else b) \<noteq> None"
  "(x = None \<Longrightarrow> a \<noteq> None) \<Longrightarrow> (\<And>y. x = Some y \<Longrightarrow> f y \<noteq> None) \<Longrightarrow>
     (case x of None \<Rightarrow> a | Some y \<Rightarrow> f y) \<noteq> None"
  "r \<noteq> None \<Longrightarrow> prepend p r \<noteq> None"
  by (auto split: option.split)

lemma dq_loop_returns: "85 \<notin> set xs \<Longrightarrow> dq_loop pos xs \<noteq> None"
proof (induction "length xs" arbitrary: pos xs rule: less_induct)
  case less
  show ?case
  proof (cases "\<exists>i c rest. xs = i # c # rest")
    case True
    then obtain i c rest where xs: "xs = i # c # rest" by blast
    have IH: "length ys < length xs \<Longrightarrow> set ys \<subseteq> set xs \<Longrightarrow> dq_loop p ys \<noteq> None" for p ys
      using less by blast
    have d: "set (drop k rest) \<subseteq> set xs" "set (drop k (c # rest)) \<subseteq> set xs" for k
      using set_drop_subset [of k rest] set_drop_subset [of k "c # rest"] by (auto simp: xs)
    have calls: "dq_loop p (c # rest) \<noteq> None" "dq_loop p rest \<noteq> None"
      "dq_loop p (drop k rest) \<noteq> None" "dq_loop p (drop k (c # rest)) \<noteq> None" for p k
      by (rule IH; use d in \<open>auto simp: xs\<close>)+
        have more: "dq_loop p (drop k (tl rest)) \<noteq> None" for p k
      using calls(3) [of p "Suc k"] by (simp only: drop_Suc) simp
    have "c \<noteq> 85" using less.prems by (simp add: xs)
    then have code: "parseCharCode p c (code_length c) rest \<noteq> None" if "c = 120 \<or> c = 117 \<or> c = 85" for p
      using that parseCharCode_returns by blast
    show ?thesis
      unfolding xs dq_loop.simps [of pos "i # c # rest"] list.case Let_def split_beta
      by (intro returns_intros calls more) (use code in blast)+
  next
    case False
    then have "dq_loop pos xs = Some ([], [])"
      by (subst dq_loop.simps) (auto split: list.split)
    then show ?thesis by simp
  qed
qed

text \<open>A literal block: every line indented by \<open>c\<close> blanks and ended by a line feed.\<close>

definition literal_source :: "nat \<Rightarrow> ustr list \<Rightarrow> ustr" where
  "literal_source c ls = concat (map (\<lambda>l. replicate c 32 @ l @ [LF]) ls)"

fun join_from :: "ustr \<Rightarrow> ustr list \<Rightarrow> ustr" where
  "join_from f [] = []"
| "join_from f (l # ls) = f @ l @ join_from [LF] ls"

definition text_line :: "ustr \<Rightarrow> bool" where
  "text_line l \<longleftrightarrow> LF \<notin> set l \<and> (l \<noteq> [] \<longrightarrow> last l \<noteq> CR)"

definition has_content :: "ustr \<Rightarrow> bool" where
  "has_content l \<longleftrightarrow> dropWhile (\<lambda>c. c = 32) l \<noteq> []"

lemma split_lf_line: "LF \<notin> set l \<Longrightarrow> split_lf (l @ LF # s) = l # split_lf s"
  by (induction l) auto

lemma split_lf_literal:
  "\<forall>l\<in>set ls. LF \<notin> set l \<Longrightarrow> split_lf (literal_source c ls) = map (\<lambda>l. replicate c 32 @ l) ls @ [[]]"
proof (induction ls)
  case (Cons l ls)
  have "split_lf ((replicate c 32 @ l) @ LF # literal_source c ls) =
      (replicate c 32 @ l) # split_lf (literal_source c ls)"
    using Cons.prems by (intro split_lf_line) (auto dest: in_set_replicate [THEN iffD1])
  with Cons show ?case by (simp add: literal_source_def)
qed (simp add: literal_source_def)

definition literal_line :: "nat \<Rightarrow> ustr \<Rightarrow> yline" where
  "literal_line c l =
     (replicate c 32 @ takeWhile (\<lambda>c. c = 32) l, dropWhile (\<lambda>c. c = 32) l)"

lemma indent_of_literal: "indent_of (replicate c 32 @ l) = literal_line c l"
  by (induction c) (simp_all add: indent_of_def literal_line_def)

lemma splitLines_literal:
  "\<forall>l\<in>set ls. LF \<notin> set l \<Longrightarrow> splitLines (literal_source c ls) = map (literal_line c) ls @ [([], [])]"
  by (simp add: splitLines_def split_lf_literal indent_of_literal comp_def) (simp add: indent_of_def)

lemma text_line_content: "text_line l \<Longrightarrow> dropWhile P l \<noteq> [] \<Longrightarrow> last (dropWhile P l) \<noteq> CR"
proof -
  assume t: "text_line l" and ne: "dropWhile P l \<noteq> []"
  then have "last (takeWhile P l @ dropWhile P l) = last (dropWhile P l)" by (rule_tac last_appendR)
  then have "last (dropWhile P l) = last l" unfolding takeWhile_dropWhile_id by simp
  moreover have "l \<noteq> []" using ne by auto
  ultimately show ?thesis using t by (simp add: text_line_def)
qed

lemma block_line_literal:
  assumes "text_line l"
  shows "block_line True (int c) (literal_line c l) acc =
    \<lparr>ba_value = ba_value acc @ ba_sep acc @ l, ba_sep = [LF], ba_more = ba_more acc,
     ba_off = ba_off acc + int c + int (length l) + 1, ba_errs = ba_errs acc\<rparr>"
proof -
  have len: "length (takeWhile (\<lambda>c. c = 32) l) + length (dropWhile (\<lambda>c. c = 32) l) = length l"
    by (metis length_append takeWhile_dropWhile_id)
  then have len': "int (length (takeWhile (\<lambda>c. c = 32) l)) + int (length (dropWhile (\<lambda>c. c = 32) l)) = int (length l)"
    by linarith
  show ?thesis
    using text_line_content [OF assms, of "\<lambda>c. c = 32"] len'
    by (auto simp: block_line_def literal_line_def slice_from_def Let_def)
qed

lemma fold_literal:
  assumes "\<forall>l\<in>set ls. text_line l"
  shows "ba_value (fold (block_line True (int c)) (map (literal_line c) ls) acc) =
           ba_value acc @ join_from (ba_sep acc) ls \<and>
         ba_errs (fold (block_line True (int c)) (map (literal_line c) ls) acc) = ba_errs acc"
  using assms by (induction ls arbitrary: acc) (auto simp: block_line_literal)

lemma empty_literal_line: "text_line l \<Longrightarrow> empty_line (literal_line c l) \<longleftrightarrow> \<not> has_content l"
  using text_line_content [of l "\<lambda>c. c = 32"]
  by (auto simp: empty_line_def literal_line_def has_content_def simp del: dropWhile_eq_Nil_conv)

lemma content_end_literal:
  assumes "ls \<noteq> []" "text_line (last ls)" "has_content (last ls)"
  shows "content_end (map (literal_line c) ls @ [([], [])]) = length ls"
proof -
  have "rev (map (literal_line c) ls @ [([], [])]) =
      ([], []) # literal_line c (last ls) # rev (map (literal_line c) (butlast ls))"
    using assms(1) by (induction ls rule: rev_induct) auto
  then show ?thesis
    using assms by (simp add: content_end_def empty_line_def [of "([], [])"] empty_literal_line)
qed

lemma find_content_literal:
  assumes "text_line l" "has_content l" "hd l \<noteq> 32" "ind \<le> int c" "0 < c \<or> atRoot"
  shows "find_content atRoot 0 (literal_line c l # ls) 0 ind off = (int c, 0, [], off)"
proof -
  have "l \<noteq> []" using assms(2) by (auto simp: has_content_def)
  with assms(3) have "takeWhile (\<lambda>c. c = 32) l = []" by (cases l) auto
  then have line: "literal_line c l = (replicate c 32, dropWhile (\<lambda>c. c = 32) l)"
    by (simp add: literal_line_def)
  show ?thesis
    using empty_literal_line [OF assms(1), of c] assms(2,4,5) by (auto simp: line Let_def)
qed

lemma extend_end_literal: "extend_end (int c) (map (literal_line c) ls @ [([], [])]) (length ls) = length ls"
  by (simp add: extend_end_def)

section \<open>Properties\<close>

text \<open>A header token \<open>|\<close> or \<open>>\<close> with chomping sign, followed by its line break.\<close>

definition literal_token :: "int \<Rightarrow> int \<Rightarrow> ustr \<Rightarrow> ustr \<Rightarrow> block_token" where
  "literal_token off ind chomp src =
     \<lparr>bt_offset = off, bt_indent = ind,
      bt_props = [\<lparr>pr_type = T_header, pr_offset = off, pr_source = 124 # chomp\<rparr>,
                  \<lparr>pr_type = T_newline, pr_offset = off + 1 + int (length chomp), pr_source = [LF]\<rparr>],
      bt_source = src\<rparr>"

text \<open>C23: A literal block scalar keeps its text. Lines indented by the same number of blanks, of
  which the first starts with a non-blank and the last is not empty, read back as those lines
  joined by line feeds, with the final line feed dropped by \<open>-\<close> and kept otherwise, and no error
  is reported.\<close>
theorem literal_block_value:
  assumes "ls \<noteq> []" and "\<forall>l\<in>set ls. text_line l" and "has_content (hd ls)" and "hd (hd ls) \<noteq> 32"
    and "has_content (last ls)" and "ind \<le> int c" and "0 < c \<or> atRoot"
    and "chomp \<in> {[], [45], [43]}"
  shows "resolveBlockScalar strict atRoot (literal_token off ind chomp (literal_source c ls)) =
    (join_from [] ls @ (if chomp = [45] then [] else [LF]), [])"
proof -
  let ?t = "literal_token off ind chomp (literal_source c ls)"
  have lf: "\<forall>l\<in>set ls. LF \<notin> set l" using assms(2) by (simp add: text_line_def)
  have src: "literal_source c ls \<noteq> []" using assms(1) by (cases ls) (auto simp: literal_source_def)
  have h: "parseBlockScalarHeader (bt_offset ?t) (bt_props ?t) strict =
      (Some \<lparr>bh_mode = 124, bh_indent = 0, bh_chomp = chomp, bh_comment = [], bh_length = length chomp + 2\<rparr>, [])"
    using assms(8) by (auto simp: parseBlockScalarHeader_def literal_token_def)
  obtain l rest where ls: "ls = l # rest" using assms(1) by (cases ls) auto
  have first: "find_content atRoot 0 (map (literal_line c) ls) 0 ind off' = (int c, 0, [], off')" for off'
    unfolding ls list.map using assms(2,3,4,6,7) by (intro find_content_literal) (simp_all add: ls)
  have cend: "content_end (map (literal_line c) ls @ [([], [])]) = length ls"
    using assms(1,2,5) by (intro content_end_literal) simp_all
  have val: "ba_value (fold (block_line True (int c)) (map (literal_line c) ls) acc) = ba_value acc @ join_from (ba_sep acc) ls"
    "ba_errs (fold (block_line True (int c)) (map (literal_line c) ls) acc) = ba_errs acc" for acc
    using fold_literal [OF assms(2)] by simp_all
  have jl: "join_from [] ls \<noteq> [] \<and> last (join_from [] ls) \<noteq> LF"
  proof -
    have gen: "xs \<noteq> [] \<Longrightarrow> has_content (last xs) \<Longrightarrow> \<forall>x\<in>set xs. text_line x \<Longrightarrow>
        join_from f xs \<noteq> [] \<and> last (join_from f xs) \<noteq> LF" for f xs
    proof (induction xs arbitrary: f)
      case (Cons x xs)
      show ?case
      proof (cases "xs = []")
        case True
        with Cons.prems have "x \<noteq> []" "LF \<notin> set x" by (auto simp: has_content_def text_line_def)
        then show ?thesis using True by (auto dest: last_in_set)
      next
        case False
        with Cons.prems Cons.IH [of "[LF]"] show ?thesis by simp
      qed
    qed simp
    show ?thesis using gen assms(1,2,5) by blast
  qed
  have "\<not> empty_line (literal_line c (last ls))" using assms(1,2,5) by (simp add: empty_literal_line)
  show ?thesis
    unfolding resolveBlockScalar_def h
    using assms(1,8) src jl
    by (auto simp: literal_token_def splitLines_literal [OF lf] cend first extend_end_literal val
        chomp_tail_def slice_from_def Let_def)
qed

theorem literal_block_value_witness:
  "resolveBlockScalar True False (literal_token 5 0 [] (u ''  ab'' @ [10] @ u ''   c'' @ [10])) =
    (u ''ab'' @ [10] @ u '' c'' @ [10], [])"
  using literal_block_value [of "[u ''ab'', u '' c'']" 0 2 False "[]" True 5]
  by (simp add: text_line_def has_content_def literal_source_def u_def eval_nat_numeral)



end
