(* ===== verification/YamlLexer.thy ===== *)
theory YamlLexer
  imports YamlScalar
begin

text \<open>
  \<open>internal/ui/assets/assets/index-DHyr8oiy.js\<close>, lines 247 to 268: the lexer of the YAML library
  bundled with the web UI (class \<open>EKt\<close>), its token classifier \<open>bKt\<close>, and the line counter
  \<open>DKt\<close>. The fields of the class are the record \<open>lexer\<close>; a generator method is a function from
  the record to its result and the record after it, in which \<open>lx_out\<close> collects what was yielded:
  \<open>Mark\<close> for the control characters the lexer inserts, \<open>Text\<close> for slices of the buffer.

  The main fact is that lexing is lossless: whatever the input, the slices yielded so far followed
  by the unread rest of the buffer are the input. Reading a string outside its range gives
  \<open>None\<close>, the value \<open>undefined\<close>; \<open>indexOf\<close> and the loop variables that may become \<open>-1\<close> are
  integers.
\<close>

section \<open>Strings\<close>

definition at :: "ustr \<Rightarrow> int \<Rightarrow> nat option" where
  "at b i = (if 0 \<le> i \<and> nat i < length b then Some (b ! nat i) else None)"

definition indexOf :: "ustr \<Rightarrow> nat \<Rightarrow> int \<Rightarrow> int" where
  "indexOf b c from =
     (let k = nat from + length (takeWhile (\<lambda>x. x \<noteq> c) (drop (nat from) b))
      in if k < length b then int k else - 1)"

text \<open>\<open>substring(i, j)\<close> swaps its arguments when they are out of order.\<close>

definition substring :: "ustr \<Rightarrow> int \<Rightarrow> int \<Rightarrow> ustr" where
  "substring b i j = (let l = nat (min i j); r = nat (max i j) in take (r - l) (drop l b))"

text \<open>\<open>slice(i, j)\<close> counts a negative end from the end of the string.\<close>

definition js_slice :: "ustr \<Rightarrow> nat \<Rightarrow> int \<Rightarrow> ustr" where
  "js_slice b i j = (let r = (if j < 0 then nat (int (length b) + j) else nat j) in take (r - i) (drop i b))"

definition blank_opt :: "nat option \<Rightarrow> bool" where
  "blank_opt c = (c = Some 32 \<or> c = Some 9)"

text \<open>\<open>Z9\<close>\<close>

definition isEmpty :: "nat option \<Rightarrow> bool" where
  "isEmpty c = (case c of None \<Rightarrow> True | Some x \<Rightarrow> x = 32 \<or> x = LF \<or> x = CR \<or> x = 9)"

text \<open>\<open>CKt.has\<close>, \<open>TKt\<close>, \<open>xKt.has\<close>, \<open>SKt.has\<close>\<close>

definition flowIndicator :: "nat option \<Rightarrow> bool" where
  "flowIndicator c = (case c of None \<Rightarrow> False | Some x \<Rightarrow> x \<in> {44, 91, 93, 123, 125})"

definition isNotAnchorChar :: "nat option \<Rightarrow> bool" where
  "isNotAnchorChar c =
     (case c of None \<Rightarrow> True | Some x \<Rightarrow> x \<in> {32, 44, 91, 93, 123, 125, LF, CR, 9})"

definition hexDigit :: "nat option \<Rightarrow> bool" where
  "hexDigit c = (case c of None \<Rightarrow> False | Some x \<Rightarrow> hex_digit x \<noteq> None)"

definition tagChar :: "nat \<Rightarrow> bool" where
  "tagChar c =
     (48 \<le> c \<and> c \<le> 57 \<or> 65 \<le> c \<and> c \<le> 90 \<or> 97 \<le> c \<and> c \<le> 122 \<or>
      c \<in> set (u ''-#;/?:@&=+$_.!~*()'') \<or> c = 39)"

section \<open>State\<close>

datatype lex_state =
    L_stream | L_line_start | L_block_start | L_doc | L_flow | L_quoted | L_block_scalar | L_plain

datatype token = Mark nat | Text ustr

record lexer =
  lx_atEnd :: bool
  lx_blockScalarIndent :: int
  lx_blockScalarKeep :: bool
  lx_buffer :: ustr
  lx_flowKey :: bool
  lx_flowLevel :: int
  lx_indentNext :: int
  lx_indentValue :: int
  lx_lineEndPos :: "int option"
  lx_next :: "lex_state option"
  lx_pos :: nat
  lx_out :: "token list"

definition new_lexer :: lexer where
  "new_lexer =
     \<lparr>lx_atEnd = False, lx_blockScalarIndent = - 1, lx_blockScalarKeep = False, lx_buffer = [],
      lx_flowKey = False, lx_flowLevel = 0, lx_indentNext = 0, lx_indentValue = 0,
      lx_lineEndPos = None, lx_next = None, lx_pos = 0, lx_out = []\<rparr>"

section \<open>Reading\<close>

definition charAt :: "nat \<Rightarrow> lexer \<Rightarrow> nat option" where
  "charAt n s = at (lx_buffer s) (int (lx_pos s + n))"

definition peek :: "nat \<Rightarrow> lexer \<Rightarrow> ustr" where
  "peek n s = take n (drop (lx_pos s) (lx_buffer s))"

definition hasChars :: "nat \<Rightarrow> lexer \<Rightarrow> bool" where
  "hasChars n s = (lx_pos s + n \<le> length (lx_buffer s))"

definition atLineEnd :: "lexer \<Rightarrow> bool" where
  "atLineEnd s =
     (case dropWhile blank (drop (lx_pos s) (lx_buffer s)) of
        [] \<Rightarrow> True
      | c # r \<Rightarrow> c = 35 \<or> c = LF \<or> c = CR \<and> r \<noteq> [] \<and> hd r = LF)"

definition continueScalar :: "int \<Rightarrow> lexer \<Rightarrow> int" where
  "continueScalar off s =
     (let b = lx_buffer s in
      if lx_indentNext s > 0 then
        (let n = int (length (takeWhile (\<lambda>c. c = 32) (drop (nat off) b)));
             c = at b (off + n)
         in
         if c = Some CR \<and>
            (at b (n + off + 1) = Some LF \<or> at b (n + off + 1) = None \<and> \<not> lx_atEnd s)
         then off + n + 1
         else if c = Some LF \<or> n \<ge> lx_indentNext s \<or> c = None \<and> \<not> lx_atEnd s then off + n
         else - 1)
      else if (at b off = Some 45 \<or> at b off = Some 46) \<and>
              (take 3 (drop (nat off) b) = [45, 45, 45] \<or> take 3 (drop (nat off) b) = [46, 46, 46]) \<and>
              isEmpty (at b (off + 3))
      then - 1
      else off)"

definition getLine :: "lexer \<Rightarrow> ustr option \<times> lexer" where
  "getLine s =
     (let stale = (case lx_lineEndPos s of None \<Rightarrow> True | Some e \<Rightarrow> e \<noteq> - 1 \<and> e < int (lx_pos s));
          e = (if stale then indexOf (lx_buffer s) LF (int (lx_pos s)) else the (lx_lineEndPos s));
          s1 = (if stale then s\<lparr>lx_lineEndPos := Some e\<rparr> else s)
      in
      if e = - 1 then (if lx_atEnd s then Some (drop (lx_pos s) (lx_buffer s)) else None, s1)
      else
        (let e' = (if at (lx_buffer s) (e - 1) = Some CR then e - 1 else e)
         in (Some (substring (lx_buffer s) (int (lx_pos s)) e'), s1)))"

definition setNext :: "lex_state \<Rightarrow> lexer \<Rightarrow> lex_state option \<times> lexer" where
  "setNext st s =
     (None, s\<lparr>lx_buffer := drop (lx_pos s) (lx_buffer s), lx_pos := 0, lx_lineEndPos := None,
               lx_next := Some st\<rparr>)"

section \<open>Yielding\<close>

definition yield :: "token \<Rightarrow> lexer \<Rightarrow> lexer" where
  "yield t s = s\<lparr>lx_out := lx_out s @ [t]\<rparr>"

definition pushCount :: "int \<Rightarrow> lexer \<Rightarrow> int \<times> lexer" where
  "pushCount n s =
     (if n > 0 then
        (n, (yield (Text (take (nat n) (drop (lx_pos s) (lx_buffer s)))) s)\<lparr>lx_pos := lx_pos s + nat n\<rparr>)
      else (0, s))"

definition pushToIndex :: "int \<Rightarrow> bool \<Rightarrow> lexer \<Rightarrow> int \<times> lexer" where
  "pushToIndex i allowEmpty s =
     (let n = js_slice (lx_buffer s) (lx_pos s) i in
      if n \<noteq> [] then (int (length n), (yield (Text n) s)\<lparr>lx_pos := lx_pos s + length n\<rparr>)
      else (0, if allowEmpty then yield (Text []) s else s))"

definition pushNewline :: "lexer \<Rightarrow> int \<times> lexer" where
  "pushNewline s =
     (if charAt 0 s = Some LF then pushCount 1 s
      else if charAt 0 s = Some CR \<and> charAt 1 s = Some LF then pushCount 2 s
      else (0, s))"

definition pushSpaces :: "bool \<Rightarrow> lexer \<Rightarrow> int \<times> lexer" where
  "pushSpaces allowTabs s =
     (let r = takeWhile (\<lambda>c. c = 32 \<or> allowTabs \<and> c = 9) (drop (lx_pos s) (lx_buffer s)) in
      if r \<noteq> [] then (int (length r), (yield (Text r) s)\<lparr>lx_pos := lx_pos s + length r\<rparr>) else (0, s))"

text \<open>\<open>pushUntil\<close>; both predicates it is called with hold of \<open>undefined\<close>, so its loop stops at the
  end of the buffer at the latest.\<close>

definition pushUntil :: "(nat option \<Rightarrow> bool) \<Rightarrow> lexer \<Rightarrow> int \<times> lexer" where
  "pushUntil test s =
     pushToIndex (int (lx_pos s + length (takeWhile (\<lambda>c. \<not> test (Some c)) (drop (lx_pos s) (lx_buffer s))))) False s"

fun tag_end :: "ustr \<Rightarrow> nat" where
  "tag_end (c # r) =
     (if tagChar c then Suc (tag_end r)
      else if c = 37 then
        (case r of
           a # b # r' \<Rightarrow> if hexDigit (Some a) \<and> hexDigit (Some b) then 3 + tag_end r' else 0
         | _ \<Rightarrow> 0)
      else 0)"
| "tag_end [] = 0"

definition pushTag :: "lexer \<Rightarrow> int \<times> lexer" where
  "pushTag s =
     (if charAt 1 s = Some 60 then
        (let i = lx_pos s + 2 +
               length (takeWhile (\<lambda>c. \<not> isEmpty (Some c) \<and> c \<noteq> 62) (drop (lx_pos s + 2) (lx_buffer s)))
         in pushToIndex (if at (lx_buffer s) (int i) = Some 62 then int i + 1 else int i) False s)
      else pushToIndex (int (lx_pos s + 1 + tag_end (drop (lx_pos s + 1) (lx_buffer s)))) False s)"

text \<open>Consumption: what is left of the buffer never grows, and shrinks when something is yielded.\<close>

definition left :: "lexer \<Rightarrow> nat" where
  "left s = length (lx_buffer s) - lx_pos s"

lemma left_pushCount: "left (snd (pushCount n s)) \<le> left s"
  by (auto simp: pushCount_def yield_def left_def intro: diff_le_mono2)

lemma left_pushCount_less: "0 < n \<Longrightarrow> 0 < left s \<Longrightarrow> left (snd (pushCount n s)) < left s"
  by (simp add: pushCount_def yield_def left_def)

lemma left_pushToIndex: "left (snd (pushToIndex i a s)) \<le> left s"
  by (auto simp: pushToIndex_def yield_def left_def Let_def intro: diff_le_mono2)

lemma left_pushToIndex_less:
  "int (lx_pos s) < i \<Longrightarrow> 0 < left s \<Longrightarrow> left (snd (pushToIndex i a s)) < left s"
  by (auto simp: pushToIndex_def yield_def left_def Let_def js_slice_def)

lemma left_pushSpaces: "left (snd (pushSpaces t s)) \<le> left s"
  by (auto simp: pushSpaces_def yield_def left_def Let_def intro: diff_le_mono2)

lemma left_pushNewline: "left (snd (pushNewline s)) \<le> left s"
  by (simp add: pushNewline_def left_pushCount)

lemma charAt_left: "charAt 0 s = Some c \<Longrightarrow> 0 < left s"
  by (auto simp: charAt_def at_def left_def split: if_splits)

lemma charAt_drop: "charAt 0 s = Some c \<Longrightarrow> \<exists>r. drop (lx_pos s) (lx_buffer s) = c # r"
  by (auto simp: charAt_def at_def Cons_nth_drop_Suc [symmetric] split: if_splits)

definition then_spaces :: "int \<times> lexer \<Rightarrow> int \<times> lexer" where
  "then_spaces p = (let (m, s2) = pushSpaces True (snd p) in (fst p + m, s2))"

lemma left_then_spaces: "left (snd p) < k \<Longrightarrow> left (snd (then_spaces p)) < k"
  using left_pushSpaces [of True "snd p"] by (simp add: then_spaces_def split_beta)

text \<open>One round of \<open>pushIndicators\<close>.\<close>

definition pushIndicator :: "lexer \<Rightarrow> (int \<times> lexer) option" where
  "pushIndicator s =
     (case charAt 0 s of
        None \<Rightarrow> None
      | Some c \<Rightarrow>
          if c = 33 then Some (then_spaces (pushTag s))
          else if c = 38 then Some (then_spaces (pushUntil isNotAnchorChar s))
          else if c = 45 \<or> c = 63 \<or> c = 58 then
            (let inFlow = lx_flowLevel s > 0 in
             if isEmpty (charAt 1 s) \<or> inFlow \<and> flowIndicator (charAt 1 s) then
               Some (then_spaces (pushCount 1
                 (if inFlow then s\<lparr>lx_flowKey := False\<rparr> else s\<lparr>lx_indentNext := lx_indentValue s + 1\<rparr>)))
             else None)
          else None)"

lemma pushIndicator_left: "pushIndicator s = Some (n, s1) \<Longrightarrow> left s1 < left s"
proof -
  assume p: "pushIndicator s = Some (n, s1)"
  then obtain c where c: "charAt 0 s = Some c" by (auto simp: pushIndicator_def split: option.splits)
  note pos = charAt_left [OF c]
  have tag: "left (snd (pushTag s)) < left s"
    unfolding pushTag_def Let_def
    by (cases "charAt 1 s = Some 60")
      (simp_all only: if_True if_False simp_thms, (rule left_pushToIndex_less, simp, rule pos)+)
  have anchor: "left (snd (pushUntil isNotAnchorChar s)) < left s" if "c = 38"
  proof -
    from charAt_drop [OF c] that obtain r where "drop (lx_pos s) (lx_buffer s) = 38 # r" by auto
    then show ?thesis unfolding pushUntil_def
      by (intro left_pushToIndex_less pos) (simp add: isNotAnchorChar_def)
  qed
  have count: "left (snd (pushCount 1 t)) < left s" if "left t = left s" for t
    using left_pushCount_less [of 1 t] pos that by simp
  have eq: "left (s\<lparr>lx_flowKey := a\<rparr>) = left s" "left (s\<lparr>lx_indentNext := b\<rparr>) = left s" for a b
    by (simp_all add: left_def)
  have "\<exists>q. (n, s1) = then_spaces q \<and> left (snd q) < left s"
  proof (cases "c = 33 \<or> c = 38")
    case True
    then have "(n, s1) = then_spaces (if c = 33 then pushTag s else pushUntil isNotAnchorChar s)"
      using p c by (auto simp: pushIndicator_def)
    moreover have "left (snd (if c = 33 then pushTag s else pushUntil isNotAnchorChar s)) < left s"
      using True tag anchor by auto
    ultimately show ?thesis by blast
  next
    case False
    let ?t = "if lx_flowLevel s > 0 then s\<lparr>lx_flowKey := False\<rparr> else s\<lparr>lx_indentNext := lx_indentValue s + 1\<rparr>"
    from False p c have "(n, s1) = then_spaces (pushCount 1 ?t)"
      by (simp add: pushIndicator_def Let_def split: if_splits)
    moreover have "left (snd (pushCount 1 ?t)) < left s" by (rule count) (simp add: eq)
    ultimately show ?thesis by blast
  qed
  then show ?thesis using left_then_spaces by (metis snd_conv)
qed

function pushIndicators :: "lexer \<Rightarrow> int \<times> lexer" where
  "pushIndicators s =
     (case pushIndicator s of
        None \<Rightarrow> (0, s)
      | Some (n, s1) \<Rightarrow> (let (m, s2) = pushIndicators s1 in (n + m, s2)))"
  by pat_completeness auto
termination by (relation "measure left") (auto dest: pushIndicator_left)

declare pushIndicators.simps [simp del]

section \<open>Block structure\<close>

lemma block_start_left:
  assumes "charAt 0 s = Some c" and p: "(n, s1) = then_spaces (pushCount 1 s)"
  shows "left (s1\<lparr>lx_indentNext := i, lx_indentValue := j\<rparr>) < left s"
proof -
  have "left (snd (then_spaces (pushCount 1 s))) < left s"
    using assms(1) by (intro left_then_spaces left_pushCount_less charAt_left) auto
  then show ?thesis by (simp add: left_def flip: p)
qed

function parseBlockStart :: "lexer \<Rightarrow> lex_state option \<times> lexer" where
  "parseBlockStart s =
     (if charAt 1 s = None \<and> \<not> lx_atEnd s then setNext L_block_start s
      else case charAt 0 s of
          None \<Rightarrow> (Some L_doc, s)
        | Some c \<Rightarrow>
            if (c = 45 \<or> c = 63 \<or> c = 58) \<and> isEmpty (charAt 1 s) then
              (let (n, s1) = then_spaces (pushCount 1 s)
               in parseBlockStart (s1\<lparr>lx_indentNext := lx_indentValue s1 + 1, lx_indentValue := lx_indentValue s1 + n\<rparr>))
            else (Some L_doc, s))"
  by pat_completeness auto
termination
  by (relation "measure left") (simp_all add: block_start_left)

declare parseBlockStart.simps [simp del]

definition parseLineStart :: "lexer \<Rightarrow> lex_state option \<times> lexer" where
  "parseLineStart s =
     (if charAt 0 s = None \<and> \<not> lx_atEnd s then setNext L_line_start s
      else
        (let dash = (charAt 0 s = Some 45 \<or> charAt 0 s = Some 46) in
         if dash \<and> \<not> lx_atEnd s \<and> \<not> hasChars 4 s then setNext L_line_start s
         else if dash \<and> (peek 3 s = [45, 45, 45] \<or> peek 3 s = [46, 46, 46]) \<and> isEmpty (charAt 3 s) then
           (let s1 = snd (pushCount 3 s) in
            (Some (if peek 3 s = [45, 45, 45] then L_doc else L_stream),
             s1\<lparr>lx_indentValue := 0, lx_indentNext := 0\<rparr>))
         else
           (let (n, s1) = pushSpaces False s;
                s2 = s1\<lparr>lx_indentValue := n\<rparr>;
                s3 = (if lx_indentNext s2 > lx_indentValue s2 \<and> \<not> isEmpty (charAt 1 s2)
                      then s2\<lparr>lx_indentNext := lx_indentValue s2\<rparr> else s2)
            in parseBlockStart s3)))"

section \<open>Plain scalars\<close>

lemma continueScalar_ge: "continueScalar off s = r \<Longrightarrow> r \<noteq> - 1 \<Longrightarrow> off \<le> r"
  by (auto simp: continueScalar_def Let_def split: if_splits)

text \<open>The scan of \<open>parsePlainScalar\<close> from index \<open>n\<close>: the index of the last character of the
  scalar, and whether the buffer ended.\<close>

definition plain_step :: "lexer \<Rightarrow> int \<Rightarrow> int \<Rightarrow> (int \<times> bool) + (int \<times> int)" where
  "plain_step s n t =
     (let b = lx_buffer s; inFlow = lx_flowLevel s > 0 in
      case at b n of
        None \<Rightarrow> Inl (t, True)
      | Some r \<Rightarrow>
          if r = 58 then
            (if isEmpty (at b (n + 1)) \<or> inFlow \<and> flowIndicator (at b (n + 1)) then Inl (t, False)
             else Inr (n + 1, n))
          else if isEmpty (Some r) then
            (let crlf = (r = CR \<and> at b (n + 1) = Some LF);
                 n1 = (if crlf then n + 1 else n);
                 r1 = (if crlf then LF else r);
                 t1 = (if r = CR \<and> \<not> crlf then n else t);
                 i = at b (n1 + 1)
             in
             if i = Some 35 \<or> inFlow \<and> flowIndicator i then Inl (t1, False)
             else if r1 = LF then
               (let e = continueScalar (n1 + 1) s in
                if e = - 1 then Inl (t1, False) else Inr (max n1 (e - 2) + 1, t1))
             else Inr (n1 + 1, t1))
          else if inFlow \<and> flowIndicator (Some r) then Inl (t, False)
          else Inr (n + 1, n))"

lemma at_Some: "at b n = Some r \<Longrightarrow> 0 \<le> n \<and> n < int (length b)"
  by (auto simp: at_def split: if_splits)

lemma plain_step_inc: "plain_step s n t = Inr (n', t') \<Longrightarrow> n < n' \<and> n < int (length (lx_buffer s))"
proof -
  assume p: "plain_step s n t = Inr (n', t')"
  then obtain r where r: "at (lx_buffer s) n = Some r"
    by (cases "at (lx_buffer s) n") (simp_all add: plain_step_def)
  have "n < n'" using p by (auto simp: plain_step_def r Let_def split: if_splits)
  with at_Some [OF r] show ?thesis by simp
qed

function plain_scan :: "lexer \<Rightarrow> int \<Rightarrow> int \<Rightarrow> int \<times> bool" where
  "plain_scan s n t =
     (case plain_step s n t of Inl r \<Rightarrow> r | Inr (n', t') \<Rightarrow> plain_scan s n' t')"
  by pat_completeness auto
termination
  by (relation "measure (\<lambda>(s, n, t). nat (int (length (lx_buffer s)) - n))")
    (auto dest: plain_step_inc)

declare plain_scan.simps [simp del]

definition parsePlainScalar :: "lexer \<Rightarrow> lex_state option \<times> lexer" where
  "parsePlainScalar s =
     (let (t, ended) = plain_scan s (int (lx_pos s)) (int (lx_pos s) - 1) in
      if ended \<and> \<not> lx_atEnd s then setNext L_plain s
      else
        (Some (if lx_flowLevel s > 0 then L_flow else L_doc),
         snd (pushToIndex (t + 1) True (yield (Mark 31) s))))"

section \<open>Block scalars\<close>

fun header_scan :: "ustr \<Rightarrow> int \<times> bool \<Rightarrow> int \<times> bool" where
  "header_scan [] st = st"
| "header_scan (c # r) (ind, keep) =
     (if c = 43 then header_scan r (ind, True)
      else if 48 < c \<and> c \<le> 57 then header_scan r (int c - 49, keep)
      else if c = 45 then header_scan r (ind, keep)
      else (ind, keep))"

definition lex_BlockScalarHeader :: "lexer \<Rightarrow> int \<times> lexer" where
  "lex_BlockScalarHeader s =
     (let (ind, keep) = header_scan (drop (lx_pos s + 1) (lx_buffer s)) (- 1, False)
      in pushUntil (\<lambda>c. isEmpty c \<or> c = Some 35)
           (s\<lparr>lx_blockScalarIndent := ind, lx_blockScalarKeep := keep\<rparr>))"

text \<open>The first loop of \<open>parseBlockScalar\<close>, over the text from index \<open>r\<close>: the last line break, the
  indentation after it and whether the buffer ended; \<open>None\<close> when more input is needed.\<close>

fun indent_scan :: "bool \<Rightarrow> ustr \<Rightarrow> int \<Rightarrow> int \<Rightarrow> int \<Rightarrow> (int \<times> int \<times> bool) option" where
  "indent_scan atEnd [] r e t = Some (e, t, True)"
| "indent_scan atEnd (c # cs) r e t =
     (if c = 32 then indent_scan atEnd cs (r + 1) e (t + 1)
      else if c = LF then indent_scan atEnd cs (r + 1) r 0
      else if c = CR \<and> cs = [] \<and> \<not> atEnd then None
      else if c = CR \<and> cs \<noteq> [] \<and> hd cs = LF then indent_scan atEnd cs (r + 1) e t
      else Some (e, t, False))"

lemma indexOf_ge: "indexOf b c from = r \<Longrightarrow> r \<noteq> - 1 \<Longrightarrow> from \<le> r \<and> r < int (length b)"
  by (auto simp: indexOf_def Let_def split: if_splits)

definition line_step :: "ustr \<Rightarrow> lexer \<Rightarrow> int \<Rightarrow> int option" where
  "line_step b s e = (let t = continueScalar (e + 1) s in if t = - 1 then None else Some (indexOf b LF t))"

lemma line_step_inc:
  "line_step b s e = Some e' \<Longrightarrow> e' \<noteq> - 1 \<Longrightarrow> e < e' \<and> e' < int (length b)"
  using continueScalar_ge [of "e + 1" s] indexOf_ge [of b LF]
  by (fastforce simp: line_step_def Let_def split: if_splits)

text \<open>Line by line to the last line break of the scalar; \<open>-1\<close> when it reaches the end.\<close>

function scalar_lines :: "ustr \<Rightarrow> lexer \<Rightarrow> int \<Rightarrow> int" where
  "scalar_lines b s e =
     (case line_step b s e of
        None \<Rightarrow> e
      | Some e' \<Rightarrow> if e' = - 1 then - 1 else scalar_lines b s e')"
  by pat_completeness auto
termination
  by (relation "measure (\<lambda>(b, s, e). nat (int (length b) - e))")
    (auto dest: line_step_inc)

declare scalar_lines.simps [simp del]

text \<open>The index of the line feed that ends the last non-empty line, when trailing line breaks are
  not kept.\<close>

definition trim_step :: "ustr \<Rightarrow> nat \<Rightarrow> int \<Rightarrow> int \<Rightarrow> int option" where
  "trim_step b pos t e =
     (let i = (if at b (e - 1) = Some CR then e - 2 else e - 1);
          n = i - int (length (takeWhile (\<lambda>c. c = 32) (rev (take (nat (i + 1)) b))))
      in if at b n = Some LF \<and> n \<ge> int pos \<and> n + 1 + t > i then Some n else None)"

lemma trim_step_dec: "trim_step b pos t e = Some n \<Longrightarrow> n < e \<and> 0 \<le> n"
  by (auto simp: trim_step_def Let_def dest: at_Some split: if_splits)

function trim_lines :: "ustr \<Rightarrow> nat \<Rightarrow> int \<Rightarrow> int \<Rightarrow> int" where
  "trim_lines b pos t e =
     (case trim_step b pos t e of None \<Rightarrow> e | Some n \<Rightarrow> trim_lines b pos t n)"
  by pat_completeness auto
termination
  by (relation "measure (\<lambda>(b, pos, t, e). nat e)") (auto dest: trim_step_dec)

declare trim_lines.simps [simp del]

definition scalar_end :: "lexer \<Rightarrow> int \<Rightarrow> int \<Rightarrow> int" where
  "scalar_end s t e =
     (let b = lx_buffer s;
          after = dropWhile (\<lambda>c. c = 32) (drop (nat (e + 1)) b)
      in
      if after \<noteq> [] \<and> hd after = 9 then
        int (length b) - int (length (dropWhile (\<lambda>c. c = 9 \<or> c = 32 \<or> c = CR \<or> c = LF) after)) - 1
      else if \<not> lx_blockScalarKeep s then trim_lines b (lx_pos s) t e
      else e)"

definition parseBlockScalar :: "lexer \<Rightarrow> lex_state option \<times> lexer" where
  "parseBlockScalar s =
     (let b = lx_buffer s; p = int (lx_pos s) in
      case indent_scan (lx_atEnd s) (drop (lx_pos s) b) p (p - 1) 0 of
        None \<Rightarrow> setNext L_block_scalar s
      | Some (e, t, ended) \<Rightarrow>
          if ended \<and> \<not> lx_atEnd s then setNext L_block_scalar s
          else
            (let s1 = (if t \<ge> lx_indentNext s then
                         s\<lparr>lx_indentNext :=
                             (if lx_blockScalarIndent s = - 1 then t
                              else lx_blockScalarIndent s + (if lx_indentNext s = 0 then 1 else lx_indentNext s))\<rparr>
                       else s);
                 e1 = (if t \<ge> lx_indentNext s then scalar_lines b s1 e else e)
             in
             if e1 = - 1 \<and> t \<ge> lx_indentNext s \<and> \<not> lx_atEnd s then setNext L_block_scalar s1
             else
               (let e2 = (if e1 = - 1 \<and> t \<ge> lx_indentNext s then int (length b) else e1);
                    e3 = scalar_end s1 t e2
                in parseLineStart (snd (pushToIndex (e3 + 1) True (yield (Mark 31) s1))))))"

section \<open>Quoted scalars\<close>

definition sq_step :: "ustr \<Rightarrow> int \<Rightarrow> int option" where
  "sq_step b t = (if t \<noteq> - 1 \<and> at b (t + 1) = Some 39 then Some (indexOf b 39 (t + 2)) else None)"

definition dq_step :: "ustr \<Rightarrow> int \<Rightarrow> int option" where
  "dq_step b t =
     (if t \<noteq> - 1 \<and> odd (length (takeWhile (\<lambda>c. c = 92) (rev (take (nat t) b))))
      then Some (indexOf b 34 (t + 1)) else None)"

definition quote_step :: "bool \<Rightarrow> ustr \<Rightarrow> int \<Rightarrow> int option" where
  "quote_step single b t = (if single then sq_step b t else dq_step b t)"

definition quote_rank :: "ustr \<Rightarrow> int \<Rightarrow> nat" where
  "quote_rank b t = (if t < 0 then 0 else Suc (nat (int (length b) - t)))"

lemma quote_step_rank: "quote_step single b t = Some t' \<Longrightarrow> quote_rank b t' < quote_rank b t"
proof -
  assume step: "quote_step single b t = Some t'"
  have "t \<ge> 0"
  proof (cases single)
    case True
    with step have "t \<noteq> - 1" "at b (t + 1) = Some 39"
      by (auto simp: quote_step_def sq_step_def split: if_splits)
    with at_Some [of b "t + 1" 39] show ?thesis by simp
  next
    case False
    with step have "t \<noteq> - 1" "take (nat t) b \<noteq> []"
      by (auto simp: quote_step_def dq_step_def split: if_splits)
    then show ?thesis by (cases "t \<ge> 0") auto
  qed
  moreover have "t' = - 1 \<or> t < t' \<and> t' < int (length b)"
    using step indexOf_ge [of b 39 "t + 2"] indexOf_ge [of b 34 "t + 1"]
    by (auto simp: quote_step_def sq_step_def dq_step_def split: if_splits)
  ultimately show ?thesis by (auto simp: quote_rank_def)
qed

function quote_end :: "bool \<Rightarrow> ustr \<Rightarrow> int \<Rightarrow> int" where
  "quote_end single b t = (case quote_step single b t of None \<Rightarrow> t | Some t' \<Rightarrow> quote_end single b t')"
  by pat_completeness auto
termination
  by (relation "measure (\<lambda>(single, b, t). quote_rank b t)") (auto dest: quote_step_rank)

declare quote_end.simps [simp del]

definition parseQuotedScalar :: "lexer \<Rightarrow> lex_state option \<times> lexer" where
  "parseQuotedScalar s =
     (let b = lx_buffer s;
          q = (case charAt 0 s of None \<Rightarrow> 34 | Some c \<Rightarrow> c);
          t = quote_end (q = 39) b (indexOf b q (int (lx_pos s) + 1));
          n = substring b 0 t;
          r0 = indexOf n LF (int (lx_pos s));
          r = (if r0 = - 1 then - 1 else scalar_lines n s r0);
          t1 = (if r \<noteq> - 1 then r - (if at n (r - 1) = Some CR then 2 else 1) else t)
      in
      if t1 = - 1 \<and> \<not> lx_atEnd s then setNext L_quoted s
      else
        (let t2 = (if t1 = - 1 then int (length b) else t1) in
         (Some (if lx_flowLevel s \<noteq> 0 then L_flow else L_doc), snd (pushToIndex (t2 + 1) False s))))"

section \<open>Documents, flow collections and the stream\<close>

definition parseDocument :: "lexer \<Rightarrow> lex_state option \<times> lexer" where
  "parseDocument s =
     (let s1 = snd (pushSpaces True s) in
      case getLine s1 of
        (None, s2) \<Rightarrow> setNext L_doc s2
      | (Some line, s2) \<Rightarrow>
          (let (n, s3) = pushIndicators s2; len = int (length line) in
           case at line n of
             None \<Rightarrow> parseLineStart (snd (pushNewline s3))
           | Some c \<Rightarrow>
               if c = 35 then parseLineStart (snd (pushNewline (snd (pushCount (len - n) s3))))
               else if c = 123 \<or> c = 91 then
                 (Some L_flow, (snd (pushCount 1 s3))\<lparr>lx_flowKey := False, lx_flowLevel := 1\<rparr>)
               else if c = 125 \<or> c = 93 then (Some L_doc, snd (pushCount 1 s3))
               else if c = 42 then (Some L_doc, snd (pushUntil isNotAnchorChar s3))
               else if c = 34 \<or> c = 39 then parseQuotedScalar s3
               else if c = 124 \<or> c = 62 then
                 (let (h, s4) = lex_BlockScalarHeader s3;
                      (m, s5) = pushSpaces True s4;
                      s6 = snd (pushCount (len - (n + h + m)) s5)
                  in parseBlockScalar (snd (pushNewline s6)))
               else parsePlainScalar s3))"

text \<open>One round of the \<open>do\<close> loop of \<open>parseFlowCollection\<close>: how much was consumed, the indentation.\<close>

definition flow_round :: "int \<Rightarrow> lexer \<Rightarrow> int \<times> int \<times> lexer" where
  "flow_round ind s =
     (let (e, s1) = pushNewline s;
          (t, ind', s2) =
            (if e > 0 then (let (k, s') = pushSpaces False s1 in (k, k, s'\<lparr>lx_indentValue := k\<rparr>))
             else (0, ind, s1));
          (k, s3) = pushSpaces True s2
      in (e + (t + k), ind', s3))"

lemma pushSpaces_consumes: "left (snd (pushSpaces a s)) < left s \<or> fst (pushSpaces a s) = 0"
proof (cases "takeWhile (\<lambda>c. c = 32 \<or> a \<and> c = 9) (drop (lx_pos s) (lx_buffer s))")
  case (Cons c r)
  then have "drop (lx_pos s) (lx_buffer s) \<noteq> []" by auto
  with Cons show ?thesis by (auto simp: pushSpaces_def yield_def left_def Let_def)
qed (simp add: pushSpaces_def Let_def)

lemma pushNewline_consumes: "left (snd (pushNewline s)) < left s \<or> fst (pushNewline s) = 0"
  using charAt_left [of s] by (auto simp: pushNewline_def left_pushCount_less)

lemma flow_round_left: "flow_round ind s = (m, ind', s') \<Longrightarrow> m > 0 \<Longrightarrow> left s' < left s"
proof -
  assume r: "flow_round ind s = (m, ind', s')" and m: "m > 0"
  obtain e s1 where n: "pushNewline s = (e, s1)" by fastforce
  obtain k s2 where sp: "pushSpaces False s1 = (k, s2)" by fastforce
  let ?s = "if e > 0 then s2\<lparr>lx_indentValue := k\<rparr> else s1"
  have step1: "left s1 \<le> left s" "left s1 < left s \<or> e = 0"
    using left_pushNewline [of s] pushNewline_consumes [of s] n by auto
  have step2: "left ?s \<le> left s1"
    using left_pushSpaces [of False s1] sp by (simp add: left_def)
  have res: "s' = snd (pushSpaces True ?s)" "m = e + ((if e > 0 then k else 0) + fst (pushSpaces True ?s))"
    using r by (auto simp: flow_round_def n sp split_beta Let_def split: if_splits)
  have step3: "left s' \<le> left ?s" "left s' < left ?s \<or> fst (pushSpaces True ?s) = 0"
    using left_pushSpaces [of True ?s] pushSpaces_consumes [of True ?s] res(1) by auto
  show ?thesis
  proof (cases "e > 0")
    case True
    then show ?thesis using step1 step2 step3 by linarith
  next
    case False
    then have "fst (pushSpaces True ?s) \<noteq> 0 \<or> e \<noteq> 0" using m res(2) by auto
    then show ?thesis using step1 step2 step3 by linarith
  qed
qed

function flow_ws :: "int \<Rightarrow> lexer \<Rightarrow> int \<times> lexer" where
  "flow_ws ind s =
     (let (m, ind', s') = flow_round ind s in if m > 0 then flow_ws ind' s' else (ind', s'))"
  by pat_completeness auto
termination
  by (relation "measure (\<lambda>(ind, s). left s)") (auto dest: flow_round_left [OF sym])

declare flow_ws.simps [simp del]

lemma pushSpaces_nonneg: "0 \<le> fst (pushSpaces a s)"
  by (simp add: pushSpaces_def Let_def)

text \<open>The commas of a flow collection.\<close>

function flow_commas :: "ustr \<Rightarrow> int \<Rightarrow> lexer \<Rightarrow> int \<times> lexer" where
  "flow_commas line i s =
     (if at line i = Some 44 then
        (let (n, s1) = then_spaces (pushCount 1 s) in flow_commas line (i + n) (s1\<lparr>lx_flowKey := False\<rparr>))
      else (i, s))"
  by pat_completeness auto
termination
proof (relation "measure (\<lambda>(line, i, s). nat (int (length line) - i))")
  fix line i s x n s1
  assume "at line i = Some 44" and "x = then_spaces (pushCount 1 s)" and "(n, s1) = x"
  then have "i < int (length line)" "n = 1 + fst (pushSpaces True (snd (pushCount 1 s)))"
    by (auto dest: at_Some simp: then_spaces_def split_beta pushCount_def)
  with pushSpaces_nonneg [of True "snd (pushCount 1 s)"]
  show "((line, i + n, s1\<lparr>lx_flowKey := False\<rparr>), line, i, s) \<in> measure (\<lambda>(line, i, s). nat (int (length line) - i))"
    by simp
qed simp

declare flow_commas.simps [simp del]

definition doc_marker :: "ustr \<Rightarrow> bool" where
  "doc_marker line \<longleftrightarrow>
     (take 3 line = [45, 45, 45] \<or> take 3 line = [46, 46, 46]) \<and> isEmpty (at line 3)"

definition parseFlowCollection :: "lexer \<Rightarrow> lex_state option \<times> lexer" where
  "parseFlowCollection s =
     (let (ind, s1) = flow_ws (- 1) s in
      case getLine s1 of
        (None, s2) \<Rightarrow> setNext L_flow s2
      | (Some line, s2) \<Rightarrow>
          if (ind \<noteq> - 1 \<and> ind < lx_indentNext s2 \<and> at line 0 \<noteq> Some 35 \<or> ind = 0 \<and> doc_marker line) \<and>
             \<not> (ind = lx_indentNext s2 - 1 \<and> lx_flowLevel s2 = 1 \<and>
                (at line 0 = Some 93 \<or> at line 0 = Some 125))
          then parseLineStart (yield (Mark 24) (s2\<lparr>lx_flowLevel := 0\<rparr>))
          else
            (let (i0, s3) = flow_commas line 0 s2;
                 (m, s4) = pushIndicators s3;
                 i = i0 + m; len = int (length line);
                 plain = parsePlainScalar (s4\<lparr>lx_flowKey := False\<rparr>)
             in
             case at line i of
               None \<Rightarrow> (Some L_flow, s4)
             | Some c \<Rightarrow>
                 if c = 35 then (Some L_flow, snd (pushCount (len - i) s4))
                 else if c = 123 \<or> c = 91 then
                   (let s5 = snd (pushCount 1 s4)
                    in (Some L_flow, s5\<lparr>lx_flowKey := False, lx_flowLevel := lx_flowLevel s5 + 1\<rparr>))
                 else if c = 125 \<or> c = 93 then
                   (let s5 = snd (pushCount 1 s4); lvl = lx_flowLevel s5 - 1
                    in (Some (if lvl \<noteq> 0 then L_flow else L_doc), s5\<lparr>lx_flowKey := True, lx_flowLevel := lvl\<rparr>))
                 else if c = 42 then (Some L_flow, snd (pushUntil isNotAnchorChar s4))
                 else if c = 34 \<or> c = 39 then parseQuotedScalar (s4\<lparr>lx_flowKey := True\<rparr>)
                 else if c = 58 \<and> (lx_flowKey s4 \<or> isEmpty (charAt 1 s4) \<or> charAt 1 s4 = Some 44) then
                   (Some L_flow, snd (pushSpaces True (snd (pushCount 1 (s4\<lparr>lx_flowKey := False\<rparr>)))))
                 else plain))"

text \<open>The length of a directive: up to a comment that follows a blank, without trailing blanks.\<close>

fun comment_at :: "nat option \<Rightarrow> ustr \<Rightarrow> nat option" where
  "comment_at prev [] = None"
| "comment_at prev (c # r) =
     (if c = 35 \<and> blank_opt prev then Some 0 else map_option Suc (comment_at (Some c) r))"

definition directive_end :: "ustr \<Rightarrow> nat" where
  "directive_end line =
     (let t = (case comment_at None line of None \<Rightarrow> length line | Some n \<Rightarrow> n - 1)
      in length (rstrip (take t line)))"

definition byte_order_mark :: "nat option \<Rightarrow> bool" where
  "byte_order_mark c \<longleftrightarrow> c = Some 65279"

lemma byte_order_mark_code [code]:
  "byte_order_mark c = (case c of None \<Rightarrow> False | Some n \<Rightarrow> int n = 65279)"
  by (simp add: byte_order_mark_def split: option.split)

definition parseStream :: "lexer \<Rightarrow> lex_state option \<times> lexer" where
  "parseStream s =
     (case getLine s of
        (None, s1) \<Rightarrow> setNext L_stream s1
      | (Some line0, s1) \<Rightarrow>
          (let bom = byte_order_mark (at line0 0);
               s2 = (if bom then snd (pushCount 1 s1) else s1);
               line = (if bom then tl line0 else line0);
               len = int (length line)
           in
           if at line 0 = Some 37 then
             (let (a, s3) = pushCount (int (directive_end line)) s2;
                  (k, s4) = pushSpaces True s3
              in (Some L_stream, snd (pushCount (len - (a + k)) s4)))
           else if atLineEnd s2 then
             (let (k, s3) = pushSpaces True s2
              in (Some L_stream, snd (pushNewline (snd (pushCount (len - k) s3)))))
           else parseLineStart (yield (Mark 2) s2)))"

fun parseNext :: "lex_state \<Rightarrow> lexer \<Rightarrow> lex_state option \<times> lexer" where
  "parseNext L_stream s = parseStream s"
| "parseNext L_line_start s = parseLineStart s"
| "parseNext L_block_start s = parseBlockStart s"
| "parseNext L_doc s = parseDocument s"
| "parseNext L_flow s = parseFlowCollection s"
| "parseNext L_quoted s = parseQuotedScalar s"
| "parseNext L_block_scalar s = parseBlockScalar s"
| "parseNext L_plain s = parsePlainScalar s"

text \<open>\<open>lex\<close>: taking over a chunk of input, the condition of its loop, and the state after at most
  \<open>k\<close> rounds of it.\<close>

definition lex_input :: "ustr \<Rightarrow> bool \<Rightarrow> lexer \<Rightarrow> lex_state option \<times> lexer" where
  "lex_input chunk incomplete s =
     (let s1 = (if chunk \<noteq> [] then s\<lparr>lx_buffer := lx_buffer s @ chunk, lx_lineEndPos := None\<rparr> else s)
      in (Some (case lx_next s1 of None \<Rightarrow> L_stream | Some st \<Rightarrow> st), s1\<lparr>lx_atEnd := \<not> incomplete\<rparr>))"

definition lex_running :: "bool \<Rightarrow> lex_state option \<times> lexer \<Rightarrow> bool" where
  "lex_running incomplete p = (fst p \<noteq> None \<and> (incomplete \<or> hasChars 1 (snd p)))"

fun lex_rounds :: "nat \<Rightarrow> bool \<Rightarrow> lex_state option \<times> lexer \<Rightarrow> lex_state option \<times> lexer" where
  "lex_rounds 0 incomplete p = p"
| "lex_rounds (Suc k) incomplete p =
     (if lex_running incomplete p then lex_rounds k incomplete (parseNext (the (fst p)) (snd p)) else p)"

section \<open>Token types and line positions\<close>

datatype token_type =
    TT_bom | TT_doc_mode | TT_flow_error_end | TT_scalar | TT_doc_start | TT_doc_end | TT_newline
  | TT_seq_item_ind | TT_explicit_key_ind | TT_map_value_ind | TT_flow_map_start | TT_flow_map_end
  | TT_flow_seq_start | TT_flow_seq_end | TT_comma | TT_space | TT_comment | TT_directive_line
  | TT_alias | TT_anchor | TT_tag | TT_single_quoted | TT_double_quoted | TT_block_scalar_header

definition whole_tokens :: "(ustr, token_type) gomap" where
  "whole_tokens =
     [([65279], TT_bom), ([2], TT_doc_mode), ([24], TT_flow_error_end), ([31], TT_scalar),
      ([45, 45, 45], TT_doc_start), ([46, 46, 46], TT_doc_end), ([], TT_newline), ([10], TT_newline),
      ([13, 10], TT_newline), ([45], TT_seq_item_ind), ([63], TT_explicit_key_ind),
      ([58], TT_map_value_ind), ([123], TT_flow_map_start), ([125], TT_flow_map_end),
      ([91], TT_flow_seq_start), ([93], TT_flow_seq_end), ([44], TT_comma)]"

definition first_chars :: "(nat, token_type) gomap" where
  "first_chars =
     [(32, TT_space), (9, TT_space), (35, TT_comment), (37, TT_directive_line), (42, TT_alias),
      (38, TT_anchor), (33, TT_tag), (39, TT_single_quoted), (34, TT_double_quoted),
      (124, TT_block_scalar_header), (62, TT_block_scalar_header)]"

text \<open>\<open>bKt\<close>\<close>

definition tokenType :: "ustr \<Rightarrow> token_type option" where
  "tokenType src =
     (case map_of whole_tokens src of
        Some t \<Rightarrow> Some t
      | None \<Rightarrow> (case src of [] \<Rightarrow> None | c # _ \<Rightarrow> map_of first_chars c))"

text \<open>\<open>DKt.linePos\<close>: binary search in the offsets of the line starts.\<close>

function line_search :: "int list \<Rightarrow> int \<Rightarrow> nat \<Rightarrow> nat \<Rightarrow> nat" where
  "line_search ls off lo hi =
     (if lo < hi then
        (let mid = (lo + hi) div 2 in
         if ls ! mid < off then line_search ls off (mid + 1) hi else line_search ls off lo mid)
      else lo)"
  by pat_completeness auto
termination by (relation "measure (\<lambda>(ls, off, lo, hi). hi - lo)") auto

declare line_search.simps [simp del]

definition linePos :: "int list \<Rightarrow> int \<Rightarrow> int \<times> int" where
  "linePos ls off =
     (let t = line_search ls off 0 (length ls) in
      if t < length ls \<and> ls ! t = off then (int t + 1, 1)
      else if t = 0 then (0, off)
      else (int t, off - ls ! (t - 1) + 1))"

section \<open>Lossless lexing\<close>

fun text_of :: "token \<Rightarrow> ustr" where
  "text_of (Text t) = t"
| "text_of (Mark m) = []"

definition written :: "lexer \<Rightarrow> ustr" where
  "written s = concat (map text_of (lx_out s))"

definition lossless :: "ustr \<Rightarrow> lexer \<Rightarrow> bool" where
  "lossless src s \<longleftrightarrow> written s @ drop (lx_pos s) (lx_buffer s) = src"

named_theorems keeps \<open>the operations of the lexer keep it lossless\<close>

lemma lossless_fields [simp]:
  "lossless src (s\<lparr>lx_atEnd := a\<rparr>) = lossless src s"
  "lossless src (s\<lparr>lx_blockScalarIndent := i\<rparr>) = lossless src s"
  "lossless src (s\<lparr>lx_blockScalarKeep := a\<rparr>) = lossless src s"
  "lossless src (s\<lparr>lx_flowKey := a\<rparr>) = lossless src s"
  "lossless src (s\<lparr>lx_flowLevel := i\<rparr>) = lossless src s"
  "lossless src (s\<lparr>lx_indentNext := i\<rparr>) = lossless src s"
  "lossless src (s\<lparr>lx_indentValue := i\<rparr>) = lossless src s"
  "lossless src (s\<lparr>lx_lineEndPos := e\<rparr>) = lossless src s"
  "lossless src (s\<lparr>lx_next := st\<rparr>) = lossless src s"
  by (simp_all add: lossless_def written_def)

lemma lossless_mark [keeps]: "lossless src s \<Longrightarrow> lossless src (yield (Mark m) s)"
  by (simp add: lossless_def written_def yield_def)

lemma lossless_text:
  "lossless src s \<Longrightarrow> t = take (length t) (drop (lx_pos s) (lx_buffer s)) \<Longrightarrow> k \<ge> length t \<Longrightarrow>
   k = length t \<or> length (lx_buffer s) \<le> lx_pos s + length t \<Longrightarrow>
   lossless src ((yield (Text t) s)\<lparr>lx_pos := lx_pos s + k\<rparr>)"
proof -
  assume l: "lossless src s" and t: "t = take (length t) (drop (lx_pos s) (lx_buffer s))"
    and k: "k \<ge> length t" "k = length t \<or> length (lx_buffer s) \<le> lx_pos s + length t"
  have "t @ drop (length t) (drop (lx_pos s) (lx_buffer s)) = drop (lx_pos s) (lx_buffer s)"
    using t append_take_drop_id by metis
  moreover have "drop (lx_pos s + k) (lx_buffer s) = drop (length t) (drop (lx_pos s) (lx_buffer s))"
    using k by (auto simp: add.commute)
  ultimately show ?thesis using l by (simp add: lossless_def written_def yield_def)
qed

lemma lossless_pushCount [keeps]: "lossless src s \<Longrightarrow> lossless src (snd (pushCount n s))"
  by (auto simp: pushCount_def min_def intro!: lossless_text)

lemma lossless_pushToIndex [keeps]: "lossless src s \<Longrightarrow> lossless src (snd (pushToIndex i a s))"
proof -
  assume l: "lossless src s"
  let ?n = "js_slice (lx_buffer s) (lx_pos s) i"
  have "?n = take (length ?n) (drop (lx_pos s) (lx_buffer s))"
    by (simp add: js_slice_def Let_def min_def)
  from lossless_text [OF l this, of "length ?n"] l show ?thesis
    by (auto simp: pushToIndex_def Let_def) (simp add: lossless_def written_def yield_def)
qed

lemma lossless_pushSpaces [keeps]: "lossless src s \<Longrightarrow> lossless src (snd (pushSpaces a s))"
  by (auto simp: pushSpaces_def Let_def intro!: lossless_text takeWhile_eq_take)

lemma lossless_pushNewline [keeps]: "lossless src s \<Longrightarrow> lossless src (snd (pushNewline s))"
  by (simp add: pushNewline_def keeps)

lemma lossless_pushUntil [keeps]: "lossless src s \<Longrightarrow> lossless src (snd (pushUntil t s))"
  by (simp add: pushUntil_def keeps)

lemma lossless_pushTag [keeps]: "lossless src s \<Longrightarrow> lossless src (snd (pushTag s))"
  by (simp add: pushTag_def Let_def keeps)

lemma lossless_then_spaces [keeps]: "lossless src (snd p) \<Longrightarrow> lossless src (snd (then_spaces p))"
  by (simp add: then_spaces_def split_beta keeps)

lemma lossless_setNext [keeps]: "lossless src s \<Longrightarrow> lossless src (snd (setNext st s))"
  by (simp add: setNext_def lossless_def written_def)

lemma lossless_getLine [keeps]: "lossless src s \<Longrightarrow> lossless src (snd (getLine s))"
  by (simp add: getLine_def Let_def)

lemma lossless_pushIndicator: "lossless src s \<Longrightarrow> pushIndicator s = Some p \<Longrightarrow> lossless src (snd p)"
  by (auto simp: pushIndicator_def Let_def keeps split: option.splits if_splits)

lemma lossless_pushIndicators [keeps]: "lossless src s \<Longrightarrow> lossless src (snd (pushIndicators s))"
proof (induction s rule: pushIndicators.induct)
  case (1 s)
  then show ?case
    by (subst pushIndicators.simps)
      (auto simp: split_beta dest: lossless_pushIndicator split: option.split)
qed

lemma lossless_parseBlockStart [keeps]: "lossless src s \<Longrightarrow> lossless src (snd (parseBlockStart s))"
proof (induction s rule: parseBlockStart.induct)
  case (1 s)
  show ?case
    by (subst parseBlockStart.simps)
      (auto simp: split_beta Let_def keeps 1(2) intro!: 1(1) split: option.split)
qed

lemma lossless_parseLineStart [keeps]: "lossless src s \<Longrightarrow> lossless src (snd (parseLineStart s))"
  by (simp add: parseLineStart_def split_beta Let_def keeps)

lemma lossless_parsePlainScalar [keeps]: "lossless src s \<Longrightarrow> lossless src (snd (parsePlainScalar s))"
  by (simp add: parsePlainScalar_def split_beta Let_def keeps)

lemma lossless_header [keeps]: "lossless src s \<Longrightarrow> lossless src (snd (lex_BlockScalarHeader s))"
  by (simp add: lex_BlockScalarHeader_def split_beta Let_def keeps)

lemma lossless_parseBlockScalar [keeps]: "lossless src s \<Longrightarrow> lossless src (snd (parseBlockScalar s))"
  by (simp add: parseBlockScalar_def split_beta Let_def keeps split: option.split)

lemma lossless_parseQuotedScalar [keeps]: "lossless src s \<Longrightarrow> lossless src (snd (parseQuotedScalar s))"
  by (simp add: parseQuotedScalar_def split_beta Let_def keeps)

lemma lossless_parseDocument [keeps]: "lossless src s \<Longrightarrow> lossless src (snd (parseDocument s))"
proof -
  assume l: "lossless src s"
  let ?s1 = "snd (pushSpaces True s)"
  have l2: "lossless src (snd (getLine ?s1))" using l by (simp add: keeps)
  show ?thesis
  proof (cases "fst (getLine ?s1)")
    case None
    with l2 show ?thesis by (simp add: parseDocument_def split_beta Let_def keeps)
  next
    case (Some line)
    with l2 show ?thesis
      by (simp add: parseDocument_def split_beta Let_def keeps split: option.split)
  qed
qed

lemma lossless_flow_round: "lossless src s \<Longrightarrow> lossless src (snd (snd (flow_round ind s)))"
  by (simp add: flow_round_def split_beta Let_def keeps)

lemma lossless_flow_ws [keeps]: "lossless src s \<Longrightarrow> lossless src (snd (flow_ws ind s))"
proof (induction ind s rule: flow_ws.induct)
  case (1 ind s)
  obtain m ind' s' where r: "flow_round ind s = (m, ind', s')" using prod_cases3 by blast
  have "lossless src s'" using lossless_flow_round [OF 1(2), of ind] r by simp
  with 1(1) [OF r [symmetric] refl] show ?case
    by (subst flow_ws.simps) (simp add: r)
qed

lemma lossless_flow_commas [keeps]: "lossless src s \<Longrightarrow> lossless src (snd (flow_commas line i s))"
proof (induction line i s rule: flow_commas.induct)
  case (1 line i s)
  then show ?case
    by (subst flow_commas.simps) (auto simp: split_beta Let_def keeps)
qed

lemma lossless_parseFlowCollection [keeps]: "lossless src s \<Longrightarrow> lossless src (snd (parseFlowCollection s))"
proof -
  assume l: "lossless src s"
  let ?s1 = "snd (flow_ws (- 1) s)"
  have l2: "lossless src (snd (getLine ?s1))" using l by (simp add: keeps)
  show ?thesis
  proof (cases "fst (getLine ?s1)")
    case None
    with l2 show ?thesis by (simp add: parseFlowCollection_def split_beta Let_def keeps)
  next
    case (Some line)
    with l2 show ?thesis
      by (simp add: parseFlowCollection_def split_beta Let_def keeps split: option.split)
  qed
qed

lemma lossless_parseStream [keeps]: "lossless src s \<Longrightarrow> lossless src (snd (parseStream s))"
proof -
  assume "lossless src s"
  then have "lossless src (snd (getLine s))" by (simp add: keeps)
  then show ?thesis
    by (cases "fst (getLine s)") (simp_all add: parseStream_def split_beta Let_def keeps)
qed

lemma lossless_parseNext: "lossless src s \<Longrightarrow> lossless src (snd (parseNext st s))"
  by (cases st) (simp_all add: keeps)

lemma lossless_input:
  assumes "lossless src s" and "lx_pos s \<le> length (lx_buffer s)"
  shows "lossless (src @ chunk) (snd (lex_input chunk incomplete s))"
  using assms by (auto simp: lex_input_def Let_def lossless_def written_def)

lemma lossless_rounds: "lossless src (snd p) \<Longrightarrow> lossless src (snd (lex_rounds k incomplete p))"
  by (induction k arbitrary: p) (simp_all add: lossless_parseNext)

text \<open>All line starts before index \<open>t\<close> are below the offset; all from \<open>t\<close> on are not.\<close>

definition below :: "int list \<Rightarrow> int \<Rightarrow> nat \<Rightarrow> bool" where
  "below ls off t \<longleftrightarrow> (\<forall>i<t. ls ! i < off)"

definition above :: "int list \<Rightarrow> int \<Rightarrow> nat \<Rightarrow> bool" where
  "above ls off t \<longleftrightarrow> (\<forall>i<length ls. t \<le> i \<longrightarrow> off \<le> ls ! i)"

lemma below_mid: "sorted ls \<Longrightarrow> m < length ls \<Longrightarrow> ls ! m < off \<Longrightarrow> below ls off (Suc m)"
  by (auto simp: below_def) (meson less_Suc_eq_le order.strict_trans1 sorted_nth_mono)

lemma above_mid: "sorted ls \<Longrightarrow> \<not> ls ! m < off \<Longrightarrow> above ls off m"
  by (auto simp: above_def) (meson linorder_not_less order.trans sorted_nth_mono)

lemma line_search_splits:
  assumes "sorted ls"
  shows "lo \<le> hi \<Longrightarrow> hi \<le> length ls \<Longrightarrow> below ls off lo \<Longrightarrow> above ls off hi \<Longrightarrow>
    line_search ls off lo hi \<le> length ls \<and> below ls off (line_search ls off lo hi) \<and>
    above ls off (line_search ls off lo hi)"
proof (induction "hi - lo" arbitrary: lo hi rule: less_induct)
  case less
  show ?case
  proof (cases "lo < hi")
    case True
    let ?m = "(lo + hi) div 2"
    have m: "lo \<le> ?m" "?m < hi" "?m < length ls" using True less.prems(2) by auto
    show ?thesis
    proof (cases "ls ! ?m < off")
      case lt: True
      have eq: "line_search ls off lo hi = line_search ls off (Suc ?m) hi"
        using True lt by (subst line_search.simps) (simp add: Let_def)
      show ?thesis unfolding eq
        by (rule less.hyps) (use m less.prems below_mid [OF assms m(3) lt] in simp_all)
    next
      case ge: False
      have eq: "line_search ls off lo hi = line_search ls off lo ?m"
        using True ge by (subst line_search.simps) (simp add: Let_def)
      show ?thesis unfolding eq
        by (rule less.hyps) (use m less.prems above_mid [OF assms ge] in simp_all)
    qed
  next
    case False
    then have "line_search ls off lo hi = lo" by (subst line_search.simps) simp
    then show ?thesis using False less.prems by simp
  qed
qed

section \<open>Complete input\<close>

text \<open>On complete input no method asks for more: each returns a next state.\<close>

named_theorems ends \<open>the operations keep \<open>atEnd\<close>\<close>

lemma atEnd_push [ends, simp]:
  "lx_atEnd (yield t s) = lx_atEnd s"
  "lx_atEnd (snd (pushCount n s)) = lx_atEnd s"
  "lx_atEnd (snd (pushToIndex i a s)) = lx_atEnd s"
  "lx_atEnd (snd (pushSpaces a s)) = lx_atEnd s"
  "lx_atEnd (snd (getLine s)) = lx_atEnd s"
  by (simp_all add: yield_def pushCount_def pushToIndex_def pushSpaces_def getLine_def Let_def)

lemma atEnd_push2 [ends, simp]:
  "lx_atEnd (snd (pushNewline s)) = lx_atEnd s"
  "lx_atEnd (snd (pushUntil t s)) = lx_atEnd s"
  "lx_atEnd (snd (pushTag s)) = lx_atEnd s"
  "lx_atEnd (snd (then_spaces p)) = lx_atEnd (snd p)"
  "lx_atEnd (snd (lex_BlockScalarHeader s)) = lx_atEnd s"
  by (simp_all add: pushNewline_def pushUntil_def pushTag_def then_spaces_def
      lex_BlockScalarHeader_def split_beta Let_def)

lemma atEnd_pushIndicator: "pushIndicator s = Some p \<Longrightarrow> lx_atEnd (snd p) = lx_atEnd s"
  by (auto simp: pushIndicator_def Let_def split: option.splits if_splits)

lemma atEnd_pushIndicators [simp]: "lx_atEnd (snd (pushIndicators s)) = lx_atEnd s"
proof (induction s rule: pushIndicators.induct)
  case (1 s)
  then show ?case
    by (subst pushIndicators.simps)
      (auto simp: split_beta dest: atEnd_pushIndicator split: option.split)
qed

lemma atEnd_flow_ws [simp]: "lx_atEnd (snd (flow_ws ind s)) = lx_atEnd s"
proof (induction ind s rule: flow_ws.induct)
  case (1 ind s)
  obtain m ind' s' where r: "flow_round ind s = (m, ind', s')" using prod_cases3 by blast
  have "lx_atEnd (snd (snd (flow_round ind s))) = lx_atEnd s"
    by (simp add: flow_round_def split_beta Let_def)
  then have "lx_atEnd s' = lx_atEnd s" using r by simp
  with 1 [OF r [symmetric] refl] show ?case by (subst flow_ws.simps) (simp add: r)
qed

lemma atEnd_flow_commas [simp]: "lx_atEnd (snd (flow_commas line i s)) = lx_atEnd s"
proof (induction line i s rule: flow_commas.induct)
  case (1 line i s)
  then show ?case by (subst flow_commas.simps) (auto simp: split_beta Let_def)
qed

definition completes :: "lex_state option \<times> lexer \<Rightarrow> bool" where
  "completes p \<longleftrightarrow> fst p \<noteq> None \<and> lx_atEnd (snd p)"

lemma completes_parseBlockStart: "lx_atEnd s \<Longrightarrow> completes (parseBlockStart s)"
proof (induction s rule: parseBlockStart.induct)
  case (1 s)
  show ?case
    using 1 by (subst parseBlockStart.simps)
      (auto simp: split_beta Let_def completes_def [of "(_, _)"] intro!: 1(1) split: option.split)
qed

lemma completes_parse:
  "lx_atEnd s \<Longrightarrow> completes (parseLineStart s)"
  "lx_atEnd s \<Longrightarrow> completes (parsePlainScalar s)"
  "lx_atEnd s \<Longrightarrow> completes (parseQuotedScalar s)"
  by (auto simp: parseLineStart_def parsePlainScalar_def parseQuotedScalar_def split_beta Let_def
      completes_def [of "(_, _)"] intro!: completes_parseBlockStart)

lemma indent_scan_atEnd: "indent_scan True cs r e t \<noteq> None"
  by (induction cs arbitrary: r e t) auto

lemma completes_parseBlockScalar: "lx_atEnd s \<Longrightarrow> completes (parseBlockScalar s)"
  using indent_scan_atEnd [of "drop (lx_pos s) (lx_buffer s)" "int (lx_pos s)" "int (lx_pos s) - 1" 0]
  by (auto simp: parseBlockScalar_def split_beta Let_def intro!: completes_parse)

lemma getLine_atEnd: "lx_atEnd s \<Longrightarrow> \<exists>line. fst (getLine s) = Some line"
  by (simp add: getLine_def Let_def)

lemma completes_parseDocument: "lx_atEnd s \<Longrightarrow> completes (parseDocument s)"
proof -
  assume a: "lx_atEnd s"
  then obtain line where "fst (getLine (snd (pushSpaces True s))) = Some line"
    using getLine_atEnd [of "snd (pushSpaces True s)"] by auto
  with a show ?thesis
    by (auto simp: parseDocument_def split_beta Let_def completes_def [of "(_, _)"]
        intro!: completes_parse completes_parseBlockScalar split: option.split)
qed

lemma completes_parseFlowCollection: "lx_atEnd s \<Longrightarrow> completes (parseFlowCollection s)"
proof -
  assume a: "lx_atEnd s"
  then obtain line where "fst (getLine (snd (flow_ws (- 1) s))) = Some line"
    using getLine_atEnd [of "snd (flow_ws (- 1) s)"] by auto
  with a show ?thesis
    by (auto simp: parseFlowCollection_def split_beta Let_def completes_def [of "(_, _)"]
        intro!: completes_parse split: option.split)
qed

lemma completes_parseStream: "lx_atEnd s \<Longrightarrow> completes (parseStream s)"
  using getLine_atEnd [of s]
  by (auto simp: parseStream_def split_beta Let_def completes_def [of "(_, _)"] intro!: completes_parse)

lemma completes_parseNext: "lx_atEnd s \<Longrightarrow> completes (parseNext st s)"
  by (cases st)
    (simp_all add: completes_parse completes_parseBlockScalar completes_parseDocument
      completes_parseFlowCollection completes_parseStream completes_parseBlockStart)

lemma completes_rounds: "completes p \<Longrightarrow> completes (lex_rounds k False p)"
proof (induction k arbitrary: p)
  case (Suc k)
  have "completes (parseNext (the (fst p)) (snd p))"
    using Suc.prems by (intro completes_parseNext) (simp add: completes_def)
  with Suc show ?case by simp
qed simp

lemma lossless_lex: "lossless src (snd (lex_rounds k False (lex_input src False new_lexer)))"
proof (rule lossless_rounds)
  have "lossless ([] @ src) (snd (lex_input src False new_lexer))"
    by (rule lossless_input) (simp_all add: lossless_def written_def new_lexer_def)
  then show "lossless src (snd (lex_input src False new_lexer))" by simp
qed

lemma completes_lex: "fst (lex_rounds k False (lex_input src False new_lexer)) \<noteq> None"
proof -
  have "completes (lex_input src False new_lexer)" by (simp add: completes_def lex_input_def Let_def)
  then show ?thesis using completes_rounds by (auto simp: completes_def)
qed

lemma lossless_stopped:
  assumes "\<not> lex_running False (lex_rounds k False (lex_input src False new_lexer))"
  shows "written (snd (lex_rounds k False (lex_input src False new_lexer))) = src"
  using assms completes_lex [of k src] lossless_lex [of src k]
  by (simp add: lex_running_def hasChars_def lossless_def)

section \<open>Properties\<close>
text \<open>C14: Lexing is lossless. After any number of rounds on a complete source, the slices yielded
  so far followed by the unread rest are the source, and the lexer has not asked for more input;
  so when its loop ends, the yielded slices together are exactly the source.\<close>
theorem lexer_lossless:
  "written (snd (lex_rounds k False (lex_input src False new_lexer))) @
     drop (lx_pos (snd (lex_rounds k False (lex_input src False new_lexer))))
       (lx_buffer (snd (lex_rounds k False (lex_input src False new_lexer)))) = src \<and>
   fst (lex_rounds k False (lex_input src False new_lexer)) \<noteq> None \<and>
   (\<not> lex_running False (lex_rounds k False (lex_input src False new_lexer)) \<longrightarrow>
     written (snd (lex_rounds k False (lex_input src False new_lexer))) = src)"
  using lossless_lex [of src k] completes_lex [of k src] lossless_stopped [of k src]
  unfolding lossless_def by blast

theorem lexer_lossless_witness:
  "written (snd (lex_rounds 9 False (lex_input (u ''a: 1'') False new_lexer))) = u ''a: 1''"
proof -
  have "\<not> lex_running False (lex_rounds 9 False (lex_input (u ''a: 1'') False new_lexer))" by code_simp
  then show ?thesis using lexer_lossless [of 9 "u ''a: 1''"] by blast
qed

text \<open>C38: The line counter locates an offset. For ascending line starts of which the first is not
  beyond the offset, the line is the number of starts up to the offset and the column counts from
  the start of that line, from 1.\<close>
theorem linePos_correct:
  assumes "sorted_wrt (<) ls" and "ls \<noteq> []" and "hd ls \<le> off"
  shows "linePos ls off =
    (int (length (filter (\<lambda>l. l \<le> off) ls)), off - last (filter (\<lambda>l. l \<le> off) ls) + 1)"
proof -
  have sorted: "sorted ls" using assms(1) strict_sorted_imp_sorted by blast
  define t where "t = line_search ls off 0 (length ls)"
  have split: "t \<le> length ls" "below ls off t" "above ls off t"
    using line_search_splits [OF sorted, of 0 "length ls" off] unfolding t_def by (simp_all add: below_def above_def)
  define n where "n = (if t < length ls \<and> ls ! t = off then Suc t else t)"
  have strict: "j < k \<Longrightarrow> k < length ls \<Longrightarrow> ls ! j < ls ! k" for j k
    using assms(1) by (simp add: sorted_wrt_iff_nth_less)
  have le: "ls ! i \<le> off \<longleftrightarrow> i < n" if i: "i < length ls" for i
  proof (cases "i < t")
    case True
    then show ?thesis using split(2) by (auto simp: below_def n_def)
  next
    case False
    then have ge: "off \<le> ls ! i" "off \<le> ls ! t" "t < length ls" using split(3) i by (auto simp: above_def)
    show ?thesis
    proof (cases "i = t")
      case True
      then show ?thesis using ge by (auto simp: n_def)
    next
      case False
      then have "ls ! t < ls ! i" "t < i" using \<open>\<not> i < t\<close> strict [of t i] i by auto
      then show ?thesis using ge by (auto simp: n_def)
    qed
  qed
  have n: "n \<le> length ls" using split(1) by (simp add: n_def)
  have "filter (\<lambda>l. l \<le> off) (take n ls) = take n ls"
    using le n by (auto simp: filter_id_conv in_set_conv_nth)
  moreover have "filter (\<lambda>l. l \<le> off) (drop n ls) = []"
    using le n by (fastforce simp: filter_empty_conv in_set_conv_nth)
  ultimately have f: "filter (\<lambda>l. l \<le> off) ls = take n ls"
    by (metis append.right_neutral append_take_drop_id filter_append)
  have pos: "n > 0"
    using le [of 0] assms(2,3) by (simp add: hd_conv_nth)
  then have "last (take n ls) = ls ! (n - 1)" using n by (subst last_conv_nth) (auto simp: min_def)
  then show ?thesis
    unfolding f linePos_def t_def [symmetric] Let_def using n pos by (auto simp: n_def split: if_splits)
qed

theorem linePos_correct_witness: "linePos [0, 5, 9] 6 = (2, 2)"
  using linePos_correct [of "[0, 5, 9]" 6] by simp

end
