(* ===== verification/YamlTermination.thy ===== *)
theory YamlTermination
  imports YamlLexer
begin

text \<open>
  The loop of the YAML lexer ends. Every round on complete input consumes part of the buffer, except
  that the lexer may pass from the stream to a document without consuming; so at most twice as many
  rounds as there are characters are needed, and one more.

  That a round makes progress is not obvious from the code: \<open>getLine\<close> excludes the carriage return
  before the line feed it finds, and would make no sense of a position between the two. The proof
  keeps three facts: the position is never between a carriage return and its line feed, the cached
  line end is where a line feed was looked for from a position already passed, and the flow level is
  positive exactly in the flow state.
\<close>

section \<open>Moving over text\<close>

text \<open>\<open>advance s w s'\<close>: the text \<open>w\<close> lies between the positions of \<open>s\<close> and \<open>s'\<close>, and nothing but the
  position, the indentation, the output and the flow key may differ.\<close>

definition advance :: "lexer \<Rightarrow> ustr \<Rightarrow> lexer \<Rightarrow> bool" where
  "advance s w s' \<longleftrightarrow>
     lx_buffer s' = lx_buffer s \<and> lx_atEnd s' = lx_atEnd s \<and> lx_flowLevel s' = lx_flowLevel s \<and>
     lx_lineEndPos s' = lx_lineEndPos s \<and> lx_pos s' = lx_pos s + length w \<and>
     drop (lx_pos s) (lx_buffer s) = w @ drop (lx_pos s') (lx_buffer s)"

definition unbroken :: "ustr \<Rightarrow> bool" where
  "unbroken w \<longleftrightarrow> CR \<notin> set w \<and> LF \<notin> set w"

definition within :: "int \<Rightarrow> lexer \<Rightarrow> lexer \<Rightarrow> bool" where
  "within n s s' \<longleftrightarrow> (\<exists>w. advance s w s' \<and> unbroken w \<and> n = int (length w))"

lemma advance_refl [simp]: "advance s [] s"
  by (simp add: advance_def)

lemma advance_trans: "advance s v s1 \<Longrightarrow> advance s1 w s2 \<Longrightarrow> advance s (v @ w) s2"
  by (simp add: advance_def)

lemma advance_fields [simp]:
  "advance s w (s'\<lparr>lx_flowKey := a\<rparr>) = advance s w s'"
  "advance s w (s'\<lparr>lx_indentNext := i\<rparr>) = advance s w s'"
  "advance s w (s'\<lparr>lx_indentValue := i\<rparr>) = advance s w s'"
  "advance s w (s'\<lparr>lx_blockScalarIndent := i\<rparr>) = advance s w s'"
  "advance s w (s'\<lparr>lx_blockScalarKeep := a\<rparr>) = advance s w s'"
  "advance s w (yield t s') = advance s w s'"
  "advance (s\<lparr>lx_flowKey := a\<rparr>) w s' = advance s w s'"
  "advance (s\<lparr>lx_indentNext := i\<rparr>) w s' = advance s w s'"
  "advance (s\<lparr>lx_indentValue := i\<rparr>) w s' = advance s w s'"
  "advance (s\<lparr>lx_blockScalarIndent := i\<rparr>) w s' = advance s w s'"
  "advance (s\<lparr>lx_blockScalarKeep := a\<rparr>) w s' = advance s w s'"
  "advance (yield t s) w s' = advance s w s'"
  by (simp_all add: advance_def yield_def)

lemma within_fields [simp]:
  "within n s (s'\<lparr>lx_flowKey := a\<rparr>) = within n s s'"
  "within n s (s'\<lparr>lx_indentNext := i\<rparr>) = within n s s'"
  "within n s (s'\<lparr>lx_indentValue := i\<rparr>) = within n s s'"
  "within n s (yield t s') = within n s s'"
  "within n (s\<lparr>lx_flowKey := a\<rparr>) s' = within n s s'"
  "within n (s\<lparr>lx_indentNext := i\<rparr>) s' = within n s s'"
  "within n (s\<lparr>lx_indentValue := i\<rparr>) s' = within n s s'"
  "within n (s\<lparr>lx_blockScalarIndent := i\<rparr>) s' = within n s s'"
  "within n (s\<lparr>lx_blockScalarKeep := a\<rparr>) s' = within n s s'"
  "within n (yield t s) s' = within n s s'"
  by (simp_all add: within_def)

lemma within_refl [simp]: "within 0 s s"
  by (auto simp: within_def unbroken_def intro: exI [of _ "[]"])

lemma within_trans: "within m s s1 \<Longrightarrow> within n s1 s2 \<Longrightarrow> within (m + n) s s2"
  by (fastforce simp: within_def unbroken_def dest: advance_trans)

lemma advance_left: "advance s w s' \<Longrightarrow> left s = length w + left s'"
  by (cases "w = []") (auto simp: advance_def left_def dest: arg_cong [where f = length])

lemma advance_take:
  assumes "k \<le> length (lx_buffer s) - lx_pos s" and "lx_buffer s' = lx_buffer s" "lx_atEnd s' = lx_atEnd s"
    "lx_flowLevel s' = lx_flowLevel s" "lx_lineEndPos s' = lx_lineEndPos s" "lx_pos s' = lx_pos s + k"
  shows "advance s (take k (drop (lx_pos s) (lx_buffer s))) s'"
  using assms by (simp add: advance_def append_take_drop_id flip: drop_drop) (metis append_take_drop_id add.commute drop_drop)

lemma advance_pushCount:
  "0 \<le> n \<Longrightarrow> n \<le> int (left s) \<Longrightarrow>
     advance s (take (nat n) (drop (lx_pos s) (lx_buffer s))) (snd (pushCount n s))"
  by (cases "n > 0") (auto simp: pushCount_def left_def yield_def intro!: advance_take)

lemma advance_pushToIndex:
  assumes "int (lx_pos s) \<le> i"
  shows "advance s (take (nat i - lx_pos s) (drop (lx_pos s) (lx_buffer s))) (snd (pushToIndex i a s))"
proof -
  let ?n = "take (nat i - lx_pos s) (drop (lx_pos s) (lx_buffer s))"
  have slice: "js_slice (lx_buffer s) (lx_pos s) i = ?n" using assms by (simp add: js_slice_def)
  have pos: "lx_pos (snd (pushToIndex i a s)) = lx_pos s + length ?n"
    by (simp only: pushToIndex_def slice Let_def) (auto simp: yield_def)
  have "?n @ drop (lx_pos s + length ?n) (lx_buffer s) = drop (lx_pos s) (lx_buffer s)"
    by (metis add.commute append_take_drop_id drop_drop drop_all length_take linorder_le_cases min.absorb1 min.absorb2 take_all append_Nil2)
  then show ?thesis
    unfolding advance_def pos by (auto simp: pushToIndex_def Let_def yield_def)
qed

text \<open>The characters from the position on.\<close>

definition ahead :: "lexer \<Rightarrow> ustr" where
  "ahead s = drop (lx_pos s) (lx_buffer s)"

lemma ahead_advance: "advance s w s' \<Longrightarrow> ahead s = w @ ahead s'"
  by (simp add: advance_def ahead_def)

lemma drop_ahead: "drop (lx_pos s + k) (lx_buffer s) = drop k (ahead s)"
  by (simp add: ahead_def add.commute)

lemma left_ahead: "left s = length (ahead s)"
  by (simp add: left_def ahead_def)

lemma charAt_ahead: "charAt n s = (if n < length (ahead s) then Some (ahead s ! n) else None)"
  by (auto simp: charAt_def at_def ahead_def simp del: of_nat_add)

lemma charAt_0: "charAt 0 s = (case ahead s of [] \<Rightarrow> None | c # r \<Rightarrow> Some c)"
  by (simp add: charAt_ahead split: list.split)

lemma charAt_1: "charAt (Suc 0) s = (case ahead s of c # d # r \<Rightarrow> Some d | _ \<Rightarrow> None)"
  by (simp add: charAt_ahead split: list.split)

lemma within_take:
  assumes "advance s (take k (ahead s)) s'" and "unbroken (take k (ahead s))" and "k \<le> left s"
  shows "within (int k) s s'"
  using assms by (auto simp: within_def left_ahead intro!: exI [of _ "take k (ahead s)"])

lemma pushToIndex_fst: "int (lx_pos s) \<le> i \<Longrightarrow> i \<le> int (length (lx_buffer s)) \<Longrightarrow>
    fst (pushToIndex i a s) = i - int (lx_pos s)"
  by (auto simp: pushToIndex_def js_slice_def Let_def)

lemma within_pushToIndex:
  assumes "k \<le> left s" and "unbroken (take k (ahead s))"
  shows "within (fst (pushToIndex (int (lx_pos s + k)) a s)) s (snd (pushToIndex (int (lx_pos s + k)) a s))"
proof -
  let ?s' = "snd (pushToIndex (int (lx_pos s + k)) a s)"
  have a: "advance s (take k (ahead s)) ?s'"
    using advance_pushToIndex [of s "int (lx_pos s + k)" a] by (simp add: ahead_def del: of_nat_add)
  have "fst (pushToIndex (int (lx_pos s + k)) a s) = int k"
  proof (cases "k = 0")
    case True
    then show ?thesis by (simp add: pushToIndex_def js_slice_def Let_def)
  next
    case False
    then have "lx_pos s + k \<le> length (lx_buffer s)" using assms(1) by (simp add: left_def)
    then show ?thesis by (subst pushToIndex_fst) auto
  qed
  then show ?thesis using within_take [OF a assms(2,1)] by simp
qed

lemma within_pushCount_1:
  assumes "charAt 0 s = Some c" and "c \<noteq> CR" "c \<noteq> LF"
  shows "within (fst (pushCount 1 s)) s (snd (pushCount 1 s))"
proof -
  obtain r where r: "ahead s = c # r" using assms(1) by (auto simp: charAt_0 split: list.splits)
  then have "within (int 1) s (snd (pushCount 1 s))"
    using advance_pushCount [of 1 s] assms
    by (intro within_take) (simp_all add: ahead_def [symmetric] left_ahead unbroken_def)
  then show ?thesis by (simp add: pushCount_def)
qed

lemma within_pushSpaces: "within (fst (pushSpaces a s)) s (snd (pushSpaces a s))"
proof -
  let ?r = "takeWhile (\<lambda>c. c = 32 \<or> a \<and> c = 9) (ahead s)"
  have eq: "take (length ?r) (ahead s) = ?r" by (rule takeWhile_eq_take [symmetric])
  have "unbroken ?r" by (auto simp: unbroken_def dest: set_takeWhileD)
  moreover have "length ?r \<le> left s" by (simp add: left_ahead length_takeWhile_le)
  moreover have "advance s (take (length ?r) (drop (lx_pos s) (lx_buffer s))) (snd (pushSpaces a s))"
    using calculation(2)
    by (intro advance_take) (auto simp: left_def pushSpaces_def Let_def yield_def ahead_def)
  moreover have "fst (pushSpaces a s) = int (length ?r)"
    by (simp add: pushSpaces_def Let_def ahead_def)
  ultimately show ?thesis using within_take [of s "length ?r"] eq by (simp add: ahead_def)
qed

lemma within_then_spaces:
  "within (fst p) s (snd p) \<Longrightarrow> within (fst (then_spaces p)) s (snd (then_spaces p))"
  using within_trans [OF _ within_pushSpaces [of True "snd p"]] by (simp add: then_spaces_def split_beta)

lemma within_pushUntil:
  assumes "test (Some CR)" and "test (Some LF)"
  shows "within (fst (pushUntil test s)) s (snd (pushUntil test s))"
proof -
  let ?r = "takeWhile (\<lambda>c. \<not> test (Some c)) (ahead s)"
  have "unbroken (take (length ?r) (ahead s))"
    using assms by (auto simp: unbroken_def takeWhile_eq_take [symmetric] dest: set_takeWhileD)
  then show ?thesis unfolding pushUntil_def
    using within_pushToIndex [of "length ?r" s False] by (simp add: ahead_def left_def length_takeWhile_le [THEN order_trans])
qed

lemma tag_end_bound: "tag_end cs \<le> length cs"
  by (induction cs rule: tag_end.induct) (auto split: list.split)

lemma tag_end_unbroken: "unbroken (take (tag_end cs) cs)"
proof (induction cs rule: tag_end.induct)
  case (1 c r)
  have ends: "\<not> tagChar CR" "\<not> tagChar LF" by (simp_all add: tagChar_def u_def)
  show ?case
  proof (cases "tagChar c")
    case True
    then show ?thesis using 1(1) ends by (auto simp: unbroken_def)
  next
    case False
    have hex: "\<not> hexDigit (Some CR)" "\<not> hexDigit (Some LF)" by (simp_all add: hexDigit_def hex_digit_def)
    show ?thesis using False 1(2) hex
      by (auto simp: unbroken_def numeral_3_eq_3 split: list.split if_split)
  qed
qed (simp add: unbroken_def)

lemma unbroken_append [simp]: "unbroken (v @ w) \<longleftrightarrow> unbroken v \<and> unbroken w"
  by (auto simp: unbroken_def)

lemma unbroken_Cons [simp]: "unbroken (c # w) \<longleftrightarrow> c \<noteq> CR \<and> c \<noteq> LF \<and> unbroken w"
  by (auto simp: unbroken_def)

lemma unbroken_Nil [simp]: "unbroken []"
  by (simp add: unbroken_def)

lemma pushToIndex_beyond:
  "int (length (lx_buffer s)) \<le> i \<Longrightarrow> pushToIndex i a s = pushToIndex (int (max (lx_pos s) (length (lx_buffer s)))) a s"
  by (auto simp: pushToIndex_def js_slice_def max_def)

lemma within_pushTag:
  assumes "charAt 0 s = Some 33"
  shows "within (fst (pushTag s)) s (snd (pushTag s))"
proof -
  obtain r where r: "ahead s = 33 # r" using assms by (auto simp: charAt_0 split: list.splits)
  show ?thesis
  proof (cases "charAt 1 s = Some 60")
    case True
    then obtain q where q: "r = 60 # q" using r by (auto simp: charAt_1 split: list.splits)
    define w where "w = takeWhile (\<lambda>c. \<not> isEmpty (Some c) \<and> c \<noteq> 62) q"
    obtain z where z: "q = w @ z" unfolding w_def by (metis takeWhile_dropWhile_id)
    have d: "drop (lx_pos s + 2) (lx_buffer s) = q"
      unfolding drop_ahead r q by simp
    have w: "unbroken w" by (auto simp: w_def unbroken_def isEmpty_def dest: set_takeWhileD)
    have "at (lx_buffer s) (int (lx_pos s + 2 + length w)) = charAt (2 + length w) s"
      by (simp add: charAt_def algebra_simps)
    then have at: "at (lx_buffer s) (int (lx_pos s + 2 + length w)) = (case z of [] \<Rightarrow> None | c # _ \<Rightarrow> Some c)"
      by (simp add: charAt_ahead r q z nth_append split: list.split)
    define k where "k = (if at (lx_buffer s) (int (lx_pos s + 2 + length w)) = Some 62 then length w + 3 else length w + 2)"
    have k: "k \<le> left s" "unbroken (take k (ahead s))"
      using w unfolding k_def at by (auto simp: left_ahead r q z numeral_3_eq_3 split: list.splits)
    have "pushTag s = pushToIndex (int (lx_pos s + k)) False s"
      unfolding pushTag_def if_P [OF True] d w_def [symmetric] Let_def k_def
      by (rule arg_cong [where f = "\<lambda>i. pushToIndex i False s"]) simp
    then show ?thesis using within_pushToIndex [OF k] by simp
  next
    case False
    let ?k = "Suc (tag_end r)"
    have d: "drop (lx_pos s + 1) (lx_buffer s) = r" unfolding drop_ahead r by simp
    have k: "?k \<le> left s" "unbroken (take ?k (ahead s))"
      using tag_end_bound [of r] tag_end_unbroken [of r] by (simp_all add: left_ahead r)
    have "pushTag s = pushToIndex (int (lx_pos s + ?k)) False s"
      unfolding pushTag_def if_not_P [OF False] d by simp
    then show ?thesis using within_pushToIndex [OF k] by simp
  qed
qed

lemma within_pushIndicator:
  assumes "pushIndicator s = Some p"
  shows "within (fst p) s (snd p)"
proof -
  obtain c where c: "charAt 0 s = Some c" using assms by (auto simp: pushIndicator_def split: option.splits)
  let ?f = "s\<lparr>lx_flowKey := False\<rparr>" and ?i = "s\<lparr>lx_indentNext := lx_indentValue s + 1\<rparr>"
  have at: "charAt 0 ?f = Some c" "charAt 0 ?i = Some c" using c by (simp_all add: charAt_def)
  have anchor: "within (fst (pushUntil isNotAnchorChar s)) s (snd (pushUntil isNotAnchorChar s))"
    by (rule within_pushUntil) (simp_all add: isNotAnchorChar_def)
  consider "c = 33" "p = then_spaces (pushTag s)" | "p = then_spaces (pushUntil isNotAnchorChar s)"
    | t where "p = then_spaces (pushCount 1 t)" "t = ?f \<or> t = ?i" "c = 45 \<or> c = 63 \<or> c = 58"
    using assms c by (auto simp: pushIndicator_def Let_def split: if_splits)
  then show ?thesis
  proof cases
    case 1
    then show ?thesis using within_pushTag c by (simp add: within_then_spaces)
  next
    case 2
    then show ?thesis using anchor by (simp add: within_then_spaces)
  next
    case (3 t)
    then have "within (fst (pushCount 1 t)) t (snd (pushCount 1 t))"
      using at by (intro within_pushCount_1 [of _ c]) auto
    then have "within (fst (pushCount 1 t)) s (snd (pushCount 1 t))" using 3(2) by auto
    then show ?thesis using 3(1) by (simp add: within_then_spaces)
  qed
qed

lemma within_pushIndicators: "within (fst (pushIndicators s)) s (snd (pushIndicators s))"
proof (induction s rule: pushIndicators.induct)
  case (1 s)
  show ?case
  proof (cases "pushIndicator s")
    case None
    then show ?thesis by (simp add: pushIndicators.simps [of s])
  next
    case (Some p)
    obtain n s1 where p: "p = (n, s1)" by fastforce
    have "within n s s1" using within_pushIndicator [OF Some] p by simp
    from within_trans [OF this 1 [OF Some p [symmetric]]] show ?thesis
      by (simp add: pushIndicators.simps [of s] Some p split_beta)
  qed
qed

section \<open>The invariant\<close>

definition unsplit :: "ustr \<Rightarrow> nat \<Rightarrow> bool" where
  "unsplit b p \<longleftrightarrow> \<not> (at b (int p - 1) = Some CR \<and> at b (int p) = Some LF)"

definition cached :: "lexer \<Rightarrow> bool" where
  "cached s \<longleftrightarrow>
     (\<forall>e. lx_lineEndPos s = Some e \<longrightarrow> (\<exists>q\<le>lx_pos s. e = indexOf (lx_buffer s) LF (int q)))"

definition valid :: "lexer \<Rightarrow> bool" where
  "valid s \<longleftrightarrow> lx_atEnd s \<and> unsplit (lx_buffer s) (lx_pos s) \<and> cached s"

lemma valid_fields [simp]:
  "valid (s\<lparr>lx_flowKey := a\<rparr>) = valid s"
  "valid (s\<lparr>lx_indentNext := i\<rparr>) = valid s"
  "valid (s\<lparr>lx_indentValue := i\<rparr>) = valid s"
  "valid (s\<lparr>lx_flowLevel := i\<rparr>) = valid s"
  "valid (s\<lparr>lx_blockScalarIndent := i\<rparr>) = valid s"
  "valid (s\<lparr>lx_blockScalarKeep := a\<rparr>) = valid s"
  "valid (yield t s) = valid s"
  by (simp_all add: valid_def cached_def yield_def)

lemma advance_valid:
  assumes "valid s" and "advance s w s'" and "unsplit (lx_buffer s) (lx_pos s')"
  shows "valid s'"
  using assms unfolding valid_def cached_def advance_def by (metis le_add1 le_trans)

lemma at_behind:
  assumes "advance s w s'" and "w \<noteq> []"
  shows "at (lx_buffer s) (int (lx_pos s') - 1) = Some (last w)"
proof -
  obtain v c where w: "w = v @ [c]" using assms(2) by (metis rev_exhaust)
  have "ahead s = v @ c # ahead s'" using ahead_advance [OF assms(1)] w by simp
  then have "charAt (length v) s = Some c" by (simp add: charAt_ahead)
  moreover have "int (lx_pos s') - 1 = int (lx_pos s + length v)" using assms(1) w by (simp add: advance_def)
  ultimately show ?thesis by (simp add: charAt_def w)
qed

lemma at_here: "lx_buffer s' = b \<Longrightarrow> at b (int (lx_pos s')) = charAt 0 s'"
  by (simp add: charAt_def)

lemma valid_within: "valid s \<Longrightarrow> within n s s' \<Longrightarrow> valid s'"
proof -
  assume v: "valid s" and "within n s s'"
  then obtain w where w: "advance s w s'" "unbroken w" by (auto simp: within_def)
  show "valid s'"
  proof (cases "w = []")
    case True
    with w v show ?thesis by (intro advance_valid [OF v w(1)]) (simp add: valid_def advance_def)
  next
    case False
    with w(2) have "last w \<noteq> CR" using last_in_set unfolding unbroken_def by metis
    with at_behind [OF w(1) False] show ?thesis
      by (intro advance_valid [OF v w(1)]) (simp add: unsplit_def)
  qed
qed

text \<open>A line: the text up to the end of the buffer, a line feed, or a carriage return and a line
  feed.\<close>

definition line_rest :: "ustr \<Rightarrow> ustr \<Rightarrow> bool" where
  "line_rest line rest \<longleftrightarrow>
     LF \<notin> set line \<and>
     (rest = [] \<or> (\<exists>r. rest = LF # r) \<and> (line = [] \<or> last line \<noteq> CR) \<or> (\<exists>r. rest = CR # LF # r))"

lemma indexOf_nat:
  "indexOf b c (int q) =
     (if c \<in> set (drop q b) then int (q + length (takeWhile (\<lambda>x. x \<noteq> c) (drop q b))) else - 1)"
proof -
  have "q + length (takeWhile (\<lambda>x. x \<noteq> c) (drop q b)) < length b \<longleftrightarrow> c \<in> set (drop q b)"
    using takeWhile_short [of "\<lambda>x. x \<noteq> c" "drop q b"] by auto
  then show ?thesis by (simp add: indexOf_def Let_def)
qed

lemma indexOf_first:
  assumes "drop q b = w @ c # r" and "c \<notin> set w"
  shows "indexOf b c (int q) = int (q + length w)"
proof -
  have "takeWhile (\<lambda>x. x \<noteq> c) (w @ c # r) = w" using assms(2) by (subst takeWhile_append2) auto
  then show ?thesis using assms(1) by (simp add: indexOf_nat)
qed

lemma indexOf_later:
  assumes "q \<le> p" and "indexOf b c (int q) = - 1 \<or> int p \<le> indexOf b c (int q)"
  shows "indexOf b c (int q) = indexOf b c (int p)"
proof (cases "c \<in> set (drop q b)")
  case False
  then have "c \<notin> set (drop p b)" using assms(1) set_drop_subset_set_drop by (meson in_mono)
  with False show ?thesis by (simp add: indexOf_nat)
next
  case True
  then obtain w r where w: "drop q b = w @ c # r" "c \<notin> set w" by (meson split_list_first)
  from indexOf_first [OF this] assms have len: "p - q \<le> length w" by auto
  have "drop p b = drop (p - q) (drop q b)" using assms(1) by simp
  also have "\<dots> = drop (p - q) w @ c # r" using len w(1) by simp
  finally have "indexOf b c (int p) = int (p + length (drop (p - q) w))"
    using w(2) by (intro indexOf_first) (auto dest: in_set_dropD)
  with indexOf_first [OF w] len assms(1) show ?thesis by simp
qed

lemma getLine_end:
  assumes "cached s"
  shows "getLine s =
    (let e = indexOf (lx_buffer s) LF (int (lx_pos s));
         s1 = s\<lparr>lx_lineEndPos := Some e\<rparr>
     in if e = - 1 then (if lx_atEnd s then Some (ahead s) else None, s1)
        else (Some (substring (lx_buffer s) (int (lx_pos s))
                (if at (lx_buffer s) (e - 1) = Some CR then e - 1 else e)), s1))"
proof (cases "case lx_lineEndPos s of None \<Rightarrow> True | Some e \<Rightarrow> e \<noteq> - 1 \<and> e < int (lx_pos s)")
  case True
  then show ?thesis by (simp add: getLine_def Let_def ahead_def)
next
  case False
  then obtain e where e: "lx_lineEndPos s = Some e" "e = - 1 \<or> int (lx_pos s) \<le> e"
    by (auto split: option.splits)
  then obtain q where "q \<le> lx_pos s" "e = indexOf (lx_buffer s) LF (int q)"
    using assms by (auto simp: cached_def)
  with e(2) have eq: "indexOf (lx_buffer s) LF (int (lx_pos s)) = e" using indexOf_later by metis
  have "s\<lparr>lx_lineEndPos := Some e\<rparr> = s" using e(1) by simp
  with False e(1) show ?thesis unfolding getLine_def eq by (simp add: Let_def ahead_def)
qed

lemma substring_ahead:
  "ahead s = w @ r \<Longrightarrow> substring (lx_buffer s) (int (lx_pos s)) (int (lx_pos s + length w)) = w"
  by (simp add: substring_def ahead_def)

lemma getLine_line:
  assumes v: "valid s"
  obtains line rest s1 where "getLine s = (Some line, s1)" "ahead s = line @ rest" "line_rest line rest"
    "valid s1" "lx_pos s1 = lx_pos s" "lx_buffer s1 = lx_buffer s" "lx_flowLevel s1 = lx_flowLevel s"
    "lx_flowKey s1 = lx_flowKey s"
proof -
  let ?e = "indexOf (lx_buffer s) LF (int (lx_pos s))"
  let ?s1 = "s\<lparr>lx_lineEndPos := Some ?e\<rparr>"
  have c: "cached s" "lx_atEnd s" using v by (simp_all add: valid_def)
  have v1: "valid ?s1" using v by (auto simp: valid_def cached_def)
  show thesis
  proof (cases "LF \<in> set (ahead s)")
    case False
    then have "?e = - 1" by (simp add: indexOf_nat ahead_def)
    then have "getLine s = (Some (ahead s), ?s1)" using c by (simp add: getLine_end Let_def)
    then show thesis by (rule that [of _ _ "[]"]) (use False v1 in \<open>simp_all add: line_rest_def\<close>)
  next
    case True
    then obtain w r where w: "ahead s = w @ LF # r" "LF \<notin> set w" by (meson split_list_first)
    then have e: "?e = int (lx_pos s + length w)" using indexOf_first [of "lx_pos s"] by (simp add: ahead_def)
    show thesis
    proof (cases "at (lx_buffer s) (?e - 1) = Some CR")
      case cr: True
      have "w \<noteq> []"
      proof
        assume "w = []"
        then have "charAt 0 s = Some LF" using w by (simp add: charAt_0)
        with cr \<open>w = []\<close> e v show False by (simp add: valid_def unsplit_def charAt_def)
      qed
      then obtain v c where vc: "w = v @ [c]" by (metis rev_exhaust)
      have "charAt (length v) s = Some c" using w vc by (simp add: charAt_ahead)
      with cr e vc have "c = CR" by (simp add: charAt_def)
      have "substring (lx_buffer s) (int (lx_pos s)) (?e - 1) = v"
        using substring_ahead [of s v "c # LF # r"] w vc e by simp
      with cr e have "getLine s = (Some v, ?s1)" using c by (simp add: getLine_end Let_def)
      then show thesis
        by (rule that [of _ _ "CR # LF # r"]) (use w vc \<open>c = CR\<close> v1 in \<open>simp_all add: line_rest_def\<close>)
    next
      case cr: False
      have "getLine s = (Some w, ?s1)"
        using c cr e substring_ahead [of s w "LF # r"] w(1) by (simp add: getLine_end Let_def)
      moreover have "w = [] \<or> last w \<noteq> CR"
      proof (rule disjCI)
        assume "\<not> last w \<noteq> CR"
        show "w = []"
        proof (rule ccontr)
          assume "w \<noteq> []"
          then obtain v where "w = v @ [CR]" using \<open>\<not> last w \<noteq> CR\<close> by (metis append_butlast_last_id)
          then have "charAt (length v) s = Some CR" using w by (simp add: charAt_ahead)
          with cr e \<open>w = v @ [CR]\<close> show False by (simp add: charAt_def)
        qed
      qed
      ultimately show thesis
        by (intro that [of w ?s1 "LF # r"]) (use w v1 in \<open>simp_all add: line_rest_def\<close>)
    qed
  qed
qed

text \<open>Moving within a line, to its end, and over its end.\<close>

lemma line_within:
  assumes "ahead s = line @ rest" and "line_rest line rest" and "within n s s'"
  obtains pre suf where "line = pre @ suf" "n = int (length pre)" "ahead s' = suf @ rest" "line_rest suf rest"
proof -
  obtain w where w: "advance s w s'" "unbroken w" "n = int (length w)" using assms(3) by (auto simp: within_def)
  from ahead_advance [OF w(1)] assms(1) have eq: "line @ rest = w @ ahead s'" by simp
  then obtain us where us: "line = w @ us \<and> us @ rest = ahead s' \<or> line @ us = w \<and> rest = us @ ahead s'"
    by (auto simp: append_eq_append_conv2)
  have "\<exists>us. line = w @ us \<and> ahead s' = us @ rest"
  proof (cases us)
    case Nil
    then show ?thesis using us by auto
  next
    case (Cons c r)
    then show ?thesis using us w(2) assms(2) by (auto simp: line_rest_def)
  qed
  then obtain suf where suf: "line = w @ suf" "ahead s' = suf @ rest" by blast
  have "line_rest suf rest" using assms(2) suf(1) by (auto simp: line_rest_def)
  then show thesis by (rule that [OF suf(1) w(3) suf(2)])
qed

lemma line_pushCount:
  assumes "ahead s = suf @ rest" and "line_rest suf rest" and "valid s" and n: "n = int (length suf)"
  shows "ahead (snd (pushCount n s)) = rest \<and> valid (snd (pushCount n s)) \<and>
    lx_flowLevel (snd (pushCount n s)) = lx_flowLevel s"
proof -
  let ?s' = "snd (pushCount n s)"
  have a: "advance s suf ?s'"
    using advance_pushCount [of n s] assms(1) n by (simp add: left_ahead ahead_def [symmetric])
  then have rest: "ahead ?s' = rest" using ahead_advance assms(1) by fastforce
  have "unsplit (lx_buffer s) (lx_pos ?s')"
  proof (cases "suf = []")
    case True
    then show ?thesis using a assms(3) by (simp add: advance_def valid_def)
  next
    case False
    have "at (lx_buffer s) (int (lx_pos ?s')) = charAt 0 ?s'"
      by (rule at_here) (use a in \<open>simp add: advance_def\<close>)
    with at_behind [OF a False] rest assms(2) False show ?thesis
      by (auto simp: unsplit_def charAt_0 line_rest_def)
  qed
  with advance_valid [OF assms(3) a] rest a show ?thesis by (simp add: advance_def)
qed

lemma advance_one:
  assumes "advance s w s'" and "w \<noteq> []" and "last w \<noteq> CR" and "valid s"
  shows "valid s'"
  using at_behind [OF assms(1,2)] assms(3) by (intro advance_valid [OF assms(4,1)]) (simp add: unsplit_def)

lemma pushNewline_ahead:
  "pushNewline s =
     (case ahead s of
        [] \<Rightarrow> (0, s)
      | c # r \<Rightarrow> if c = LF then pushCount 1 s
          else if c = CR \<and> r \<noteq> [] \<and> hd r = LF then pushCount 2 s else (0, s))"
proof (cases "ahead s")
  case (Cons c r)
  then show ?thesis by (cases r) (simp_all add: pushNewline_def charAt_0 charAt_1)
qed (simp add: pushNewline_def charAt_0)

lemma advance_flowLevel: "advance s w s' \<Longrightarrow> lx_flowLevel s' = lx_flowLevel s"
  by (simp add: advance_def)

lemma pushNewline_cases:
  "(\<exists>r. ahead s = LF # r \<and> pushNewline s = pushCount 1 s) \<or>
   (\<exists>r. ahead s = CR # LF # r \<and> pushNewline s = pushCount 2 s) \<or> pushNewline s = (0, s)"
  by (cases "ahead s"; cases "tl (ahead s)") (auto simp: pushNewline_ahead)

lemma pushNewline_valid:
  assumes "valid s"
  shows "valid (snd (pushNewline s)) \<and> lx_flowLevel (snd (pushNewline s)) = lx_flowLevel s"
proof -
  consider r where "ahead s = LF # r" "pushNewline s = pushCount 1 s"
    | r where "ahead s = CR # LF # r" "pushNewline s = pushCount 2 s"
    | "pushNewline s = (0, s)"
    using pushNewline_cases [of s] by blast
  then show ?thesis
  proof cases
    case (1 r)
    then have "advance s [LF] (snd (pushCount 1 s))"
      using advance_pushCount [of 1 s] by (simp add: left_ahead ahead_def [symmetric])
    from advance_one [OF this _ _ assms] advance_flowLevel [OF this] 1 show ?thesis by simp
  next
    case (2 r)
    then have "advance s [CR, LF] (snd (pushCount 2 s))"
      using advance_pushCount [of 2 s] by (simp add: left_ahead ahead_def [symmetric])
    from advance_one [OF this _ _ assms] advance_flowLevel [OF this] 2 show ?thesis by simp
  qed (simp add: assms)
qed

lemma pushNewline_consumes_line:
  "line_rest [] (ahead s) \<Longrightarrow> ahead s = [] \<or> left (snd (pushNewline s)) < left s"
  by (auto simp: line_rest_def pushNewline_ahead intro!: left_pushCount_less) (simp_all add: left_ahead)

section \<open>Outcomes of the states\<close>

text \<open>What a state function may return from a position with \<open>k\<close> characters left: a valid lexer
  in the stream, in a document at flow level 0 or in a flow collection at a positive one; a return
  to the stream has consumed something.\<close>

definition outcome :: "nat \<Rightarrow> lex_state option \<times> lexer \<Rightarrow> bool" where
  "outcome k p \<longleftrightarrow>
     valid (snd p) \<and> left (snd p) \<le> k \<and>
     (fst p = Some L_flow \<and> 0 < lx_flowLevel (snd p) \<or>
      fst p = Some L_doc \<and> lx_flowLevel (snd p) = 0 \<or>
      fst p = Some L_stream \<and> lx_flowLevel (snd p) = 0 \<and> left (snd p) < k)"

definition consumes :: "nat \<Rightarrow> lex_state option \<times> lexer \<Rightarrow> bool" where
  "consumes k p \<longleftrightarrow> outcome k p \<and> left (snd p) < k"

lemma outcome_consumes: "outcome j p \<Longrightarrow> j < k \<Longrightarrow> consumes k p"
  by (auto simp: outcome_def consumes_def)

lemma outcome_mono: "outcome j p \<Longrightarrow> j \<le> k \<Longrightarrow> outcome k p"
  by (auto simp: outcome_def)

lemma consumes_mono: "consumes j p \<Longrightarrow> j \<le> k \<Longrightarrow> consumes k p"
  by (auto simp: outcome_def consumes_def)

lemma within_left: "within n s s' \<Longrightarrow> int (left s) = n + int (left s')"
  by (auto simp: within_def dest: advance_left)

lemma within_flowLevel: "within n s s' \<Longrightarrow> lx_flowLevel s' = lx_flowLevel s"
  by (auto simp: within_def advance_def)

lemma within_nonneg: "within n s s' \<Longrightarrow> 0 \<le> n"
  by (auto simp: within_def)

lemma outcome_parseBlockStart:
  "valid s \<Longrightarrow> lx_flowLevel s = 0 \<Longrightarrow> left s \<le> k \<Longrightarrow> outcome k (parseBlockStart s)"
proof (induction s rule: parseBlockStart.induct)
  case (1 s)
  have e: "lx_atEnd s" using 1(2) by (simp add: valid_def)
  have stay: "outcome k (Some L_doc, s)" using 1(2-4) by (simp add: outcome_def)
  show ?case
  proof (cases "\<exists>c. charAt 0 s = Some c \<and> (c = 45 \<or> c = 63 \<or> c = 58) \<and> isEmpty (charAt 1 s)")
    case True
    then obtain c where c: "charAt 0 s = Some c" "c = 45 \<or> c = 63 \<or> c = 58" "isEmpty (charAt 1 s)" by blast
    obtain n s1 where p: "then_spaces (pushCount 1 s) = (n, s1)" by fastforce
    have w: "within n s s1"
      using within_then_spaces [OF within_pushCount_1 [OF c(1)]] c(2) p by auto
    have "outcome k (parseBlockStart (s1\<lparr>lx_indentNext := lx_indentValue s1 + 1, lx_indentValue := lx_indentValue s1 + n\<rparr>))"
      using c p e valid_within [OF 1(2) w] within_flowLevel [OF w] within_left [OF w] within_nonneg [OF w] 1(3,4)
      by (intro 1(1) [OF _ c(1) _ p [symmetric] refl]) (simp_all add: left_def)
    then show ?thesis using c e p by (subst parseBlockStart.simps) simp
  next
    case False
    then show ?thesis using e stay by (subst parseBlockStart.simps) (auto split: option.split)
  qed
qed

lemma outcome_parseLineStart:
  assumes "valid s" and "lx_flowLevel s = 0"
  shows "outcome (left s) (parseLineStart s)"
proof -
  have e: "lx_atEnd s" using assms(1) by (simp add: valid_def)
  let ?marker = "(charAt 0 s = Some 45 \<or> charAt 0 s = Some 46) \<and>
      (peek 3 s = [45, 45, 45] \<or> peek 3 s = [46, 46, 46]) \<and> isEmpty (charAt 3 s)"
  show ?thesis
  proof (cases ?marker)
    case True
    let ?s1 = "snd (pushCount 3 s)"
    have p: "take 3 (ahead s) = [45, 45, 45] \<or> take 3 (ahead s) = [46, 46, 46]"
      using True by (simp add: peek_def ahead_def)
    then have len: "3 \<le> left s" unfolding left_ahead by (metis length_take length_Cons list.size(3) min.cobounded1 numeral_3_eq_3)
    have a: "advance s (take 3 (ahead s)) ?s1"
      using advance_pushCount [of 3 s] len by (simp add: ahead_def)
    have "valid ?s1" using p by (intro advance_one [OF a _ _ assms(1)]) auto
    moreover have "left ?s1 < left s" using advance_left [OF a] p by auto
    ultimately show ?thesis
      using True e advance_flowLevel [OF a] assms(2)
      by (auto simp: parseLineStart_def Let_def outcome_def left_def)
  next
    case False
    obtain n s1 where p: "pushSpaces False s = (n, s1)" by fastforce
    have w: "within n s s1" using within_pushSpaces [of False s] p by simp
    let ?s2 = "s1\<lparr>lx_indentValue := n\<rparr>"
    let ?s3 = "if lx_indentNext ?s2 > lx_indentValue ?s2 \<and> \<not> isEmpty (charAt 1 ?s2)
                then ?s2\<lparr>lx_indentNext := lx_indentValue ?s2\<rparr> else ?s2"
    have eq: "parseLineStart s = parseBlockStart ?s3"
      using False e by (auto simp: parseLineStart_def Let_def p)
    have "left ?s3 = left s1" "lx_flowLevel ?s3 = lx_flowLevel s1" "valid ?s3 = valid s1"
      by (simp_all add: left_def)
    then show ?thesis
      unfolding eq using valid_within [OF assms(1) w] within_flowLevel [OF w] within_left [OF w]
        within_nonneg [OF w] assms(2)
      by (intro outcome_parseBlockStart) simp_all
  qed
qed

section \<open>Scalars\<close>

text \<open>An index behind which a scalar may end.\<close>

definition tail_ok :: "ustr \<Rightarrow> int \<Rightarrow> bool" where
  "tail_ok b t \<longleftrightarrow> (\<exists>c. at b t = Some c \<and> (c = CR \<longrightarrow> at b (t + 1) \<noteq> Some LF))"

lemma pushToIndex_tail:
  assumes v: "valid s" and t: "int (lx_pos s) \<le> t + 1" and ok: "t = int (lx_pos s) - 1 \<or> tail_ok (lx_buffer s) t"
  shows "valid (snd (pushToIndex (t + 1) a s)) \<and>
    int (left s) = int (left (snd (pushToIndex (t + 1) a s))) + (t + 1 - int (lx_pos s)) \<and>
    lx_flowLevel (snd (pushToIndex (t + 1) a s)) = lx_flowLevel s"
proof -
  let ?s' = "snd (pushToIndex (t + 1) a s)"
  let ?w = "take (nat (t + 1) - lx_pos s) (drop (lx_pos s) (lx_buffer s))"
  have a: "advance s ?w ?s'" using advance_pushToIndex [OF t] by simp
  have fit: "nat (t + 1) - lx_pos s \<le> left s"
    using ok t by (auto simp: tail_ok_def left_def dest!: at_Some)
  then have len: "length ?w = nat (t + 1) - lx_pos s" by (simp add: left_def)
  then have pos: "int (lx_pos ?s') = t + 1" using a t by (simp add: advance_def)
  have "unsplit (lx_buffer s) (lx_pos ?s')"
  proof (cases "t = int (lx_pos s) - 1")
    case True
    then have "lx_pos ?s' = lx_pos s" using pos by simp
    then show ?thesis using v by (simp add: valid_def)
  next
    case False
    then show ?thesis using ok unfolding unsplit_def pos tail_ok_def by auto
  qed
  with advance_valid [OF v a] advance_left [OF a] advance_flowLevel [OF a] len t show ?thesis by simp
qed

definition stretches :: "ustr \<Rightarrow> int \<Rightarrow> int \<Rightarrow> bool" where
  "stretches b t t' \<longleftrightarrow> t \<le> t' \<and> (t' = t \<or> tail_ok b t')"

lemma stretches_trans: "stretches b t t' \<Longrightarrow> stretches b t' t'' \<Longrightarrow> stretches b t t''"
  by (auto simp: stretches_def)

lemma plain_step_stretches:
  assumes "t < n"
  shows "plain_step s n t = Inl (t', d) \<Longrightarrow> stretches (lx_buffer s) t t'"
    and "plain_step s n t = Inr (n', t') \<Longrightarrow> stretches (lx_buffer s) t t' \<and> t' < n'"
proof -
  let ?b = "lx_buffer s"
  have here: "stretches ?b t n" if "at ?b n = Some r" "r = CR \<longrightarrow> at ?b (n + 1) \<noteq> Some LF" for r
    using assms that by (auto simp: stretches_def tail_ok_def)
  have same: "stretches ?b t t" by (simp add: stretches_def)
  show "plain_step s n t = Inl (t', d) \<Longrightarrow> stretches ?b t t'"
    using here same by (auto simp: plain_step_def Let_def split: option.splits if_splits)
  assume p: "plain_step s n t = Inr (n', t')"
  have "t' < n'" using assms p by (auto simp: plain_step_def Let_def split: option.splits if_splits)
  moreover have "stretches ?b t t'"
    using p here same by (auto simp: plain_step_def Let_def isEmpty_def split: option.splits if_splits)
  ultimately show "stretches ?b t t' \<and> t' < n'" by simp
qed

lemma plain_scan_stretches:
  "t < n \<Longrightarrow> stretches (lx_buffer s) t (fst (plain_scan s n t))"
proof (induction s n t rule: plain_scan.induct)
  case (1 s n t)
  show ?case
  proof (cases "plain_step s n t")
    case (Inl r)
    then show ?thesis using plain_step_stretches(1) [OF 1(2)] by (cases r) (simp add: plain_scan.simps [of s n t])
  next
    case (Inr q)
    obtain n' t' where q: "q = (n', t')" by fastforce
    have "stretches (lx_buffer s) t t' \<and> t' < n'"
      using plain_step_stretches(2) [OF 1(2)] Inr q by simp
    then show ?thesis
      using 1(1) [OF Inr q [symmetric]] Inr q by (auto simp: plain_scan.simps [of s n t] intro: stretches_trans)
  qed
qed

lemma parsePlainScalar_eq:
  assumes "valid s"
  shows "parsePlainScalar s =
    (Some (if lx_flowLevel s > 0 then L_flow else L_doc),
     snd (pushToIndex (fst (plain_scan s (int (lx_pos s)) (int (lx_pos s) - 1)) + 1) True (yield (Mark 31) s)))"
  using assms by (simp add: parsePlainScalar_def valid_def split_beta Let_def)

lemma parsePlainScalar_outcome:
  assumes v: "valid s" and "0 \<le> lx_flowLevel s"
    and t: "t = fst (plain_scan s (int (lx_pos s)) (int (lx_pos s) - 1))"
  shows "outcome (left s) (parsePlainScalar s) \<and>
    int (left s) = int (left (snd (parsePlainScalar s))) + (t + 1 - int (lx_pos s))"
proof -
  let ?s = "yield (Mark 31) s"
  have y: "lx_pos ?s = lx_pos s" "lx_buffer ?s = lx_buffer s" "lx_flowLevel ?s = lx_flowLevel s"
    "left ?s = left s" "valid ?s" using v by (simp_all add: left_def) (simp_all add: yield_def)
  have st: "stretches (lx_buffer s) (int (lx_pos s) - 1) t"
    unfolding t by (rule plain_scan_stretches) simp
  from pushToIndex_tail [of ?s t True] st y
  have "valid (snd (pushToIndex (t + 1) True ?s))" "lx_flowLevel (snd (pushToIndex (t + 1) True ?s)) = lx_flowLevel s"
    "int (left s) = int (left (snd (pushToIndex (t + 1) True ?s))) + (t + 1 - int (lx_pos s))"
    by (auto simp: stretches_def)
  then show ?thesis
    unfolding parsePlainScalar_eq [OF v] t [symmetric] using assms(2) st by (auto simp: outcome_def stretches_def)
qed

text \<open>A plain scalar is not empty when its first character may start one.\<close>

definition starts_plain :: "lexer \<Rightarrow> bool" where
  "starts_plain s \<longleftrightarrow>
     (\<exists>c. charAt 0 s = Some c \<and> \<not> blank c \<and> c \<noteq> LF \<and> (c = CR \<longrightarrow> charAt 1 s \<noteq> Some LF) \<and>
        \<not> (c = 58 \<and> (isEmpty (charAt 1 s) \<or> 0 < lx_flowLevel s \<and> flowIndicator (charAt 1 s))) \<and>
        \<not> (0 < lx_flowLevel s \<and> flowIndicator (Some c)))"

lemma plain_scan_first:
  assumes "starts_plain s"
  shows "int (lx_pos s) \<le> fst (plain_scan s (int (lx_pos s)) (int (lx_pos s) - 1))"
proof -
  let ?p = "int (lx_pos s)"
  obtain c where c: "charAt 0 s = Some c" "\<not> blank c" "c \<noteq> LF" "c = CR \<longrightarrow> charAt 1 s \<noteq> Some LF"
    "\<not> (c = 58 \<and> (isEmpty (charAt 1 s) \<or> 0 < lx_flowLevel s \<and> flowIndicator (charAt 1 s)))"
    "\<not> (0 < lx_flowLevel s \<and> flowIndicator (Some c))"
    using assms by (auto simp: starts_plain_def)
  have at: "at (lx_buffer s) ?p = Some c" "charAt 1 s = at (lx_buffer s) (?p + 1)"
    using c(1) by (simp_all add: charAt_def algebra_simps)
  have "(\<exists>d. plain_step s ?p (?p - 1) = Inl (?p, d)) \<or> (\<exists>n. plain_step s ?p (?p - 1) = Inr (n, ?p) \<and> ?p < n)"
    using c(2-6) unfolding at(2) by (auto simp: plain_step_def at(1) Let_def isEmpty_def blank_def)
  then show ?thesis
  proof (elim disjE exE conjE)
    fix d
    assume "plain_step s ?p (?p - 1) = Inl (?p, d)"
    then show ?thesis by (simp add: plain_scan.simps [of s ?p])
  next
    fix n
    assume "plain_step s ?p (?p - 1) = Inr (n, ?p)" "?p < n"
    then show ?thesis
      using plain_scan_stretches [of ?p n s] by (simp add: plain_scan.simps [of s ?p "?p - 1"] stretches_def)
  qed
qed

lemma parsePlainScalar_consumes:
  assumes "valid s" and "0 \<le> lx_flowLevel s" and "starts_plain s"
  shows "consumes (left s) (parsePlainScalar s)"
  using parsePlainScalar_outcome [OF assms(1,2) refl] plain_scan_first [OF assms(3)]
  by (simp add: consumes_def)

text \<open>Indexes of line feeds.\<close>

lemma indexOf_at: "0 \<le> q \<Longrightarrow> indexOf b c q = r \<Longrightarrow> r \<noteq> - 1 \<Longrightarrow> at b r = Some c \<and> q \<le> r"
proof -
  assume q: "0 \<le> q" and r: "indexOf b c q = r" "r \<noteq> - 1"
  let ?d = "drop (nat q) b"
  have eq: "r = (if c \<in> set ?d then int (nat q + length (takeWhile (\<lambda>x. x \<noteq> c) ?d)) else - 1)"
    using r(1) q indexOf_nat [of b c "nat q"] by simp
  then have c: "c \<in> set ?d" using r(2) by (auto split: if_splits)
  then obtain w z where w: "?d = w @ c # z" "c \<notin> set w" by (meson split_list_first)
  then have "r = int (nat q + length w)" using indexOf_first [OF w] r(1) q by simp
  moreover have "b ! (nat q + length w) = c" "nat q + length w < length b"
    using w(1) by (metis le_cases drop_all append_is_Nil_conv list.distinct(1) nth_append_length nth_drop)
      (metis w(1) append_is_Nil_conv drop_eq_Nil length_append length_drop less_add_same_cancel1 less_diff_conv add.commute list.distinct(1) length_greater_0_conv)
  ultimately show "at b r = Some c \<and> q \<le> r" using q by (simp add: at_def del: of_nat_add)
qed

lemma scalar_lines_lf:
  "at b e = Some LF \<or> e = - 1 \<or> e = k \<Longrightarrow> - 1 \<le> e \<Longrightarrow> r = scalar_lines b s e \<Longrightarrow>
     r = - 1 \<or> e \<le> r \<and> (r = k \<or> at b r = Some LF)"
proof (induction b s e rule: scalar_lines.induct)
  case (1 b s e)
  show ?case
  proof (cases "line_step b s e")
    case None
    then show ?thesis using 1(2,4) by (auto simp: scalar_lines.simps [of b s e])
  next
    case (Some e')
    show ?thesis
    proof (cases "e' = - 1")
      case True
      then show ?thesis using 1(4) Some by (simp add: scalar_lines.simps [of b s e])
    next
      case False
      have "0 \<le> e + 1" using 1(3) by simp
      then have at: "at b e' = Some LF" "e < e'"
        using Some False line_step_inc [OF Some False] continueScalar_ge [of "e + 1" s] indexOf_at [of "continueScalar (e + 1) s" b LF]
        by (auto simp: line_step_def Let_def split: if_splits)
      have "r = scalar_lines b s e'" using 1(4) Some False by (simp add: scalar_lines.simps [of b s e])
      from 1(1) [OF Some False _ _ this] at 1(3) show ?thesis by auto
    qed
  qed
qed

lemma quote_step_at:
  "quote_step single b t = Some t' \<Longrightarrow> 0 \<le> t \<Longrightarrow>
     t' = - 1 \<or> at b t' = Some (if single then 39 else 34) \<and> t < t'"
  using indexOf_at [of "t + 2" b 39] indexOf_at [of "t + 1" b 34]
  by (auto simp: quote_step_def sq_step_def dq_step_def split: if_splits)

lemma quote_end_minus: "quote_end single b (- 1) = - 1"
  by (subst quote_end.simps) (simp add: quote_step_def sq_step_def dq_step_def)

lemma quote_end_at:
  "0 \<le> t \<Longrightarrow> at b t = Some (if single then 39 else 34) \<Longrightarrow> r = quote_end single b t \<Longrightarrow>
     r = - 1 \<or> t \<le> r \<and> at b r = Some (if single then 39 else 34)"
proof (induction single b t rule: quote_end.induct)
  case (1 single b t)
  show ?case
  proof (cases "quote_step single b t")
    case None
    then show ?thesis using 1(2-4) by (auto simp: quote_end.simps [of single b t])
  next
    case (Some t')
    from Some 1(4) have r: "r = quote_end single b t'" by (simp add: quote_end.simps [of single b t])
    show ?thesis
    proof (cases "t' = - 1")
      case True
      then show ?thesis using r quote_end_minus by simp
    next
      case False
      with quote_step_at [OF Some 1(2)] 1(1) [OF Some _ _ r] 1(2) show ?thesis by auto
    qed
  qed
qed

lemma at_substring: "at (substring b 0 t) i = Some c \<Longrightarrow> at b i = Some c \<and> i < t"
  by (auto simp: at_def substring_def split: if_splits)

lemma at_inj: "at b i = Some c \<Longrightarrow> at b i = Some d \<Longrightarrow> c = d"
  by simp

text \<open>Where a quoted scalar ends: at its quote, before a line end, or with the buffer.\<close>

lemma quoted_end:
  assumes q: "charAt 0 s = Some q" "q = 34 \<or> q = 39" and p: "p = int (lx_pos s)" and b: "b = lx_buffer s"
    and t: "t = quote_end (q = 39) b (indexOf b q (p + 1))"
    and r: "r = (if indexOf (substring b 0 t) LF p = - 1 then - 1 else scalar_lines (substring b 0 t) s (indexOf (substring b 0 t) LF p))"
  shows "(t = - 1 \<or> p < t \<and> at b t = Some q) \<and>
    (r = - 1 \<or> p < r \<and> r < t \<and> at b r = Some LF \<and> (at (substring b 0 t) (r - 1) = Some CR \<longrightarrow> p < r - 1) \<and>
       (at (substring b 0 t) (r - 1) = Some CR \<longleftrightarrow> at b (r - 1) = Some CR))"
proof
  have p0: "0 \<le> p" using p by simp
  have qq: "(if q = 39 then 39 else 34) = q" using q(2) by auto
  show "t = - 1 \<or> p < t \<and> at b t = Some q"
  proof (cases "indexOf b q (p + 1) = - 1")
    case True
    then show ?thesis using t quote_end_minus by simp
  next
    case False
    then have "at b (indexOf b q (p + 1)) = Some q" "p + 1 \<le> indexOf b q (p + 1)"
      using indexOf_at [OF _ refl, of "p + 1" b q] p0 by simp_all
    with quote_end_at [of "indexOf b q (p + 1)" b "q = 39", OF _ _ t, unfolded qq] p0 show ?thesis by linarith
  qed
  let ?n = "substring b 0 t"
  have at_p: "at b p = Some q" using q(1) by (simp add: charAt_def p b)
  show "r = - 1 \<or> p < r \<and> r < t \<and> at b r = Some LF \<and> (at ?n (r - 1) = Some CR \<longrightarrow> p < r - 1) \<and>
       (at ?n (r - 1) = Some CR \<longleftrightarrow> at b (r - 1) = Some CR)"
  proof (cases "r = - 1")
    case False
    define e where "e = indexOf ?n LF p"
    have e: "e \<noteq> - 1" "r = scalar_lines ?n s e" using False r by (auto simp: e_def split: if_splits)
    have lf: "at ?n e = Some LF" "p \<le> e" using indexOf_at [OF p0 e_def [symmetric] e(1)] by simp_all
    have "e \<le> r \<and> (r = e \<or> at ?n r = Some LF)"
      using scalar_lines_lf [OF _ _ e(2), of e] lf p0 False by linarith
    then have "e \<le> r" "at ?n r = Some LF" using lf(1) by auto
    then have at_r: "at b r = Some LF" "r < t" "p \<le> r" using at_substring [of b t r LF] lf(2) by linarith+
    moreover have "p \<noteq> r" using at_r(1) at_p q(2) by auto
    moreover have "p \<noteq> r - 1" if "at b (r - 1) = Some CR" using that at_p q(2) by auto
    moreover have "at ?n (r - 1) = at b (r - 1)"
      using at_r p0 \<open>p \<noteq> r\<close> at_Some [OF at_r(1)] by (auto simp: at_def substring_def)
    ultimately show ?thesis by auto
  qed simp
qed

lemma pushToIndex_end:
  assumes v: "valid s" and t: "int (length (lx_buffer s)) \<le> t"
  shows "valid (snd (pushToIndex t a s)) \<and> left (snd (pushToIndex t a s)) = 0 \<and>
    lx_flowLevel (snd (pushToIndex t a s)) = lx_flowLevel s"
proof (cases "int (lx_pos s) \<le> t")
  case True
  let ?s' = "snd (pushToIndex t a s)"
  have w: "take (nat t - lx_pos s) (drop (lx_pos s) (lx_buffer s)) = ahead s"
    using t by (simp add: ahead_def)
  have a: "advance s (ahead s) ?s'" using advance_pushToIndex [OF True, of a] w by simp
  have empty: "ahead ?s' = []" using ahead_advance [OF a] by simp
  have "at (lx_buffer s) (int (lx_pos ?s')) = charAt 0 ?s'" by (rule at_here) (use a in \<open>simp add: advance_def\<close>)
  then have "unsplit (lx_buffer s) (lx_pos ?s')" using empty by (simp add: unsplit_def charAt_0)
  with advance_valid [OF v a] advance_flowLevel [OF a] empty show ?thesis by (simp add: left_ahead)
next
  case False
  then have none: "drop (lx_pos s) (lx_buffer s) = []" using t by simp
  then have "js_slice (lx_buffer s) (lx_pos s) t = []" by (simp add: js_slice_def)
  then have eq: "snd (pushToIndex t a s) = (if a then yield (Text []) s else s)"
    by (simp add: pushToIndex_def)
  have "left (yield (Text []) s) = left s" "lx_flowLevel (yield (Text []) s) = lx_flowLevel s" "left s = 0"
    using none by (simp_all add: left_def yield_def)
  then show ?thesis unfolding eq using v by simp
qed

lemma parseQuotedScalar_consumes:
  assumes v: "valid s" and q: "charAt 0 s = Some q" "q = 34 \<or> q = 39" and l: "0 \<le> lx_flowLevel s"
  shows "consumes (left s) (parseQuotedScalar s)"
proof -
  define b p where "b = lx_buffer s" and "p = int (lx_pos s)"
  define t where "t = quote_end (q = 39) b (indexOf b q (p + 1))"
  define r where "r = (if indexOf (substring b 0 t) LF p = - 1 then - 1
    else scalar_lines (substring b 0 t) s (indexOf (substring b 0 t) LF p))"
  define t1 where "t1 = (if r \<noteq> - 1 then r - (if at (substring b 0 t) (r - 1) = Some CR then 2 else 1) else t)"
  have pos: "0 < left s" using charAt_left [OF q(1)] .
  have st: "consumes (left s) (Some (if lx_flowLevel s \<noteq> 0 then L_flow else L_doc), s')"
    if "valid s'" "left s' < left s" "lx_flowLevel s' = lx_flowLevel s" for s'
    using that l by (auto simp: consumes_def outcome_def)
  have eq: "parseQuotedScalar s =
      (Some (if lx_flowLevel s \<noteq> 0 then L_flow else L_doc),
       snd (pushToIndex ((if t1 = - 1 then int (length b) else t1) + 1) False s))"
    using v unfolding parseQuotedScalar_def t1_def r_def t_def b_def p_def
    by (simp add: q(1) valid_def Let_def)
  have tr: "t = - 1 \<or> p < t \<and> at b t = Some q"
    "r = - 1 \<or> p < r \<and> at b r = Some LF \<and> (at (substring b 0 t) (r - 1) = Some CR \<longrightarrow> p < r - 1) \<and>
       (at (substring b 0 t) (r - 1) = Some CR \<longleftrightarrow> at b (r - 1) = Some CR)"
    using quoted_end [OF q p_def b_def t_def r_def] by blast+
  have ok: "tail_ok b t1 \<and> p \<le> t1" if "t1 \<noteq> - 1"
  proof (cases "r = - 1")
    case True
    then show ?thesis using tr(1) that q(2) by (auto simp: t1_def tail_ok_def)
  next
    case False
    have inside: "\<exists>c. at b i = Some c" if "p \<le> i" "i < r" for i
      using that tr(2) False at_Some [of b r LF] by (auto simp: at_def p_def)
    show ?thesis
    proof (cases "at b (r - 1) = Some CR")
      case True
      then have "t1 = r - 2" "p \<le> r - 2" using False tr(2) by (auto simp: t1_def)
      with inside [of "r - 2"] True show ?thesis by (auto simp: tail_ok_def)
    next
      case ncr: False
      then have "t1 = r - 1" "p \<le> r - 1" using False tr(2) by (auto simp: t1_def)
      with inside [of "r - 1"] ncr show ?thesis by (auto simp: tail_ok_def)
    qed
  qed
  show ?thesis
  proof (cases "t1 = - 1")
    case True
    then show ?thesis unfolding eq using pushToIndex_end [OF v, of "int (length b) + 1" False] pos
      by (intro st) (simp_all add: b_def)
  next
    case False
    then show ?thesis unfolding eq using pushToIndex_tail [OF v, of t1 False] ok [OF False]
      by (intro st) (auto simp: b_def p_def)
  qed
qed

lemma indent_scan_lf:
  "indent_scan a cs r e t = Some (e', t', d) \<Longrightarrow> 0 \<le> r \<Longrightarrow> cs = drop (nat r) b \<Longrightarrow>
     e' = e \<or> r \<le> e' \<and> at b e' = Some LF"
proof (induction cs arbitrary: r e t)
  case (Cons c cs)
  have next_cs: "cs = drop (nat (r + 1)) b"
    using Cons.prems(2,3) by (simp add: nat_add_distrib drop_Suc) (metis Cons.prems(3) list.sel(3) tl_drop)
  have c: "at b r = Some c"
  proof -
    have "nat r < length b" using Cons.prems(3) by (metis drop_all list.distinct(1) not_le_imp_less)
    moreover have "b ! nat r = c" using Cons.prems(3) calculation by (metis Cons_nth_drop_Suc list.inject)
    ultimately show ?thesis using Cons.prems(2) by (simp add: at_def)
  qed
  have IH: "indent_scan a cs (r + 1) i j = Some (e', t', d) \<Longrightarrow> e' = i \<or> r + 1 \<le> e' \<and> at b e' = Some LF" for i j
    using Cons.IH [of "r + 1" i j] Cons.prems(2) next_cs by simp
  from Cons.prems(1) c show ?case
    by (auto split: if_splits dest!: IH)
qed simp

lemma trim_lines_lf:
  "r = trim_lines b p t e \<Longrightarrow> r = e \<or> int p \<le> r \<and> at b r = Some LF"
proof (induction b p t e rule: trim_lines.induct)
  case (1 b p t e)
  show ?case
  proof (cases "trim_step b p t e")
    case None
    then show ?thesis using 1(2) by (simp add: trim_lines.simps [of b p t e])
  next
    case (Some n)
    then have n: "int p \<le> n" "at b n = Some LF" by (auto simp: trim_step_def Let_def split: if_splits)
    have "r = trim_lines b p t n" using 1(2) Some by (simp add: trim_lines.simps [of b p t e])
    with 1(1) [OF Some this] n show ?thesis by auto
  qed
qed

text \<open>Trailing white space of a block scalar.\<close>

lemma white_run:
  assumes e: "0 \<le> e + 1" and a: "after = dropWhile (\<lambda>c. c = 32) (drop (nat (e + 1)) b)"
    and tab: "after \<noteq> []" "hd after = 9"
    and r: "r = int (length b) - int (length (dropWhile (\<lambda>c. c = 9 \<or> c = 32 \<or> c = CR \<or> c = LF) after)) - 1"
  shows "e + 1 \<le> r \<and> tail_ok b r"
proof -
  define z where "z = dropWhile (\<lambda>c. c = 9 \<or> c = 32 \<or> c = CR \<or> c = LF) after"
  have la: "length after \<le> length b - nat (e + 1)"
    unfolding a by (metis length_dropWhile_le length_drop)
  obtain rest where after: "after = 9 # rest" using tab by (cases after) auto
  then have zr: "z = dropWhile (\<lambda>c. c = 9 \<or> c = 32 \<or> c = CR \<or> c = LF) rest" by (simp add: z_def)
  then have lz: "length z \<le> length rest" by (simp add: length_dropWhile_le)
  have r': "r = int (length b - length z) - 1"
    using r lz la after unfolding z_def [symmetric] by (simp add: of_nat_diff)
  have "b = take (nat (e + 1)) b @ takeWhile (\<lambda>c. c = 32) (drop (nat (e + 1)) b) @ after"
    by (simp add: a)
  moreover have "after = takeWhile (\<lambda>c. c = 9 \<or> c = 32 \<or> c = CR \<or> c = LF) after @ z"
    by (simp add: z_def)
  ultimately obtain x where x: "b = x @ z" by (metis append.assoc)
  then have len: "r = int (length x) - 1" using r' by simp
  have "e + 1 \<le> r" using la lz after e r r' by (simp add: of_nat_diff)
  moreover have "\<exists>c. at b r = Some c" using len calculation e x by (auto simp: at_def)
  moreover have "at b (r + 1) \<noteq> Some LF"
  proof (cases z)
    case Nil
    then show ?thesis using len x by (simp add: at_def)
  next
    case (Cons c y)
    then have "c \<noteq> LF" using hd_dropWhile [of "\<lambda>c. c = 9 \<or> c = 32 \<or> c = CR \<or> c = LF" after] by (auto simp: z_def)
    then show ?thesis using len x Cons by (simp add: at_def)
  qed
  ultimately show ?thesis by (auto simp: tail_ok_def)
qed

lemma tail_ok_lf: "at b r = Some LF \<Longrightarrow> tail_ok b r"
  by (simp add: tail_ok_def)

lemma scalar_end_ok:
  assumes "e = int (length (lx_buffer s)) \<or> e = int (lx_pos s) - 1 \<or> int (lx_pos s) \<le> e \<and> at (lx_buffer s) e = Some LF"
    and "lx_pos s \<le> length (lx_buffer s)" and r: "r = scalar_end s t e"
  shows "r = int (length (lx_buffer s)) \<or> r = int (lx_pos s) - 1 \<or> int (lx_pos s) \<le> r \<and> tail_ok (lx_buffer s) r"
proof -
  let ?b = "lx_buffer s" and ?after = "dropWhile (\<lambda>c. c = 32) (drop (nat (e + 1)) (lx_buffer s))"
  have e: "int (lx_pos s) \<le> e + 1" using assms(1,2) by auto
  consider "r = e" | "int (lx_pos s) \<le> r" "at ?b r = Some LF" | "e + 1 \<le> r" "tail_ok ?b r"
  proof (cases "?after \<noteq> [] \<and> hd ?after = 9")
    case True
    then have "e + 1 \<le> r \<and> tail_ok ?b r"
      using e r by (intro white_run [OF _ refl]) (auto simp: scalar_end_def Let_def)
    then show thesis using that by blast
  next
    case False
    then have "r = e \<or> r = trim_lines ?b (lx_pos s) t e" using r by (auto simp: scalar_end_def Let_def)
    then show thesis using that trim_lines_lf [of r ?b "lx_pos s" t e] by blast
  qed
  then show ?thesis using assms(1) e by cases (auto intro: tail_ok_lf)
qed

lemma parseBlockScalar_outcome:
  assumes v: "valid s" and p: "0 < lx_pos s" "lx_pos s \<le> length (lx_buffer s)" and l: "lx_flowLevel s = 0"
  shows "outcome (left s) (parseBlockScalar s)"
proof -
  define b where "b = lx_buffer s"
  have end_s: "lx_atEnd s" using v by (simp add: valid_def)
  obtain e t d where scan: "indent_scan True (drop (lx_pos s) b) (int (lx_pos s)) (int (lx_pos s) - 1) 0 = Some (e, t, d)"
    using indent_scan_atEnd by (metis option.exhaust prod_cases3)
  have e: "e = int (lx_pos s) - 1 \<or> int (lx_pos s) \<le> e \<and> at b e = Some LF"
    using indent_scan_lf [OF scan, of b] by simp
  define s1 where "s1 = (if t \<ge> lx_indentNext s then
      s\<lparr>lx_indentNext := (if lx_blockScalarIndent s = - 1 then t
          else lx_blockScalarIndent s + (if lx_indentNext s = 0 then 1 else lx_indentNext s))\<rparr> else s)"
  have s1: "lx_pos s1 = lx_pos s" "lx_buffer s1 = b" "lx_flowLevel s1 = 0" "left s1 = left s" "valid s1"
    using v l by (simp_all add: s1_def b_def left_def)
  define e1 where "e1 = (if t \<ge> lx_indentNext s then scalar_lines b s1 e else e)"
  define e2 where "e2 = (if e1 = - 1 \<and> t \<ge> lx_indentNext s then int (length b) else e1)"
  define e3 where "e3 = scalar_end s1 t e2"
  let ?y = "yield (Mark 31) s1" and ?s2 = "snd (pushToIndex (e3 + 1) True (yield (Mark 31) s1))"
  have eq: "parseBlockScalar s = parseLineStart ?s2"
    unfolding parseBlockScalar_def e3_def e2_def e1_def s1_def b_def
    by (simp only: Let_def end_s scan [unfolded b_def] option.case prod.case simp_thms if_False)
  have y: "lx_pos ?y = lx_pos s" "lx_buffer ?y = b" "lx_flowLevel ?y = 0" "left ?y = left s" "valid ?y"
    using s1 by (simp_all add: left_def) (simp_all add: yield_def)
  have e1: "e1 = - 1 \<and> t \<ge> lx_indentNext s \<or> e1 = int (lx_pos s) - 1 \<or> int (lx_pos s) \<le> e1 \<and> at b e1 = Some LF"
  proof (cases "t \<ge> lx_indentNext s")
    case True
    then have eq1: "e1 = scalar_lines b s1 e" by (simp add: e1_def)
    have "e1 = - 1 \<or> e \<le> e1 \<and> (e1 = e \<or> at b e1 = Some LF)"
      using e p(1) by (intro scalar_lines_lf [OF _ _ eq1]) auto
    then show ?thesis using True e by auto
  qed (use e in \<open>simp add: e1_def\<close>)
  have "e2 = int (length b) \<or> e2 = int (lx_pos s) - 1 \<or> int (lx_pos s) \<le> e2 \<and> at b e2 = Some LF"
    using e1 unfolding e2_def by auto
  then have e3: "e3 = int (length b) \<or> e3 = int (lx_pos s) - 1 \<or> int (lx_pos s) \<le> e3 \<and> tail_ok b e3"
    using scalar_end_ok [of e2 s1 e3 t] p(2) s1(1,2) e3_def b_def by simp
  have "valid ?s2 \<and> left ?s2 \<le> left s \<and> lx_flowLevel ?s2 = 0"
  proof (cases "e3 = int (length b)")
    case True
    then show ?thesis using pushToIndex_end [OF y(5), of "e3 + 1" True] y by simp
  next
    case False
    then have "e3 = int (lx_pos s) - 1 \<or> int (lx_pos s) \<le> e3 \<and> tail_ok b e3" using e3 by blast
    then show ?thesis using pushToIndex_tail [OF y(5), of e3 True] y by auto
  qed
  then show ?thesis unfolding eq using outcome_parseLineStart [of ?s2] outcome_mono by blast
qed

section \<open>Documents\<close>

lemma pushSpaces_stop: "charAt 0 (snd (pushSpaces True s)) = Some c \<Longrightarrow> \<not> blank c"
proof -
  assume c: "charAt 0 (snd (pushSpaces True s)) = Some c"
  let ?P = "\<lambda>c. c = 32 \<or> True \<and> c = 9" and ?s' = "snd (pushSpaces True s)"
  have pos: "lx_pos ?s' = lx_pos s + length (takeWhile ?P (ahead s))" "lx_buffer ?s' = lx_buffer s"
    by (simp_all add: pushSpaces_def Let_def yield_def ahead_def)
  have "ahead ?s' = drop (lx_pos ?s') (lx_buffer s)" by (simp add: ahead_def pos(2))
  also have "\<dots> = dropWhile ?P (ahead s)" by (simp only: pos(1) drop_ahead dropWhile_eq_drop)
  finally have "ahead ?s' = dropWhile ?P (ahead s)" .
  with c obtain r where "dropWhile ?P (ahead s) = c # r" by (auto simp: charAt_0 split: list.splits)
  then have "\<not> ?P c" using hd_dropWhile [of ?P "ahead s"] by simp
  then show "\<not> blank c" by (simp add: blank_def)
qed

lemma pushIndicators_zero:
  assumes "fst (pushIndicators s) = 0"
  shows "snd (pushIndicators s) = s \<and> pushIndicator s = None"
proof (cases "pushIndicator s")
  case None
  then show ?thesis by (simp add: pushIndicators.simps [of s])
next
  case (Some p)
  obtain n s1 where p: "p = (n, s1)" by fastforce
  have "within n s s1" using within_pushIndicator [OF Some] p by simp
  then have "n > 0" using pushIndicator_left [of s n s1] Some p within_left [of n s s1] by auto
  moreover have "0 \<le> fst (pushIndicators s1)" using within_pushIndicators [of s1] within_nonneg by blast
  ultimately show ?thesis using assms Some p by (simp add: pushIndicators.simps [of s] split_beta)
qed

lemma advance_fit: "advance s w s' \<Longrightarrow> lx_pos s \<le> length (lx_buffer s) \<Longrightarrow> lx_pos s' \<le> length (lx_buffer s')"
proof -
  assume a: "advance s w s'" and p: "lx_pos s \<le> length (lx_buffer s)"
  then have "length (lx_buffer s) - lx_pos s = length w + (length (lx_buffer s) - lx_pos s')"
    unfolding advance_def by (metis length_append length_drop)
  with a p show ?thesis by (auto simp: advance_def)
qed

lemma within_fit: "within n s s' \<Longrightarrow> lx_pos s \<le> length (lx_buffer s) \<Longrightarrow> lx_pos s' \<le> length (lx_buffer s')"
  using advance_fit by (auto simp: within_def)

lemma within_pos: "within n s s' \<Longrightarrow> int (lx_pos s') = int (lx_pos s) + n"
  by (auto simp: within_def advance_def)

text \<open>The character at an index of the line is the character at the position.\<close>

lemma at_line:
  assumes "line = pre @ suf" and "n = int (length pre)"
  shows "at line n = (case suf of [] \<Rightarrow> None | c # _ \<Rightarrow> Some c)"
  using assms by (auto simp: at_def split: list.split)

lemma charAt_line: "ahead s = suf @ rest \<Longrightarrow> suf = c # w \<Longrightarrow> charAt 0 s = Some c"
  by (simp add: charAt_0)

lemma line_lone_cr:
  assumes "ahead s = suf @ rest" and "line_rest suf rest" and "suf = c # w"
  shows "c \<noteq> LF \<and> (c = CR \<longrightarrow> charAt 1 s \<noteq> Some LF)"
proof (cases w)
  case Nil
  then show ?thesis using assms by (auto simp: line_rest_def charAt_1)
next
  case (Cons d v)
  then show ?thesis using assms by (auto simp: line_rest_def charAt_1)
qed

text \<open>A line of which the first characters may be read as indicators: what is left of it.\<close>

lemma getLine_indicators:
  assumes "valid s"
  obtains line rest s1 n s2 pre suf where "getLine s = (Some line, s1)" "pushIndicators s1 = (n, s2)"
    "within n s1 s2" "left s1 = left s" "line = pre @ suf" "n = int (length pre)" "ahead s2 = suf @ rest"
    "line_rest suf rest" "valid s2" "lx_flowLevel s2 = lx_flowLevel s" "lx_pos s1 = lx_pos s"
    "lx_buffer s1 = lx_buffer s"
proof -
  obtain line rest s1 where g: "getLine s = (Some line, s1)" "ahead s = line @ rest" "line_rest line rest"
    "valid s1" "lx_pos s1 = lx_pos s" "lx_buffer s1 = lx_buffer s" "lx_flowLevel s1 = lx_flowLevel s"
    using getLine_line [OF assms] by blast
  obtain n s2 where i: "pushIndicators s1 = (n, s2)" by fastforce
  have w: "within n s1 s2" using within_pushIndicators [of s1] i by simp
  have "ahead s1 = line @ rest" using g by (simp add: ahead_def)
  from line_within [OF this g(3) w] obtain pre suf where
    "line = pre @ suf" "n = int (length pre)" "ahead s2 = suf @ rest" "line_rest suf rest" .
  moreover have "left s1 = left s" "lx_flowLevel s2 = lx_flowLevel s"
    using g within_flowLevel [OF w] by (simp_all add: left_def)
  ultimately show thesis
    using that [OF g(1) i w] valid_within [OF g(4) w] g(5,6) by blast
qed

lemma consumes_lineStart:
  assumes "valid s" and "lx_flowLevel s = 0" and "left s < k"
  shows "consumes k (parseLineStart s)"
  using outcome_parseLineStart [OF assms(1,2)] assms(3) by (rule outcome_consumes)

lemma consumes_newline:
  assumes "valid s" and "lx_flowLevel s = 0" and "left s \<le> k" and "line_rest [] (ahead s)" and "0 < k"
  shows "consumes k (parseLineStart (snd (pushNewline s)))"
proof (rule consumes_lineStart)
  show "valid (snd (pushNewline s))" "lx_flowLevel (snd (pushNewline s)) = 0"
    using pushNewline_valid [OF assms(1)] assms(2) by simp_all
  show "left (snd (pushNewline s)) < k"
    using pushNewline_consumes_line [OF assms(4)] left_pushNewline [of s] assms(3,5) by (auto simp: left_ahead)
qed

lemma consumes_move:
  assumes "within n s s'" and "0 < n" and "valid s" and "left s \<le> k"
    and "st = Some L_flow \<and> 0 < lx_flowLevel t \<or> st = Some L_doc \<and> lx_flowLevel t = 0"
    and "valid t = valid s'" and "left t = left s'"
  shows "consumes k (st, t)"
  using assms(2-) valid_within [OF assms(3,1)] within_left [OF assms(1)]
  by (auto simp: consumes_def outcome_def)

lemma pushUntil_moves:
  assumes "charAt 0 s = Some c" and "\<not> test (Some c)" and "test (Some CR)" "test (Some LF)"
  shows "within (fst (pushUntil test s)) s (snd (pushUntil test s)) \<and> 0 < fst (pushUntil test s)"
proof -
  have w: "within (fst (pushUntil test s)) s (snd (pushUntil test s))" using assms(3,4) by (rule within_pushUntil)
  obtain r where r: "ahead s = c # r" using assms(1) by (auto simp: charAt_0 split: list.splits)
  have "left (snd (pushUntil test s)) < left s"
    unfolding pushUntil_def using r assms(2) by (intro left_pushToIndex_less) (simp_all add: ahead_def [symmetric] left_ahead)
  with within_left [OF w] show ?thesis using w by simp
qed

lemma pushNewline_advance: "\<exists>w. advance s w (snd (pushNewline s))"
  using pushNewline_cases [of s] advance_pushCount [of 1 s] advance_pushCount [of 2 s] advance_refl [of s]
  by (auto simp: left_ahead intro: exI [of _ "[]"])

lemma left_fields [simp]:
  "left (s\<lparr>lx_flowKey := a\<rparr>) = left s"
  "left (s\<lparr>lx_flowLevel := i\<rparr>) = left s"
  "left (s\<lparr>lx_indentValue := i\<rparr>) = left s"
  "left (yield t s) = left s"
  by (simp_all add: left_def yield_def)

lemma charAt_fields [simp]:
  "charAt n (s\<lparr>lx_flowKey := a\<rparr>) = charAt n s"
  "charAt n (s\<lparr>lx_flowLevel := i\<rparr>) = charAt n s"
  by (simp_all add: charAt_def)

lemma advance_le: "advance s w s' \<Longrightarrow> lx_pos s \<le> lx_pos s' \<and> left s' \<le> left s"
  using advance_left [of s w s'] by (simp add: advance_def)

lemma consumes_header:
  assumes v: "valid s" and l: "lx_flowLevel s = 0" and a: "ahead s = suf @ rest" "line_rest suf rest"
    and c: "suf = c # w" "c = 124 \<or> c = 62" and n: "m = int (length suf)" and k: "left s \<le> k"
  shows "consumes k (let (h, s4) = lex_BlockScalarHeader s; (b, s5) = pushSpaces True s4
     in parseBlockScalar (snd (pushNewline (snd (pushCount (m - (h + b)) s5)))))"
proof -
  obtain h s4 b s5 where p: "lex_BlockScalarHeader s = (h, s4)" "pushSpaces True s4 = (b, s5)" by fastforce
  have c0: "charAt 0 s = Some c" using a(1) c(1) by (simp add: charAt_0)
  have h: "within h s s4 \<and> 0 < h"
  proof -
    obtain i kp where hs: "header_scan (drop (lx_pos s + 1) (lx_buffer s)) (- 1, False) = (i, kp)" by fastforce
    let ?s = "s\<lparr>lx_blockScalarIndent := i, lx_blockScalarKeep := kp\<rparr>"
    have "charAt 0 ?s = Some c" using c0 by (simp add: charAt_def)
    then have "within (fst (pushUntil (\<lambda>c. isEmpty c \<or> c = Some 35) ?s)) ?s (snd (pushUntil (\<lambda>c. isEmpty c \<or> c = Some 35) ?s))
        \<and> 0 < fst (pushUntil (\<lambda>c. isEmpty c \<or> c = Some 35) ?s)"
      using c(2) by (intro pushUntil_moves [of _ c]) (auto simp: isEmpty_def)
    then show ?thesis using p(1) hs by (simp add: lex_BlockScalarHeader_def)
  qed
  have w: "within (h + b) s s5"
    using h within_pushSpaces [of True s4] p(2) within_trans by fastforce
  obtain pre suf' where line: "suf = pre @ suf'" "h + b = int (length pre)" "ahead s5 = suf' @ rest" "line_rest suf' rest"
    using line_within [OF a w] .
  let ?s6 = "snd (pushCount (m - (h + b)) s5)"
  have s6: "ahead ?s6 = rest" "valid ?s6" "lx_flowLevel ?s6 = 0"
    using line_pushCount [OF line(3,4) valid_within [OF v w], of "m - (h + b)"] line(1,2) n within_flowLevel [OF w] l
    by simp_all
  let ?s7 = "snd (pushNewline ?s6)"
  have fit: "lx_pos s < length (lx_buffer s)" using c0 by (auto simp: charAt_def at_def split: if_splits)
  have a6: "advance s5 suf' ?s6"
    using advance_pushCount [of "m - (h + b)" s5] line n by (simp add: left_ahead ahead_def [symmetric])
  obtain w7 where a7: "advance ?s6 w7 ?s7" using pushNewline_advance by blast
  have "lx_pos ?s7 \<le> length (lx_buffer ?s7)"
    using advance_fit [OF a7] advance_fit [OF a6] within_fit [OF w] fit by simp
  moreover have "0 < lx_pos ?s7"
    using advance_le [OF a7] advance_le [OF a6] within_pos [OF w] h within_nonneg [OF within_pushSpaces [of True s4]] p(2)
    by simp
  moreover have "left ?s7 < k"
    using advance_le [OF a7] advance_le [OF a6] within_left [OF w] h within_nonneg [OF within_pushSpaces [of True s4]] p(2) k
    by simp
  moreover have "valid ?s7" "lx_flowLevel ?s7 = 0" using pushNewline_valid [OF s6(2)] s6(3) by simp_all
  ultimately have "consumes k (parseBlockScalar ?s7)"
    using parseBlockScalar_outcome [of ?s7] by (intro outcome_consumes [of "left ?s7"])
  then show ?thesis by (simp add: p)
qed

lemma parseDocument_consumes:
  assumes v: "valid s" and l: "lx_flowLevel s = 0" and pos: "0 < left s"
  shows "consumes (left s) (parseDocument s)"
proof -
  define s1 where "s1 = snd (pushSpaces True s)"
  have w1: "within (fst (pushSpaces True s)) s s1" using within_pushSpaces [of True s] by (simp add: s1_def)
  have v1: "valid s1" "lx_flowLevel s1 = 0" "left s1 \<le> left s"
    using valid_within [OF v w1] within_flowLevel [OF w1] l within_left [OF w1] within_nonneg [OF w1] by auto
  obtain line rest s2 n s3 pre suf where g: "getLine s1 = (Some line, s2)" "pushIndicators s2 = (n, s3)"
    "within n s2 s3" "left s2 = left s1" "line = pre @ suf" "n = int (length pre)" "ahead s3 = suf @ rest"
    "line_rest suf rest" "valid s3" "lx_flowLevel s3 = lx_flowLevel s1" "lx_pos s2 = lx_pos s1"
    "lx_buffer s2 = lx_buffer s1"
    using getLine_indicators [OF v1(1)] .
  have l3: "lx_flowLevel s3 = 0" "left s3 \<le> left s"
    using g(10) v1(2,3) within_left [OF g(3)] within_nonneg [OF g(3)] g(4) by auto
  let ?len = "int (length line)"
  have len: "?len - n = int (length suf)" using g(5,6) by simp
  show ?thesis
  proof (cases suf)
    case Nil
    then have "parseDocument s = parseLineStart (snd (pushNewline s3))"
      using at_line [OF g(5,6)] by (simp add: parseDocument_def s1_def [symmetric] g(1,2))
    then show ?thesis using consumes_newline [OF g(9) l3(1) l3(2)] g(7,8) Nil pos by simp
  next
    case (Cons c w)
    have at: "at line n = Some c" using at_line [OF g(5,6)] Cons by simp
    have c0: "charAt 0 s3 = Some c" using g(7) Cons by (rule charAt_line)
    note lone = line_lone_cr [OF g(7,8) Cons]
    note doc = parseDocument_def s1_def [symmetric] g(1,2) at
    have one: "within 1 s3 (snd (pushCount 1 s3))" if "c \<noteq> CR"
      using within_pushCount_1 [OF c0 that] lone by (simp add: pushCount_def)
    consider (comment) "c = 35" | (flow) "c = 123 \<or> c = 91" | (close) "c = 125 \<or> c = 93" | (star) "c = 42"
      | (quoted) "c = 34 \<or> c = 39" | (block) "c = 124 \<or> c = 62" | (plain) "c \<notin> {35, 123, 91, 125, 93, 42, 34, 39, 124, 62}"
      by blast
    then show ?thesis
    proof cases
      case comment
      let ?s4 = "snd (pushCount (?len - n) s3)"
      have s4: "ahead ?s4 = rest" "valid ?s4" "lx_flowLevel ?s4 = 0"
        using line_pushCount [OF g(7,8,9) len] l3(1) by simp_all
      have "left ?s4 \<le> left s" using left_pushCount [of "?len - n" s3] l3(2) by simp
      moreover have "line_rest [] (ahead ?s4)" using s4(1) g(8) by (auto simp: line_rest_def)
      ultimately have "consumes (left s) (parseLineStart (snd (pushNewline ?s4)))"
        using consumes_newline [OF s4(2,3)] pos by simp
      then show ?thesis using comment by (simp add: doc)
    next
      case flow
      then show ?thesis using l3 by (auto simp: doc intro!: consumes_move [OF one _ g(9) l3(2)])
    next
      case close
      then show ?thesis using l3 within_flowLevel [OF one]
        by (auto simp: doc intro!: consumes_move [OF one _ g(9) l3(2)])
    next
      case star
      have u: "within (fst (pushUntil isNotAnchorChar s3)) s3 (snd (pushUntil isNotAnchorChar s3)) \<and> 0 < fst (pushUntil isNotAnchorChar s3)"
        using star by (intro pushUntil_moves [OF c0]) (simp_all add: isNotAnchorChar_def)
      show ?thesis using star l3 u within_flowLevel [of _ s3 "snd (pushUntil isNotAnchorChar s3)"]
        by (auto simp: doc intro!: consumes_move [OF _ _ g(9) l3(2)])
    next
      case quoted
      then have "consumes (left s) (parseQuotedScalar s3)"
        using parseQuotedScalar_consumes [OF g(9) c0] l3 consumes_mono by simp
      then show ?thesis using quoted by (auto simp: doc)
    next
      case block
      then show ?thesis
        using consumes_header [OF g(9) l3(1) g(7,8) Cons block len l3(2)]
        by (auto simp: doc algebra_simps split_beta Let_def)
    next
      case plain
      have "consumes (left s) (parsePlainScalar s3)"
      proof (cases "left s3 < left s")
        case True
        then show ?thesis using parsePlainScalar_outcome [OF g(9) _ refl] l3(1)
          by (intro outcome_consumes [of "left s3"]) simp_all
      next
        case False
        then have "fst (pushIndicators s2) = 0" using within_left [OF g(3)] g(2,4) v1(3) l3(2) within_nonneg [OF g(3)] by simp
        from pushIndicators_zero [OF this] have none: "s3 = s2" "pushIndicator s3 = None" using g(2) by simp_all
        then have "charAt 0 s1 = Some c" using c0 g(11,12) by (simp add: charAt_def)
        then have "\<not> blank c" unfolding s1_def by (rule pushSpaces_stop)
        moreover have "\<not> (c = 58 \<and> isEmpty (charAt 1 s3))" using none(2) c0 by (auto simp: pushIndicator_def Let_def)
        ultimately have "starts_plain s3" using c0 lone l3(1) by (simp add: starts_plain_def)
        then show ?thesis using parsePlainScalar_consumes [OF g(9)] l3 consumes_mono by simp
      qed
      then show ?thesis using plain by (simp add: doc)
    qed
  qed
qed

section \<open>Flow collections\<close>

definition at_content :: "lexer \<Rightarrow> bool" where
  "at_content s \<longleftrightarrow>
     (\<forall>c. charAt 0 s = Some c \<longrightarrow> \<not> blank c \<and> c \<noteq> LF \<and> (c = CR \<longrightarrow> charAt 1 s \<noteq> Some LF))"

lemma pushNewline_nonneg: "0 \<le> fst (pushNewline s)"
  by (simp add: pushNewline_def pushCount_def)

lemma pushNewline_zero:
  "fst (pushNewline s) = 0 \<Longrightarrow> pushNewline s = (0, s) \<and> charAt 0 s \<noteq> Some LF \<and> (charAt 0 s = Some CR \<longrightarrow> charAt 1 s \<noteq> Some LF)"
  by (auto simp: pushNewline_def pushCount_def split: if_splits)

lemma pushSpaces_zero: "fst (pushSpaces a s) = 0 \<Longrightarrow> pushSpaces a s = (0, s)"
  by (auto simp: pushSpaces_def Let_def split: if_splits)

lemma flow_round_step:
  assumes v: "valid s" and r: "flow_round ind s = (m, ind', s')"
  shows "valid s' \<and> lx_flowLevel s' = lx_flowLevel s \<and> left s' \<le> left s \<and>
    (ind' = ind \<or> left s' < left s) \<and> (m > 0 \<or> s' = s \<and> at_content s)"
proof -
  obtain e s1 where n: "pushNewline s = (e, s1)" by fastforce
  have v1: "valid s1" "lx_flowLevel s1 = lx_flowLevel s" "left s1 \<le> left s" "0 \<le> e" "left s1 < left s \<or> e = 0"
    using pushNewline_valid [OF v] left_pushNewline [of s] pushNewline_nonneg [of s] pushNewline_consumes [of s] n
    by simp_all
  show ?thesis
  proof (cases "e > 0")
    case True
    obtain k s2 where sp: "pushSpaces False s1 = (k, s2)" by fastforce
    let ?s2 = "s2\<lparr>lx_indentValue := k\<rparr>"
    obtain j s3 where sp3: "pushSpaces True ?s2 = (j, s3)" by fastforce
    have w2: "within k s1 s2" using within_pushSpaces [of False s1] sp by simp
    have w3: "within j ?s2 s3" using within_pushSpaces [of True ?s2] sp3 by simp
    have s': "s' = s3" "ind' = k" "m = e + (k + j)" using r n True sp sp3 by (auto simp: flow_round_def)
    have w: "within (k + j) s1 s3" using within_trans [OF w2] w3 by simp
    show ?thesis
      using s' valid_within [OF v1(1) w] within_flowLevel [OF w] within_left [OF w] within_nonneg [OF w] v1 True
      by auto
  next
    case False
    then have "e = 0" using v1(4) by simp
    with pushNewline_zero [of s] n have nl: "s1 = s" "charAt 0 s \<noteq> Some LF" "charAt 0 s = Some CR \<longrightarrow> charAt 1 s \<noteq> Some LF"
      by auto
    obtain j s3 where sp3: "pushSpaces True s = (j, s3)" by fastforce
    have s': "s' = s3" "ind' = ind" "m = j" using r n \<open>e = 0\<close> nl(1) sp3 by (auto simp: flow_round_def)
    have w3: "within j s s3" using within_pushSpaces [of True s] sp3 by simp
    have "m > 0 \<or> s' = s \<and> at_content s"
    proof (cases "j = 0")
      case True
      then have "s3 = s" using pushSpaces_zero [of True s] sp3 by simp
      moreover have "at_content s"
        using nl(2,3) pushSpaces_stop [of s] sp3 \<open>s3 = s\<close> by (auto simp: at_content_def)
      ultimately show ?thesis using s' by simp
    qed (use s' within_nonneg [OF w3] in auto)
    then show ?thesis
      using s' valid_within [OF v w3] within_flowLevel [OF w3] within_left [OF w3] within_nonneg [OF w3] by auto
  qed
qed

lemma flow_ws_step:
  "valid s \<Longrightarrow>
    valid (snd (flow_ws ind s)) \<and> lx_flowLevel (snd (flow_ws ind s)) = lx_flowLevel s \<and>
    left (snd (flow_ws ind s)) \<le> left s \<and> at_content (snd (flow_ws ind s)) \<and>
    (fst (flow_ws ind s) = ind \<or> left (snd (flow_ws ind s)) < left s)"
proof (induction ind s rule: flow_ws.induct)
  case (1 ind s)
  obtain m ind' s' where r: "flow_round ind s = (m, ind', s')" using prod_cases3 by blast
  note st = flow_round_step [OF 1(2) r]
  show ?case
  proof (cases "m > 0")
    case True
    with 1(1) [OF r [symmetric] refl refl True] st show ?thesis by (auto simp: flow_ws.simps [of ind s] r)
  next
    case False
    with st show ?thesis by (auto simp: flow_ws.simps [of ind s] r)
  qed
qed

lemma flow_commas_step:
  assumes "ahead s = suf @ rest" and "line_rest suf rest" and "line = pre @ suf" and "i = int (length pre)"
  shows "within (fst (flow_commas line i s) - i) s (snd (flow_commas line i s)) \<and>
    at line (fst (flow_commas line i s)) \<noteq> Some 44"
  using assms
proof (induction line i s arbitrary: pre suf rule: flow_commas.induct)
  case (1 line i s)
  show ?case
  proof (cases "at line i = Some 44")
    case True
    then obtain w where suf: "suf = 44 # w" using at_line [OF 1(4,5)] by (auto split: list.splits)
    obtain n s1 where p: "then_spaces (pushCount 1 s) = (n, s1)" by fastforce
    have c0: "charAt 0 s = Some 44" using 1(2) suf by (rule charAt_line)
    have w1: "within n s s1" using within_then_spaces [OF within_pushCount_1 [OF c0]] p by simp
    then obtain pre' suf' where l: "suf = pre' @ suf'" "n = int (length pre')" "ahead s1 = suf' @ rest" "line_rest suf' rest"
      using line_within [OF 1(2,3)] by metis
    let ?s1 = "s1\<lparr>lx_flowKey := False\<rparr>"
    have a1: "ahead ?s1 = suf' @ rest" using l(3) by (simp add: ahead_def)
    have "within (fst (flow_commas line (i + n) ?s1) - (i + n)) ?s1 (snd (flow_commas line (i + n) ?s1)) \<and>
        at line (fst (flow_commas line (i + n) ?s1)) \<noteq> Some 44"
      using 1(1) [OF True p [symmetric] refl a1 l(4), of "pre @ pre'"] 1(4,5) l(1,2) by simp
    with within_trans [OF w1, of "fst (flow_commas line (i + n) ?s1) - (i + n)" "snd (flow_commas line (i + n) ?s1)"]
    show ?thesis by (simp add: flow_commas.simps [of line i s] True p)
  next
    case False
    then show ?thesis by (simp add: flow_commas.simps [of line i s])
  qed
qed

lemma pushIndicator_colon:
  "charAt 0 s = Some 58 \<Longrightarrow> pushIndicator s = None \<Longrightarrow>
     \<not> (isEmpty (charAt 1 s) \<or> 0 < lx_flowLevel s \<and> flowIndicator (charAt 1 s))"
  by (simp add: pushIndicator_def Let_def split: if_splits)

lemma starts_plain_key [simp]: "starts_plain (s\<lparr>lx_flowKey := a\<rparr>) = starts_plain s"
  by (simp add: starts_plain_def)

text \<open>What parseFlowCollection works on after the white space, commas and indicators of a line.\<close>

lemma flow_line:
  assumes v: "valid s" and l: "0 < lx_flowLevel s" and st: "at_content s" and g: "getLine s = (Some line, s2)"
  obtains i0 s3 m s4 pre suf rest where "flow_commas line 0 s2 = (i0, s3)" "pushIndicators s3 = (m, s4)"
    "line = pre @ suf" "i0 + m = int (length pre)" "ahead s4 = suf @ rest" "line_rest suf rest" "valid s4"
    "lx_flowLevel s4 = lx_flowLevel s" "left s4 \<le> left s"
    "\<forall>c w. suf = c # w \<longrightarrow> left s4 = left s \<longrightarrow> c \<notin> {91, 93, 123, 125} \<longrightarrow> starts_plain s4"
    "suf = [] \<longrightarrow> left s4 = left s \<longrightarrow> left s = 0"
proof -
  obtain rest where g': "ahead s = line @ rest" "line_rest line rest" "valid s2" "lx_pos s2 = lx_pos s"
    "lx_buffer s2 = lx_buffer s" "lx_flowLevel s2 = lx_flowLevel s"
    using getLine_line [OF v] g by (metis Pair_inject option.inject)
  have a2: "ahead s2 = line @ rest" using g' by (simp add: ahead_def)
  obtain i0 s3 m s4 where c: "flow_commas line 0 s2 = (i0, s3)" and i: "pushIndicators s3 = (m, s4)" by fastforce
  have w3: "within i0 s2 s3" "at line i0 \<noteq> Some 44" using flow_commas_step [OF a2 g'(2), of line "[]" 0] c by simp_all
  have wm: "within m s3 s4" using within_pushIndicators [of s3] i by simp
  note w4 = within_trans [OF w3(1) wm]
  obtain pre suf where line: "line = pre @ suf" "i0 + m = int (length pre)" "ahead s4 = suf @ rest" "line_rest suf rest"
    using line_within [OF a2 g'(2) w4] .
  have left: "left s2 = left s" using g' by (simp add: left_def)
  have same: "pre = [] \<and> i0 = 0 \<and> s4 = s3 \<and> pushIndicator s3 = None \<and> charAt 0 s4 = charAt 0 s \<and> charAt 1 s4 = charAt 1 s"
    if eq: "left s4 = left s"
  proof -
    have "i0 + m = 0" using within_left [OF w4] left eq by simp
    then have z: "i0 = 0" "m = 0" using within_nonneg [OF w3(1)] within_nonneg [OF wm] by simp_all
    with pushIndicators_zero [of s3] i have "s4 = s3" "pushIndicator s3 = None" by simp_all
    moreover have "lx_pos s4 = lx_pos s" "lx_buffer s4 = lx_buffer s"
      using within_pos [OF w4] z g' w4 by (auto simp: within_def advance_def)
    ultimately show ?thesis using z line(2) by (auto simp: charAt_def)
  qed
  have content4: "at_content s4" if eq: "left s4 = left s"
    using st same [OF eq] unfolding at_content_def by metis
  show thesis
  proof (rule that [OF c i line])
    show "valid s4" using g'(3) w4 by (rule valid_within)
    show "lx_flowLevel s4 = lx_flowLevel s" using within_flowLevel [OF w4] g'(6) by simp
    show "left s4 \<le> left s" using within_left [OF w4] within_nonneg [OF w4] left by simp
  next
    show "\<forall>c w. suf = c # w \<longrightarrow> left s4 = left s \<longrightarrow> c \<notin> {91, 93, 123, 125} \<longrightarrow> starts_plain s4"
    proof (intro allI impI)
    fix c w
    assume suf: "suf = c # w" and eq: "left s4 = left s" and nc: "c \<notin> {91, 93, 123, 125}"
    note sm = same [OF eq]
    have c0: "charAt 0 s4 = Some c" using line(3) suf by (rule charAt_line)
    have "c \<noteq> 44" using w3(2) sm line(1) suf by (auto simp: at_def)
    moreover have "\<not> (c = 58 \<and> (isEmpty (charAt 1 s4) \<or> flowIndicator (charAt 1 s4)))"
      using pushIndicator_colon [of s4] sm c0 l within_flowLevel [OF w4] g'(6) by metis
    moreover have "\<not> blank c" "c \<noteq> LF" "c = CR \<longrightarrow> charAt 1 s4 \<noteq> Some LF"
      using content4 [OF eq] c0 by (simp_all add: at_content_def)
    ultimately show "starts_plain s4" using c0 nc by (simp add: starts_plain_def flowIndicator_def)
    qed
  next
    show "suf = [] \<longrightarrow> left s4 = left s \<longrightarrow> left s = 0"
    proof (intro impI)
    assume suf: "suf = []" and eq: "left s4 = left s"
    note sm = same [OF eq]
    have "rest = []"
      using line(3,4) suf content4 [OF eq] by (auto simp: line_rest_def at_content_def charAt_0 charAt_1)
    then show "left s = 0" using eq line(3) suf by (simp add: left_ahead)
    qed
  qed
qed

lemma flow_char:
  assumes v: "valid s" and l: "0 < lx_flowLevel s" and a: "ahead s = suf @ rest" "line_rest suf rest" and suf: "suf = c # w"
    and n: "n = int (length suf)" and k: "left s \<le> k"
    and plain: "c \<notin> {91, 93, 123, 125} \<Longrightarrow> left s < k \<or> starts_plain s"
  shows "consumes k
    (if c = 35 then (Some L_flow, snd (pushCount n s))
     else if c = 123 \<or> c = 91 then
       (let s5 = snd (pushCount 1 s)
        in (Some L_flow, s5\<lparr>lx_flowKey := False, lx_flowLevel := lx_flowLevel s5 + 1\<rparr>))
     else if c = 125 \<or> c = 93 then
       (let s5 = snd (pushCount 1 s); lvl = lx_flowLevel s5 - 1
        in (Some (if lvl \<noteq> 0 then L_flow else L_doc), s5\<lparr>lx_flowKey := True, lx_flowLevel := lvl\<rparr>))
     else if c = 42 then (Some L_flow, snd (pushUntil isNotAnchorChar s))
     else if c = 34 \<or> c = 39 then parseQuotedScalar (s\<lparr>lx_flowKey := True\<rparr>)
     else if c = 58 \<and> (lx_flowKey s \<or> isEmpty (charAt 1 s) \<or> charAt 1 s = Some 44) then
       (Some L_flow, snd (pushSpaces True (snd (pushCount 1 (s\<lparr>lx_flowKey := False\<rparr>)))))
     else parsePlainScalar (s\<lparr>lx_flowKey := False\<rparr>))"
proof -
  have c0: "charAt 0 s = Some c" using a(1) suf by (rule charAt_line)
  note lone = line_lone_cr [OF a suf]
  have one: "within 1 t (snd (pushCount 1 t))" if "c \<noteq> CR" "charAt 0 t = Some c" for t
    using within_pushCount_1 [OF that(2,1)] lone by (simp add: pushCount_def)
  consider (comment) "c = 35" | (brace) "c = 123 \<or> c = 91" | (close) "c = 125 \<or> c = 93" | (star) "c = 42"
    | (quoted) "c = 34 \<or> c = 39" | (colon) "c = 58" "lx_flowKey s \<or> isEmpty (charAt 1 s) \<or> charAt 1 s = Some 44"
    | (plain) "c \<notin> {35, 123, 91, 125, 93, 42, 34, 39}" "\<not> (c = 58 \<and> (lx_flowKey s \<or> isEmpty (charAt 1 s) \<or> charAt 1 s = Some 44))"
    by blast
  then show ?thesis
  proof cases
    case comment
    have "valid (snd (pushCount n s))" "lx_flowLevel (snd (pushCount n s)) = lx_flowLevel s"
      using line_pushCount [OF a v n] by simp_all
    moreover have "left (snd (pushCount n s)) < k"
      using left_pushCount_less [of n s] n suf a(1) k by (simp add: left_ahead)
    ultimately show ?thesis using comment l by (simp add: consumes_def outcome_def)
  next
    case brace
    then show ?thesis using within_flowLevel [OF one [OF _ c0]] l
      by (auto simp: Let_def intro!: consumes_move [OF one [OF _ c0] _ v k])
  next
    case close
    then show ?thesis using within_flowLevel [OF one [OF _ c0]] l
      by (auto simp: Let_def intro!: consumes_move [OF one [OF _ c0] _ v k])
  next
    case star
    then have "within (fst (pushUntil isNotAnchorChar s)) s (snd (pushUntil isNotAnchorChar s)) \<and> 0 < fst (pushUntil isNotAnchorChar s)"
      by (intro pushUntil_moves [OF c0]) (simp_all add: isNotAnchorChar_def)
    then show ?thesis using star l within_flowLevel [of _ s "snd (pushUntil isNotAnchorChar s)"]
      by (auto intro!: consumes_move [OF _ _ v k])
  next
    case quoted
    then have "consumes k (parseQuotedScalar (s\<lparr>lx_flowKey := True\<rparr>))"
      using parseQuotedScalar_consumes [of "s\<lparr>lx_flowKey := True\<rparr>" c] v l c0 k by (auto intro: consumes_mono)
    then show ?thesis using quoted by auto
  next
    case colon
    let ?t = "snd (pushCount 1 (s\<lparr>lx_flowKey := False\<rparr>))"
    have "within (1 + fst (pushSpaces True ?t)) s (snd (pushSpaces True ?t))"
      using within_trans [OF _ within_pushSpaces] one [of "s\<lparr>lx_flowKey := False\<rparr>"] c0 colon(1) by simp
    then show ?thesis using colon l within_flowLevel pushSpaces_nonneg [of True ?t]
      by (auto intro!: consumes_move [OF _ _ v k])
  next
    case p: plain
    let ?t = "s\<lparr>lx_flowKey := False\<rparr>"
    have "consumes k (parsePlainScalar ?t)"
    proof (cases "left s < k")
      case True
      then show ?thesis using parsePlainScalar_outcome [OF _ _ refl, of ?t] v l
        by (intro outcome_consumes [of "left s"]) simp_all
    next
      case False
      then show ?thesis using parsePlainScalar_consumes [of ?t] plain p(1) v l k by (auto intro: consumes_mono)
    qed
    then show ?thesis using p by auto
  qed
qed

lemma parseFlowCollection_consumes:
  assumes v: "valid s" and l: "0 < lx_flowLevel s" and pos: "0 < left s"
  shows "consumes (left s) (parseFlowCollection s)"
proof -
  obtain ind s1 where f: "flow_ws (- 1) s = (ind, s1)" by fastforce
  have s1: "valid s1" "lx_flowLevel s1 = lx_flowLevel s" "left s1 \<le> left s" "at_content s1" "ind = - 1 \<or> left s1 < left s"
    using flow_ws_step [OF v, of "- 1"] f by simp_all
  have l1: "0 < lx_flowLevel s1" using s1(2) l by simp
  obtain line rest s2 where g: "getLine s1 = (Some line, s2)" "valid s2" "lx_pos s2 = lx_pos s1" "lx_buffer s2 = lx_buffer s1"
    using getLine_line [OF s1(1)] by metis
  let ?err = "(ind \<noteq> - 1 \<and> ind < lx_indentNext s2 \<and> at line 0 \<noteq> Some 35 \<or> ind = 0 \<and> doc_marker line) \<and>
     \<not> (ind = lx_indentNext s2 - 1 \<and> lx_flowLevel s2 = 1 \<and> (at line 0 = Some 93 \<or> at line 0 = Some 125))"
  show ?thesis
  proof (cases ?err)
    case True
    then have less: "left s1 < left s" using s1(5) by auto
    let ?y = "yield (Mark 24) (s2\<lparr>lx_flowLevel := 0\<rparr>)"
    have "left ?y < left s" "lx_flowLevel ?y = 0" "valid ?y"
      using g less by (simp_all add: left_def yield_def) (simp add: valid_def cached_def)
    then have "consumes (left s) (parseLineStart ?y)" by (intro consumes_lineStart)
    then show ?thesis using True by (simp add: parseFlowCollection_def f g(1))
  next
    case False
    obtain i0 s3 m s4 pre suf rest where q: "flow_commas line 0 s2 = (i0, s3)" "pushIndicators s3 = (m, s4)"
      and line: "line = pre @ suf" "i0 + m = int (length pre)" "ahead s4 = suf @ rest" "line_rest suf rest"
      and s4: "valid s4" "lx_flowLevel s4 = lx_flowLevel s1" "left s4 \<le> left s1"
      and plain: "\<forall>c w. suf = c # w \<longrightarrow> left s4 = left s1 \<longrightarrow> c \<notin> {91, 93, 123, 125} \<longrightarrow> starts_plain s4"
      and none: "suf = [] \<longrightarrow> left s4 = left s1 \<longrightarrow> left s1 = 0"
      using flow_line [OF s1(1) l1 s1(4) g(1)] .
    have k: "left s4 \<le> left s" "0 < lx_flowLevel s4" using s4 s1(3) l1 by simp_all
    note at = at_line [OF line(1,2)]
    note flow = parseFlowCollection_def f g(1) q Let_def prod.case option.case if_not_P [OF False]
    show ?thesis
    proof (cases suf)
      case Nil
      then have "left s4 < left s" using none s4(3) s1(3) pos by (cases "left s4 = left s1") auto
      then have "consumes (left s) (Some L_flow, s4)" using s4(1) k(2) by (simp add: consumes_def outcome_def)
      then show ?thesis using at Nil by (simp only: flow list.case)
    next
      case (Cons c w)
      then have at: "at line (i0 + m) = Some c" using at by simp
      have p: "left s4 < left s \<or> starts_plain s4" if "c \<notin> {91, 93, 123, 125}"
        using plain Cons s4(3) s1(3) that by (cases "left s4 = left s1") auto
      have n: "int (length line) - (i0 + m) = int (length suf)" using line(1,2) by simp
      show ?thesis
        by (simp only: flow at) (rule flow_char [OF s4(1) k(2) line(3,4) Cons n k(1) p, unfolded Let_def])
    qed
  qed
qed

section \<open>The stream\<close>

lemma directive_end_le: "directive_end line \<le> length line"
proof -
  have r: "length (rstrip w) \<le> length w" for w
    using length_dropWhile_le [of blank "rev w"] by (simp add: rstrip_def)
  show ?thesis unfolding directive_end_def Let_def by (rule order_trans [OF r]) simp
qed

lemma getLine_bom:
  assumes v: "valid s" and g: "getLine s = (Some line0, s1)" and bom: "bom = byte_order_mark (at line0 0)"
    and s2: "s2 = (if bom then snd (pushCount 1 s1) else s1)" and line: "line = (if bom then tl line0 else line0)"
  obtains rest where "ahead s2 = line @ rest" "line_rest line rest" "valid s2" "lx_flowLevel s2 = lx_flowLevel s"
    "left s2 \<le> left s"
proof -
  obtain rest where g': "ahead s = line0 @ rest" "line_rest line0 rest" "valid s1" "lx_pos s1 = lx_pos s"
    "lx_buffer s1 = lx_buffer s" "lx_flowLevel s1 = lx_flowLevel s"
    using getLine_line [OF v] g by (metis Pair_inject option.inject)
  have a1: "ahead s1 = line0 @ rest" and l1: "left s1 = left s" using g' by (simp_all add: ahead_def left_def)
  show thesis
  proof (cases bom)
    case True
    then obtain w where w: "line0 = 65279 # w"
      using bom by (cases line0) (auto simp: byte_order_mark_def at_def)
    have "charAt 0 s1 = Some 65279" using a1 w by (rule charAt_line)
    then have w1: "within 1 s1 s2" using within_pushCount_1 [of s1 65279] True s2 by (simp add: pushCount_def)
    then obtain pre suf where "line0 = pre @ suf" "1 = int (length pre)" "ahead s2 = suf @ rest" "line_rest suf rest"
      using line_within [OF a1 g'(2)] by metis
    moreover from this have "suf = line" using w True line by (cases pre) auto
    ultimately show thesis
      using that valid_within [OF g'(3) w1] within_flowLevel [OF w1] within_left [OF w1] l1 g'(6) by simp
  next
    case False
    then show thesis using that a1 g' l1 s2 line by simp
  qed
qed

lemma line_prefix:
  assumes a: "ahead s = line @ rest" "line_rest line rest" and v: "valid s" and d: "d \<le> length line"
  shows "ahead (snd (pushCount (int d) s)) = drop d line @ rest \<and> line_rest (drop d line) rest \<and>
    valid (snd (pushCount (int d) s)) \<and> lx_flowLevel (snd (pushCount (int d) s)) = lx_flowLevel s"
proof (cases "d = length line")
  case True
  then show ?thesis using line_pushCount [OF a v refl] a(2) by (auto simp: line_rest_def)
next
  case False
  let ?s' = "snd (pushCount (int d) s)"
  have adv: "advance s (take d line) ?s'"
    using advance_pushCount [of "int d" s] a(1) d by (simp add: left_ahead ahead_def [symmetric])
  then have ah: "ahead ?s' = drop d line @ rest"
    using ahead_advance [OF adv] a(1) by (metis append.assoc append_take_drop_id same_append_eq)
  have lr: "line_rest (drop d line) rest" using a(2) False d by (auto simp: line_rest_def dest: in_set_dropD)
  have "drop d line \<noteq> []" using False d by simp
  then have "charAt 0 ?s' \<noteq> Some LF" using ah lr by (cases "drop d line") (auto simp: charAt_0 line_rest_def)
  moreover have "at (lx_buffer s) (int (lx_pos ?s')) = charAt 0 ?s'"
    by (rule at_here) (use adv in \<open>simp add: advance_def\<close>)
  ultimately have "valid ?s'" by (intro advance_valid [OF v adv]) (simp add: unsplit_def)
  with ah lr advance_flowLevel [OF adv] show ?thesis by simp
qed

lemma parseStream_outcome:
  assumes v: "valid s" and l: "lx_flowLevel s = 0" and pos: "0 < left s"
  shows "outcome (left s) (parseStream s)"
proof -
  obtain line0 s1 where g: "getLine s = (Some line0, s1)" using getLine_line [OF v] by metis
  define bom s2 line where "bom = byte_order_mark (at line0 0)"
    and "s2 = (if bom then snd (pushCount 1 s1) else s1)" and "line = (if bom then tl line0 else line0)"
  obtain rest where b: "ahead s2 = line @ rest" "line_rest line rest" "valid s2" "lx_flowLevel s2 = lx_flowLevel s"
    "left s2 \<le> left s"
    using getLine_bom [OF v g bom_def s2_def line_def] .
  let ?len = "int (length line)"
  have stream: "parseStream s =
      (if at line 0 = Some 37 then
         (let (a, s3) = pushCount (int (directive_end line)) s2; (k, s4) = pushSpaces True s3
          in (Some L_stream, snd (pushCount (?len - (a + k)) s4)))
       else if atLineEnd s2 then
         (let (k, s3) = pushSpaces True s2
          in (Some L_stream, snd (pushNewline (snd (pushCount (?len - k) s3)))))
       else parseLineStart (yield (Mark 2) s2))"
    by (simp only: parseStream_def g prod.case option.case Let_def bom_def [symmetric] s2_def [symmetric] line_def [symmetric])
  consider (directive) "at line 0 = Some 37" | (blank) "at line 0 \<noteq> Some 37" "atLineEnd s2" | (doc) "at line 0 \<noteq> Some 37" "\<not> atLineEnd s2"
    by blast
  then show ?thesis
  proof cases
    case directive
    let ?d = "directive_end line"
    obtain a s3 where p: "pushCount (int ?d) s2 = (a, s3)" by fastforce
    then have a: "a = int ?d" by (auto simp: pushCount_def split: if_splits)
    obtain k s4 where q: "pushSpaces True s3 = (k, s4)" by fastforce
    have s3: "ahead s3 = drop ?d line @ rest" "line_rest (drop ?d line) rest" "valid s3" "lx_flowLevel s3 = 0"
      using line_prefix [OF b(1,2,3) directive_end_le] b(4) l p by simp_all
    have w: "within k s3 s4" using within_pushSpaces [of True s3] q by simp
    obtain pre suf where r: "drop ?d line = pre @ suf" "k = int (length pre)" "ahead s4 = suf @ rest" "line_rest suf rest"
      using line_within [OF s3(1,2) w] .
    have "?len = int ?d + int (length (drop ?d line))" using directive_end_le [of line] by simp
    then have n: "?len - (int ?d + k) = int (length suf)" using r(1,2) by simp
    let ?s5 = "snd (pushCount (?len - (int ?d + k)) s4)"
    have "ahead ?s5 = rest" "valid ?s5" "lx_flowLevel ?s5 = 0"
      using line_pushCount [OF r(3,4) valid_within [OF s3(3) w] n] within_flowLevel [OF w] s3(4) by simp_all
    moreover have "length rest < left s2" using b(1) directive by (cases line) (auto simp: left_ahead at_def)
    ultimately show ?thesis using directive b(5) by (simp add: stream p q a outcome_def left_ahead)
  next
    case blank
    obtain k s3 where q: "pushSpaces True s2 = (k, s3)" by fastforce
    have w: "within k s2 s3" using within_pushSpaces [of True s2] q by simp
    obtain pre suf where r: "line = pre @ suf" "k = int (length pre)" "ahead s3 = suf @ rest" "line_rest suf rest"
      using line_within [OF b(1,2) w] .
    then have n: "?len - k = int (length suf)" by simp
    let ?s4 = "snd (pushCount (?len - k) s3)"
    have s4: "ahead ?s4 = rest" "valid ?s4" "lx_flowLevel ?s4 = 0"
      using line_pushCount [OF r(3,4) valid_within [OF b(3) w] n] within_flowLevel [OF w] b(4) l by simp_all
    have "line_rest [] (ahead ?s4)" using s4(1) r(4) by (auto simp: line_rest_def)
    moreover have "left ?s4 \<le> left s" using s4(1) b(1,5) by (simp add: left_ahead)
    ultimately have "left (snd (pushNewline ?s4)) < left s"
      using pushNewline_consumes_line [of ?s4] left_pushNewline [of ?s4] pos by (auto simp: left_ahead)
    then show ?thesis using blank pushNewline_valid [OF s4(2)] s4(3) by (simp add: stream q outcome_def)
  next
    case doc
    have "lx_flowLevel (yield (Mark 2) s2) = 0" using b(4) l by (simp add: yield_def)
    with b(3,5) have "outcome (left s) (parseLineStart (yield (Mark 2) s2))"
      by (intro outcome_mono [OF outcome_parseLineStart]) simp_all
    then show ?thesis using doc by (simp add: stream)
  qed
qed

section \<open>The loop\<close>

definition lex_rank :: "lex_state option \<times> lexer \<Rightarrow> nat" where
  "lex_rank p = 2 * left (snd p) + (if fst p = Some L_stream then 1 else 0)"

definition lex_inv :: "lex_state option \<times> lexer \<Rightarrow> bool" where
  "lex_inv p \<longleftrightarrow> outcome (Suc (left (snd p))) p"

lemma outcome_rank:
  assumes "outcome (left (snd p)) q" and "fst p = Some L_stream \<or> left (snd q) < left (snd p)"
  shows "lex_inv q \<and> lex_rank q < lex_rank p"
proof
  show "lex_inv q" using assms(1) by (auto simp: lex_inv_def outcome_def)
  have "left (snd q) \<le> left (snd p)" "fst q = Some L_stream \<longrightarrow> left (snd q) < left (snd p)"
    using assms(1) by (auto simp: outcome_def)
  then show "lex_rank q < lex_rank p" using assms(2) unfolding lex_rank_def by (auto split: if_split)
qed

lemma lex_inv_round:
  assumes inv: "lex_inv p" and run: "lex_running False p"
  shows "lex_inv (parseNext (the (fst p)) (snd p)) \<and> lex_rank (parseNext (the (fst p)) (snd p)) < lex_rank p"
proof -
  let ?s = "snd p" and ?q = "parseNext (the (fst p)) (snd p)"
  have pos: "0 < left ?s" using run by (auto simp: lex_running_def hasChars_def left_def)
  have v: "valid ?s" using inv by (simp add: lex_inv_def outcome_def)
  have "outcome (left ?s) ?q \<and> (fst p = Some L_stream \<or> left (snd ?q) < left ?s)"
  proof (cases "fst p = Some L_stream")
    case True
    then show ?thesis using parseStream_outcome [OF v _ pos] inv by (simp add: lex_inv_def outcome_def)
  next
    case False
    with inv consider "fst p = Some L_doc" "lx_flowLevel ?s = 0" | "fst p = Some L_flow" "0 < lx_flowLevel ?s"
      by (auto simp: lex_inv_def outcome_def)
    then have "consumes (left ?s) ?q"
      by cases (simp_all add: parseDocument_consumes [OF v _ pos] parseFlowCollection_consumes [OF v _ pos])
    then show ?thesis by (simp add: consumes_def)
  qed
  then show ?thesis using outcome_rank by blast
qed

lemma lex_rounds_stop: "lex_inv p \<Longrightarrow> lex_rank p \<le> k \<Longrightarrow> \<not> lex_running False (lex_rounds k False p)"
proof (induction k arbitrary: p)
  case 0
  then show ?case by (simp add: lex_rank_def lex_running_def hasChars_def left_def)
next
  case (Suc k)
  show ?case
  proof (cases "lex_running False p")
    case True
    from lex_inv_round [OF Suc.prems(1) True] Suc.prems(2) Suc.IH True show ?thesis by simp
  qed simp
qed

lemma lex_inv_rounds: "lex_inv p \<Longrightarrow> lex_inv (lex_rounds k False p)"
  by (induction k arbitrary: p) (simp_all add: lex_inv_round)

lemma lex_input_new: "lex_input src False new_lexer = (Some L_stream, new_lexer\<lparr>lx_buffer := src, lx_atEnd := True\<rparr>)"
  by (simp add: lex_input_def new_lexer_def)

lemma lex_input_inv: "lex_inv (lex_input src False new_lexer) \<and> lex_rank (lex_input src False new_lexer) = 2 * length src + 1"
proof -
  let ?s = "new_lexer\<lparr>lx_buffer := src, lx_atEnd := True\<rparr>"
  have f: "lx_pos ?s = 0" "lx_buffer ?s = src" "lx_atEnd ?s" "lx_lineEndPos ?s = None" "lx_flowLevel ?s = 0"
    by (simp_all add: new_lexer_def)
  then have "valid ?s" by (simp add: valid_def cached_def unsplit_def at_def)
  moreover have "left ?s = length src" using f by (simp add: left_def)
  ultimately show ?thesis using f(5) by (simp add: lex_input_new lex_inv_def lex_rank_def outcome_def)
qed

section \<open>Properties\<close>

text \<open>C3: The lexer terminates. On every complete source of \<open>n\<close> characters its loop has ended after
  at most \<open>2 n + 1\<close> rounds, and the slices it has yielded by then are together the whole source.\<close>
theorem lexer_terminates:
  "\<not> lex_running False (lex_rounds (2 * length src + 1 + k) False (lex_input src False new_lexer)) \<and>
   written (snd (lex_rounds (2 * length src + 1 + k) False (lex_input src False new_lexer))) = src"
proof -
  have "\<not> lex_running False (lex_rounds (2 * length src + 1 + k) False (lex_input src False new_lexer))"
    using lex_input_inv [of src] by (intro lex_rounds_stop) simp_all
  then show ?thesis using lossless_stopped by blast
qed

text \<open>C15: The lexer stays well typed. After any number of rounds on any complete source it is in one
  of the three states of its loop, never without a state: in a flow collection with a positive
  nesting level, or in the stream or a document with level 0. Its position is not between a carriage
  return and the line feed of the same line break, and the line end it has cached, if any, is that
  of a line begun at or before the position.\<close>
theorem lexer_state_well_typed:
  "let (state, s) = lex_rounds k False (lex_input src False new_lexer) in
     (state = Some L_flow \<and> 0 < lx_flowLevel s \<or> state \<in> {Some L_stream, Some L_doc} \<and> lx_flowLevel s = 0) \<and>
     lx_atEnd s \<and> unsplit (lx_buffer s) (lx_pos s) \<and> cached s"
  using lex_inv_rounds [OF conjunct1 [OF lex_input_inv], of k src]
  by (auto simp: lex_inv_def outcome_def valid_def split: prod.split)

end
