(* ===== verification/YamlString.thy ===== *)
theory YamlString
  imports YamlLexer
begin

text \<open>
  \<open>internal/ui/assets/assets/index-DHyr8oiy.js\<close>, lines 167 to 192: how the YAML library of the web
  UI writes a string. Comments (\<open>JUt\<close>, \<open>U9\<close>, \<open>W9\<close>), folding of long lines (\<open>QUt\<close>, \<open>$Ut\<close>), the
  double-quoted (\<open>rWt\<close>), single-quoted (\<open>iWt\<close>), quoted (\<open>aWt\<close>), block (\<open>sWt\<close>) and plain (\<open>cWt\<close>) styles
  and the choice between them (\<open>lWt\<close>), with the default options (\<open>uWt\<close>).

  As in the reader, a string is the list of its UTF-16 code units; reading outside a string gives
  \<open>None\<close>. The regular expressions are written out. The callbacks \<open>onComment\<close> and \<open>onChompKeep\<close>
  are flags of the result; a thrown exception is \<open>None\<close>. The tests of the schema's tags, which
  depend on the document, are a field of the context.
\<close>

section \<open>Text\<close>

text \<open>\<open>slice(i, j)\<close>\<close>

definition clip :: "ustr \<Rightarrow> int \<Rightarrow> nat" where
  "clip s i = (if i < 0 then nat (int (length s) + i) else min (nat i) (length s))"

definition slice :: "ustr \<Rightarrow> int \<Rightarrow> int \<Rightarrow> ustr" where
  "slice s i j = take (clip s j - clip s i) (drop (clip s i) s)"

text \<open>The characters before and after which \<open>^\<close> and \<open>$\<close> match in multiline mode.\<close>

definition line_end :: "nat \<Rightarrow> bool" where
  "line_end c \<longleftrightarrow> c = LF \<or> c = CR \<or> c = 8232 \<or> c = 8233"

definition at_line_end :: "ustr \<Rightarrow> bool" where
  "at_line_end s \<longleftrightarrow> s = [] \<or> line_end (hd s)"

text \<open>\<open>JUt\<close>: the default \<open>commentString\<close>. \<open>bol\<close> says whether \<open>^\<close> matches here.\<close>

fun comment_lines :: "bool \<Rightarrow> ustr \<Rightarrow> ustr" where
  "comment_lines bol [] = []"
| "comment_lines bol (c # r) =
     (if bol \<and> \<not> line_end c then
        (if c = 32 \<and> at_line_end r then 35 # comment_lines False r else 35 # c # comment_lines False r)
      else c # comment_lines (line_end c) r)"

definition stringifyComment :: "ustr \<Rightarrow> ustr" where
  "stringifyComment s = comment_lines True s"

text \<open>\<open>U9\<close>\<close>

fun indent_lines :: "bool \<Rightarrow> ustr \<Rightarrow> ustr \<Rightarrow> ustr" where
  "indent_lines bol t [] = []"
| "indent_lines bol t (c # r) =
     (if bol \<and> \<not> at_line_end (dropWhile (\<lambda>x. x = 32) (c # r)) then t else []) @ c # indent_lines (line_end c) t r"

definition indentComment :: "ustr \<Rightarrow> ustr \<Rightarrow> ustr" where
  "indentComment e t =
     (if e \<noteq> [] \<and> list_all (\<lambda>c. c = LF) e then tl e
      else if t \<noteq> [] then indent_lines True t e
      else e)"

text \<open>\<open>W9\<close>\<close>

definition lineComment :: "ustr \<Rightarrow> ustr \<Rightarrow> ustr \<Rightarrow> ustr" where
  "lineComment e t n =
     (if e \<noteq> [] \<and> last e = LF then indentComment n t
      else if LF \<in> set n then LF # indentComment n t
      else (if e \<noteq> [] \<and> last e = 32 then [] else [32]) @ n)"

section \<open>Folding long lines\<close>

datatype fold_mode = FOLD_FLOW | FOLD_BLOCK | FOLD_QUOTED

text \<open>\<open>$Ut\<close>\<close>

definition next_break :: "ustr \<Rightarrow> int \<Rightarrow> int" where
  "next_break e t = t + int (length (takeWhile (\<lambda>c. c \<noteq> LF) (drop (nat t) e)))"

function more_indented :: "ustr \<Rightarrow> int \<Rightarrow> int \<Rightarrow> int \<Rightarrow> int \<Rightarrow> nat option \<Rightarrow> int" where
  "more_indented e n t r i a =
     (if blank_opt a then
        (if t < i + n then more_indented e n (t + 1) r i (at e (t + 1))
         else
           (let t' = next_break e (t + 1)
            in more_indented e n t' t' (t' + 1) (at e (t' + 1))))
      else r)"
  by pat_completeness auto
termination
proof (relation "measure (\<lambda>(e, n, t, r, i, a). 2 * nat (int (length e) - t) + (if blank_opt a then 1 else 0))")
  have dec: "2 * nat (int (length e) - t') + (if blank_opt (at e k) then 1 else 0)
      < 2 * nat (int (length e) - t) + (if blank_opt a then 1 else 0)"
    if "blank_opt a" "t < t'" "t' \<le> k" for e :: ustr and t t' k a
  proof (cases "blank_opt (at e k)")
    case True
    then have "k < int (length e)" by (auto simp: blank_opt_def at_def split: if_splits)
    with that True show ?thesis by simp
  qed (use that in simp)
  show "((e, n, t + 1, r, i, at e (t + 1)), e, n, t, r, i, a)
      \<in> measure (\<lambda>(e, n, t, r, i, a). 2 * nat (int (length e) - t) + (if blank_opt a then 1 else 0))"
    if "blank_opt a" for e n t r i a
    using dec [OF that, of t "t + 1" "t + 1" e] by simp
  show "((e, n, t', t', t' + 1, at e (t' + 1)), e, n, t, r, i, a)
      \<in> measure (\<lambda>(e, n, t, r, i, a). 2 * nat (int (length e) - t) + (if blank_opt a then 1 else 0))"
    if "blank_opt a" "t' = next_break e (t + 1)" for e n t r i a t'
    using dec [OF that(1), of t t' "t' + 1" e] that(2) by (simp add: next_break_def)
qed simp

declare more_indented.simps [simp del]

definition consumeMoreIndentedLines :: "ustr \<Rightarrow> int \<Rightarrow> int \<Rightarrow> int" where
  "consumeMoreIndentedLines e t n = more_indented e n t t (t + 1) (at e (t + 1))"

lemma more_indented_ge: "r \<le> t \<Longrightarrow> r \<le> more_indented e n t r i a"
proof (induction e n t r i a rule: more_indented.induct)
  case (1 e n t r i a)
  show ?case
  proof (cases "blank_opt a")
    case blank: True
    show ?thesis
    proof (cases "t < i + n")
      case True
      then show ?thesis using 1(1) [OF blank True] 1(3) blank by (simp add: more_indented.simps [of e n t])
    next
      case False
      let ?t = "next_break e (t + 1)"
      have "r \<le> ?t" using 1(3) by (simp add: next_break_def)
      moreover have "?t \<le> more_indented e n ?t ?t (?t + 1) (at e (?t + 1))"
        using 1(2) [OF blank False refl] by simp
      ultimately show ?thesis using blank False by (simp add: more_indented.simps [of e n t] Let_def)
    qed
  qed (simp add: more_indented.simps [of e n t])
qed

lemma consumeMoreIndentedLines_ge: "t \<le> consumeMoreIndentedLines e t n"
  by (simp add: consumeMoreIndentedLines_def more_indented_ge)

text \<open>The white-space loop of the quoted mode: the previous character, the current one, its index.\<close>

function skip_white :: "ustr \<Rightarrow> nat option \<Rightarrow> nat option \<Rightarrow> int \<Rightarrow> nat option \<times> nat option \<times> int" where
  "skip_white e p r h =
     (if blank_opt p then skip_white e r (at e (h + 1)) (h + 1) else (p, r, h))"
  by pat_completeness auto
termination
proof (relation "measure (\<lambda>(e, p, r, h). 2 * nat (int (length e) - h) + (if blank_opt p then 1 else 0) + (if blank_opt r then 1 else 0))")
  fix e :: ustr and p r and h :: int
  assume "blank_opt p"
  moreover have "h + 1 < int (length e)" if "blank_opt (at e (h + 1))"
    using that by (auto simp: blank_opt_def at_def split: if_splits)
  ultimately show "((e, r, at e (h + 1), h + 1), e, p, r, h) \<in> measure (\<lambda>(e, p, r, h).
      2 * nat (int (length e) - h) + (if blank_opt p then 1 else 0) + (if blank_opt r then 1 else 0))"
    by (cases "blank_opt (at e (h + 1))") auto
qed simp

declare skip_white.simps [simp del]

lemma skip_white_ge: "h \<le> snd (snd (skip_white e p r h))"
proof (induction e p r h rule: skip_white.induct)
  case (1 e p r h)
  then show ?case by (subst skip_white.simps) auto
qed

text \<open>The local variables of \<open>QUt\<close>: the folds \<open>l\<close>, those of them that need a backslash \<open>u\<close>, the
  column at which to fold \<open>d\<close>, the last place to split \<open>f\<close>, the previous character \<open>p\<close>, whether a
  line overflowed \<open>m\<close>, the index \<open>h\<close> and the last escape \<open>g\<close> to \<open>_\<close>.\<close>

record fold_state =
  fs_folds :: "int list"
  fs_escaped :: "int list"
  fs_end :: int
  fs_split :: "int option"
  fs_prev :: "nat option"
  fs_overflow :: bool
  fs_i :: int
  fs_escStart :: int
  fs_escEnd :: int

definition escape_skip :: "nat option \<Rightarrow> int" where
  "escape_skip c = (if c = Some 120 then 3 else if c = Some 117 then 5 else if c = Some 85 then 9 else 1)"

text \<open>One round of the loop on the character \<open>r\<close> at the index; \<open>None\<close> when the text is returned as
  it is because the same fold would be escaped twice.\<close>

definition fold_white :: "nat option \<Rightarrow> bool" where
  "fold_white c \<longleftrightarrow> c = Some 32 \<or> c = Some LF \<or> c = Some 9"

definition fold_char :: "ustr \<Rightarrow> fold_mode \<Rightarrow> int \<Rightarrow> nat \<Rightarrow> fold_state \<Rightarrow> fold_state option" where
  "fold_char e mode c r st =
     (let h = fs_i st; p = fs_prev st;
          f = (if r = 32 \<and> p \<noteq> None \<and> \<not> fold_white p \<and> at e (h + 1) \<noteq> None \<and> \<not> fold_white (at e (h + 1))
               then Some h else fs_split st)
      in
      if h < fs_end st then Some (st\<lparr>fs_split := f, fs_prev := Some r\<rparr>)
      else if f \<noteq> None \<and> f \<noteq> Some 0 then
        Some (st\<lparr>fs_folds := fs_folds st @ [the f], fs_end := the f + c, fs_split := None, fs_prev := Some r\<rparr>)
      else if mode = FOLD_QUOTED then
        (let (p', r', h') = skip_white e p (Some r) h;
             t = (if h' > fs_escEnd st + 1 then h' - 2 else fs_escStart st - 1)
         in
         if t \<in> set (fs_escaped st) then None
         else Some (st\<lparr>fs_folds := fs_folds st @ [t], fs_escaped := fs_escaped st @ [t], fs_end := t + c,
                       fs_split := None, fs_prev := r', fs_i := h',
                       fs_overflow := fs_overflow st \<or> blank_opt p\<rparr>))
      else Some (st\<lparr>fs_split := f, fs_overflow := True, fs_prev := Some r\<rparr>))"

definition fold_step :: "ustr \<Rightarrow> int \<Rightarrow> fold_mode \<Rightarrow> int \<Rightarrow> nat \<Rightarrow> fold_state \<Rightarrow> fold_state option" where
  "fold_step e n mode c r st0 =
     (let st = (if mode = FOLD_QUOTED \<and> r = 92 then
                  (let h' = fs_i st0 + escape_skip (at e (fs_i st0 + 1))
                   in st0\<lparr>fs_escStart := fs_i st0, fs_i := h', fs_escEnd := h'\<rparr>)
                else st0)
      in
      if r = LF then
        (let h = (if mode = FOLD_BLOCK then consumeMoreIndentedLines e (fs_i st) n else fs_i st)
         in Some (st\<lparr>fs_i := h, fs_end := h + n + c, fs_split := None, fs_prev := Some r\<rparr>))
      else fold_char e mode c r st)"

lemma fold_char_i: "fold_char e mode c r st = Some st' \<Longrightarrow> fs_i st \<le> fs_i st'"
  using skip_white_ge [of "fs_i st" e "fs_prev st" "Some r"]
  by (auto simp: fold_char_def Let_def split_beta split: if_splits)

lemma fold_step_i: "fold_step e n mode c r st = Some st' \<Longrightarrow> fs_i st \<le> fs_i st'"
proof -
  assume s: "fold_step e n mode c r st = Some st'"
  let ?st = "if mode = FOLD_QUOTED \<and> r = 92 then
      (let h' = fs_i st + escape_skip (at e (fs_i st + 1)) in st\<lparr>fs_escStart := fs_i st, fs_i := h', fs_escEnd := h'\<rparr>) else st"
  have "fs_i st \<le> fs_i ?st" by (simp add: Let_def escape_skip_def)
  moreover have "fs_i ?st \<le> fs_i st'"
    using s fold_char_i [of e mode c r ?st st'] consumeMoreIndentedLines_ge [of "fs_i ?st" e n]
    unfolding fold_step_def Let_def by (auto split: if_splits)
  ultimately show ?thesis by simp
qed

text \<open>The loop. \<open>None\<close> when the text is returned unchanged.\<close>

function fold_loop :: "ustr \<Rightarrow> int \<Rightarrow> fold_mode \<Rightarrow> int \<Rightarrow> fold_state \<Rightarrow> fold_state option" where
  "fold_loop e n mode c st =
     (let st1 = st\<lparr>fs_i := fs_i st + 1\<rparr> in
      case at e (fs_i st + 1) of
        None \<Rightarrow> Some st1
      | Some r \<Rightarrow>
          (case fold_step e n mode c r st1 of
             None \<Rightarrow> None
           | Some st2 \<Rightarrow> fold_loop e n mode c st2))"
  by pat_completeness auto
termination
proof (relation "measure (\<lambda>(e, n, mode, c, st). nat (int (length e) - fs_i st))")
  fix e n mode c and st st1 st2 :: fold_state and r
  assume "st1 = st\<lparr>fs_i := fs_i st + 1\<rparr>" and "at e (fs_i st + 1) = Some r" and "fold_step e n mode c r st1 = Some st2"
  then have "fs_i st + 1 \<le> fs_i st2" "fs_i st + 1 < int (length e)"
    using fold_step_i [of e n mode c r st1 st2] at_Some by fastforce+
  then show "((e, n, mode, c, st2), e, n, mode, c, st) \<in> measure (\<lambda>(e, n, mode, c, st). nat (int (length e) - fs_i st))"
    by simp
qed simp

declare fold_loop.simps [simp del]

text \<open>Cutting the text at the folds: \<open>cuts\<close> are the folds from the current one on.\<close>

fun fold_pieces :: "ustr \<Rightarrow> ustr \<Rightarrow> int list \<Rightarrow> int list \<Rightarrow> ustr \<Rightarrow> ustr" where
  "fold_pieces e t escaped [] v = v"
| "fold_pieces e t escaped (i # cuts) v =
     (let a = (case cuts of [] \<Rightarrow> int (length e) | k # _ \<Rightarrow> if k = 0 then int (length e) else k) in
      fold_pieces e t escaped cuts
        (if i = 0 then [LF] @ t @ slice e 0 a
         else v @ (if i \<in> set escaped then (case at e i of None \<Rightarrow> u ''undefined'' | Some x \<Rightarrow> [x]) @ [92] else []) @
                [LF] @ t @ slice e (i + 1) a))"

record fold_options =
  fo_indentAtStart :: "int option"
  fo_lineWidth :: int
  fo_minContentWidth :: int

text \<open>\<open>QUt\<close>: the folded text, and whether \<open>onOverflow\<close> is called.\<close>

definition foldFlowLines :: "ustr \<Rightarrow> ustr \<Rightarrow> fold_mode \<Rightarrow> fold_options \<Rightarrow> ustr \<times> bool" where
  "foldFlowLines e t mode opt =
     (let i = fo_lineWidth opt; n = int (length t) in
      if i \<le> 0 then (e, False)
      else
        (let a = (if i < fo_minContentWidth opt then 0 else fo_minContentWidth opt);
             c = max (1 + a) (1 + i - n)
         in
         if int (length e) \<le> c then (e, False)
         else
           (let (l, d) = (case fo_indentAtStart opt of
                            None \<Rightarrow> ([], i - n)
                          | Some r \<Rightarrow> if r > i - max 2 a then ([0], i - n) else ([], i - r));
                h = (if mode = FOLD_BLOCK then consumeMoreIndentedLines e (- 1) n else - 1);
                st = \<lparr>fs_folds = l, fs_escaped = [], fs_end = (if h \<noteq> - 1 then h + c else d), fs_split = None,
                      fs_prev = None, fs_overflow = False, fs_i = h, fs_escStart = - 1, fs_escEnd = - 1\<rparr>
            in
            case fold_loop e n mode c st of
              None \<Rightarrow> (e, False)
            | Some st' \<Rightarrow>
                (case fs_folds st' of
                   [] \<Rightarrow> (e, fs_overflow st')
                 | k # _ \<Rightarrow>
                     (fold_pieces e t (fs_escaped st') (fs_folds st') (slice e 0 k), fs_overflow st')))))"

section \<open>Contexts and options\<close>

text \<open>The scalar types of \<open>H9\<close>; \<open>Other_type\<close> is any other value of the field.\<close>

datatype scalar_type = BLOCK_FOLDED | BLOCK_LITERAL | PLAIN | QUOTE_DOUBLE | QUOTE_SINGLE | Other_type string

datatype block_quote = BQ_true | BQ_false | BQ_literal | BQ_folded

record string_options =
  so_blockQuote :: block_quote
  so_commentString :: "ustr \<Rightarrow> ustr"
  so_defaultKeyType :: "scalar_type option"
  so_defaultStringType :: scalar_type
  so_doubleQuotedAsJSON :: bool
  so_doubleQuotedMinMultiLineLength :: int
  so_lineWidth :: int
  so_minContentWidth :: int
  so_singleQuote :: "bool option"

text \<open>The fields of the context that the string functions read. \<open>sc_tagged\<close> is the test of the
  document's schema for a plain string that a tag other than the string tag would take.\<close>

record string_ctx =
  sc_options :: string_options
  sc_indent :: ustr
  sc_indentStep :: ustr
  sc_indentAtStart :: "int option"
  sc_implicitKey :: bool
  sc_inFlow :: bool
  sc_forceBlockIndent :: bool
  sc_actualString :: bool
  sc_tagged :: "ustr \<Rightarrow> bool"

text \<open>\<open>uWt\<close>\<close>

definition default_options :: string_options where
  "default_options =
     \<lparr>so_blockQuote = BQ_true, so_commentString = stringifyComment, so_defaultKeyType = None,
      so_defaultStringType = PLAIN, so_doubleQuotedAsJSON = False, so_doubleQuotedMinMultiLineLength = 40,
      so_lineWidth = 80, so_minContentWidth = 20, so_singleQuote = None\<rparr>"

text \<open>\<open>eWt\<close>\<close>

definition getFoldOptions :: "string_ctx \<Rightarrow> bool \<Rightarrow> fold_options" where
  "getFoldOptions ctx isBlock =
     \<lparr>fo_indentAtStart = (if isBlock then Some (int (length (sc_indent ctx))) else sc_indentAtStart ctx),
      fo_lineWidth = so_lineWidth (sc_options ctx), fo_minContentWidth = so_minContentWidth (sc_options ctx)\<rparr>"

text \<open>\<open>tWt\<close>: some line starts with a directive or a document marker.\<close>

fun document_indicator :: "bool \<Rightarrow> ustr \<Rightarrow> bool" where
  "document_indicator bol [] = False"
| "document_indicator bol (c # r) =
     (bol \<and> (c = 37 \<or> take 3 (c # r) = [45, 45, 45] \<or> take 3 (c # r) = [46, 46, 46]) \<or>
      document_indicator (line_end c) r)"

definition containsDocumentMarker :: "ustr \<Rightarrow> bool" where
  "containsDocumentMarker s = document_indicator True s"

text \<open>\<open>nWt\<close>\<close>

fun over_limit :: "int \<Rightarrow> ustr \<Rightarrow> int \<Rightarrow> int \<Rightarrow> int \<Rightarrow> bool" where
  "over_limit len [] i start limit = True"
| "over_limit len (c # r) i start limit =
     (if c = LF then
        (if i - start > limit then True
         else if len - (i + 1) \<le> limit then False
         else over_limit len r (i + 1) (i + 1) limit)
      else over_limit len r (i + 1) start limit)"

definition lineLengthOverLimit :: "ustr \<Rightarrow> int \<Rightarrow> int \<Rightarrow> bool" where
  "lineLengthOverLimit s lineWidth indentLength =
     (if lineWidth \<le> 0 then False
      else if int (length s) \<le> lineWidth - indentLength then False
      else over_limit (int (length s)) s 0 0 (lineWidth - indentLength))"

section \<open>Double-quoted strings\<close>

text \<open>\<open>JSON.stringify\<close> of a string.\<close>

definition hex_char :: "nat \<Rightarrow> nat" where
  "hex_char d = (if d < 10 then 48 + d else 87 + d)"

definition hex4 :: "nat \<Rightarrow> ustr" where
  "hex4 c = map hex_char [c div 4096 mod 16, c div 256 mod 16, c div 16 mod 16, c mod 16]"

definition high_surrogate :: "nat \<Rightarrow> bool" where
  "high_surrogate c \<longleftrightarrow> 55296 \<le> c \<and> c \<le> 56319"

definition low_surrogate :: "nat \<Rightarrow> bool" where
  "low_surrogate c \<longleftrightarrow> 56320 \<le> c \<and> c \<le> 57343"

lemma surrogates_code [code]:
  "high_surrogate c \<longleftrightarrow> 55296 \<le> int c \<and> int c \<le> 56319"
  "low_surrogate c \<longleftrightarrow> 56320 \<le> int c \<and> int c \<le> 57343"
  by (auto simp: high_surrogate_def low_surrogate_def)

definition json_escapes :: "(nat, nat) gomap" where
  "json_escapes = [(8, 98), (9, 116), (10, 110), (12, 102), (13, 114), (34, 34), (92, 92)]"

definition json_char :: "nat \<Rightarrow> ustr" where
  "json_char c =
     (case map_of json_escapes c of
        Some d \<Rightarrow> [92, d]
      | None \<Rightarrow> if c < 32 \<or> high_surrogate c \<or> low_surrogate c then [92, 117] @ hex4 c else [c])"

fun json_chars :: "ustr \<Rightarrow> ustr" where
  "json_chars (c # d # r) =
     (if high_surrogate c \<and> low_surrogate d then c # d # json_chars r else json_char c @ json_chars (d # r))"
| "json_chars [c] = json_char c"
| "json_chars [] = []"

definition json_stringify :: "ustr \<Rightarrow> ustr" where
  "json_stringify s = [34] @ json_chars s @ [34]"

text \<open>The rewriting of the JSON text in \<open>rWt\<close>: an escape by its code, a run of line feeds.\<close>

definition short_codes :: "(ustr, nat) gomap" where
  "short_codes =
     [(u ''0000'', 48), (u ''0007'', 97), (u ''000b'', 118), (u ''001b'', 101), (u ''0085'', 78), (u ''00a0'', 95),
      (u ''2028'', 76), (u ''2029'', 80)]"

definition write_code :: "ustr \<Rightarrow> ustr" where
  "write_code code =
     (case map_of short_codes code of
        Some c \<Rightarrow> [92, c]
      | None \<Rightarrow> if take 2 code = [48, 48] then [92, 120] @ drop 2 code else [92, 117] @ code)"

fun newline_run :: "ustr \<Rightarrow> nat \<times> ustr" where
  "newline_run (a # b # z) =
     (if a = 92 \<and> b = 110 \<and> (z = [] \<or> hd z \<noteq> 34) then (let (k, r) = newline_run z in (Suc k, r))
      else (0, a # b # z))"
| "newline_run z = (0, z)"

lemma newline_run_length: "length (snd (newline_run z)) \<le> length z"
  by (induction z rule: newline_run.induct) (auto simp: split_beta)

text \<open>The loop of \<open>rWt\<close> over the JSON text from the index on. \<open>flat\<close>: line feeds stay escaped.\<close>

function dq_write :: "bool \<Rightarrow> ustr \<Rightarrow> ustr \<Rightarrow> ustr" where
  "dq_write flat ind xs =
     (case xs of
        [] \<Rightarrow> []
      | c # r \<Rightarrow>
          if c = 32 \<and> take 2 r = [92, 110] then [92, 32] @ dq_write flat ind r
          else if c = 92 then
            (case r of
               [] \<Rightarrow> [92]
             | d # r' \<Rightarrow>
                 if d = 117 then write_code (take 4 r') @ dq_write flat ind (drop 4 r')
                 else if d = 110 \<and> \<not> (flat \<or> r' \<noteq> [] \<and> hd r' = 34) then
                   [LF, LF] @ replicate (fst (newline_run r')) LF @ ind @
                     (if snd (newline_run r') \<noteq> [] \<and> hd (snd (newline_run r')) = 32 then [92] else []) @
                     dq_write flat ind (snd (newline_run r'))
                 else [92, d] @ dq_write flat ind r')
          else c # dq_write flat ind r)"
  by pat_completeness auto
termination
  by (relation "measure (\<lambda>(flat, ind, xs). length xs)")
    (auto simp: newline_run_length less_Suc_eq_le intro: le_trans [OF newline_run_length])

declare dq_write.simps [simp del]

definition block_indent :: "string_ctx \<Rightarrow> ustr \<Rightarrow> ustr" where
  "block_indent ctx s =
     (if sc_indent ctx \<noteq> [] then sc_indent ctx else if containsDocumentMarker s then [32, 32] else [])"

text \<open>\<open>rWt\<close>\<close>

definition doubleQuotedString :: "ustr \<Rightarrow> string_ctx \<Rightarrow> ustr" where
  "doubleQuotedString s ctx =
     (let n = json_stringify s; opt = sc_options ctx in
      if so_doubleQuotedAsJSON opt then n
      else
        (let a = block_indent ctx s;
             flat = (sc_implicitKey ctx \<or> int (length n) < so_doubleQuotedMinMultiLineLength opt);
             o' = dq_write flat a n
         in if sc_implicitKey ctx then o' else fst (foldFlowLines o' a FOLD_QUOTED (getFoldOptions ctx False))))"

section \<open>Single-quoted strings\<close>

text \<open>\<open>replace(/\n+/g, $& + ins)\<close> and \<open>replace(/\n+/g, ins + $&)\<close>\<close>

fun after_runs :: "ustr \<Rightarrow> ustr \<Rightarrow> ustr" where
  "after_runs ins [] = []"
| "after_runs ins (c # r) =
     c # (if c = LF \<and> (r = [] \<or> hd r \<noteq> LF) then ins else []) @ after_runs ins r"

fun before_runs :: "ustr \<Rightarrow> bool \<Rightarrow> ustr \<Rightarrow> ustr" where
  "before_runs ins lf [] = []"
| "before_runs ins lf (c # r) = (if c = LF \<and> \<not> lf then ins else []) @ c # before_runs ins (c = LF) r"

fun double_quotes :: "ustr \<Rightarrow> ustr" where
  "double_quotes [] = []"
| "double_quotes (c # r) = (if c = 39 then [39, 39] else [c]) @ double_quotes r"

text \<open>\<open>/[ \t]\n|\n[ \t]/\<close>\<close>

fun blank_at_break :: "ustr \<Rightarrow> bool" where
  "blank_at_break (c # d # r) = (blank c \<and> d = LF \<or> c = LF \<and> blank d \<or> blank_at_break (d # r))"
| "blank_at_break _ = False"

text \<open>\<open>iWt\<close>\<close>

definition singleQuotedString :: "ustr \<Rightarrow> string_ctx \<Rightarrow> ustr" where
  "singleQuotedString s ctx =
     (if so_singleQuote (sc_options ctx) = Some False \<or> sc_implicitKey ctx \<and> LF \<in> set s \<or> blank_at_break s
      then doubleQuotedString s ctx
      else
        (let ind = block_indent ctx s;
             r = [39] @ after_runs (LF # ind) (double_quotes s) @ [39]
         in if sc_implicitKey ctx then r else fst (foldFlowLines r ind FOLD_FLOW (getFoldOptions ctx False))))"

text \<open>\<open>aWt\<close>\<close>

definition quotedString :: "ustr \<Rightarrow> string_ctx \<Rightarrow> ustr" where
  "quotedString s ctx =
     (let single = so_singleQuote (sc_options ctx); hasDouble = (34 \<in> set s); hasSingle = (39 \<in> set s) in
      if single = Some False then doubleQuotedString s ctx
      else if hasDouble \<and> \<not> hasSingle then singleQuotedString s ctx
      else if hasSingle \<and> \<not> hasDouble then doubleQuotedString s ctx
      else if single = Some True then singleQuotedString s ctx
      else doubleQuotedString s ctx)"

section \<open>Block strings\<close>

record string_result =
  sr_text :: ustr
  sr_onComment :: bool
  sr_onChompKeep :: bool
  sr_forceBlockIndent :: bool

definition just :: "ustr \<Rightarrow> string_ctx \<Rightarrow> string_result" where
  "just t ctx =
     \<lparr>sr_text = t, sr_onComment = False, sr_onChompKeep = False, sr_forceBlockIndent = sc_forceBlockIndent ctx\<rparr>"

text \<open>\<open>oWt\<close>: a run of line feeds that does not end the text.\<close>

fun after_inner_runs :: "ustr \<Rightarrow> ustr \<Rightarrow> ustr" where
  "after_inner_runs ins [] = []"
| "after_inner_runs ins (c # r) =
     c # (if c = LF \<and> r \<noteq> [] \<and> hd r \<noteq> LF then ins else []) @ after_inner_runs ins r"

text \<open>\<open>replace(/ ?[\r\n]+/g, " ")\<close>\<close>

definition breaks :: "nat \<Rightarrow> bool" where
  "breaks c \<longleftrightarrow> c = LF \<or> c = CR"

function join_comment :: "ustr \<Rightarrow> ustr" where
  "join_comment s =
     (case s of
        [] \<Rightarrow> []
      | c # r \<Rightarrow>
          if c = 32 \<and> r \<noteq> [] \<and> breaks (hd r) \<or> breaks c then 32 # join_comment (dropWhile breaks r)
          else c # join_comment r)"
  by pat_completeness auto
termination
  by (relation "measure length") (auto simp: less_Suc_eq_le length_dropWhile_le)

declare join_comment.simps [simp del]

text \<open>\<open>replace(/(?:^|\n)([\t ].*)(?:([\n\t ]*)\n(?![\n\t ]))?/g, "$1$2")\<close>: a line that starts with a
  blank takes its own line feed with it; of the white space behind it one line feed is dropped when
  it ends in one.\<close>

definition indented_match :: "ustr \<Rightarrow> ustr \<times> ustr" where
  "indented_match g =
     (let line = takeWhile (\<lambda>c. \<not> line_end c) g; r1 = dropWhile (\<lambda>c. \<not> line_end c) g;
          w = takeWhile (\<lambda>c. c = LF \<or> blank c) r1; r2 = dropWhile (\<lambda>c. c = LF \<or> blank c) r1
      in if w \<noteq> [] \<and> last w = LF then (line @ butlast w, r2) else (line, r1))"

lemma indented_match_length:
  assumes "g \<noteq> []" and "blank (hd g)"
  shows "length (snd (indented_match g)) < length g"
proof -
  obtain c r where g: "g = c # r" "blank c" using assms by (cases g) auto
  then have "\<not> line_end c" by (auto simp: blank_def line_end_def)
  then have "length (dropWhile (\<lambda>c. \<not> line_end c) g) \<le> length r" using g by (simp add: length_dropWhile_le)
  moreover have "length (dropWhile (\<lambda>c. c = LF \<or> blank c) x) \<le> length x" for x by (rule length_dropWhile_le)
  ultimately show ?thesis using g le_trans by (fastforce simp: indented_match_def Let_def less_Suc_eq_le)
qed

function unfold_indented :: "bool \<Rightarrow> ustr \<Rightarrow> ustr" where
  "unfold_indented start s =
     (case s of
        [] \<Rightarrow> []
      | c # r \<Rightarrow>
          if start \<and> blank c then fst (indented_match s) @ unfold_indented False (snd (indented_match s))
          else if c = LF \<and> r \<noteq> [] \<and> blank (hd r) then fst (indented_match r) @ unfold_indented False (snd (indented_match r))
          else c # unfold_indented False r)"
  by pat_completeness auto
termination
proof (relation "measure (\<lambda>(start, s). length s)")
  show "((False, snd (indented_match s)), start, s) \<in> measure (\<lambda>(start, s). length s)"
    if "s = c # r" "start \<and> blank c" for start s c r
    using that indented_match_length [of s] by simp
  show "((False, snd (indented_match r)), start, s) \<in> measure (\<lambda>(start, s). length s)"
    if "s = c # r" "c = LF \<and> r \<noteq> [] \<and> blank (hd r)" for start s c r
    using that indented_match_length [of r] by simp
qed simp_all

declare unfold_indented.simps [simp del]

text \<open>The parts of \<open>sWt\<close>: the white space at the end with its chomping indicator, the one at the
  start.\<close>

definition trailing_white :: "ustr \<Rightarrow> ustr" where
  "trailing_white n = rev (takeWhile (\<lambda>c. c = LF \<or> blank c) (rev n))"

definition chomp_indicator :: "ustr \<Rightarrow> ustr \<Rightarrow> ustr" where
  "chomp_indicator n p =
     (if LF \<notin> set p then [45]
      else if n = p \<or> length (takeWhile (\<lambda>c. c \<noteq> LF) p) \<noteq> length p - 1 then [43]
      else [])"

definition leading_white :: "ustr \<Rightarrow> ustr" where
  "leading_white n = takeWhile (\<lambda>c. c = 32 \<or> c = LF) n"

definition leading_lines :: "ustr \<Rightarrow> ustr" where
  "leading_lines n = rev (dropWhile (\<lambda>c. c \<noteq> LF) (rev (leading_white n)))"

text \<open>\<open>sWt\<close>\<close>

definition is_literal :: "scalar_type option \<Rightarrow> ustr \<Rightarrow> string_options \<Rightarrow> ustr \<Rightarrow> bool" where
  "is_literal ty n opt l =
     (if so_blockQuote opt = BQ_literal then True
      else if so_blockQuote opt = BQ_folded \<or> ty = Some BLOCK_FOLDED then False
      else if ty = Some BLOCK_LITERAL then True
      else \<not> lineLengthOverLimit n (so_lineWidth opt) (int (length l)))"

definition blockString :: "ustr option \<Rightarrow> scalar_type option \<Rightarrow> ustr \<Rightarrow> string_ctx \<Rightarrow> string_result" where
  "blockString comment ty value ctx =
     (let opt = sc_options ctx in
      if so_blockQuote opt = BQ_false \<or>
         (let r = dropWhile blank (rev value) in length r < length value \<and> r \<noteq> [] \<and> hd r = LF)
      then just (quotedString value ctx) ctx
      else
        (let l = (if sc_indent ctx \<noteq> [] then sc_indent ctx
                  else if sc_forceBlockIndent ctx \<or> containsDocumentMarker value then [32, 32] else []);
             literal = is_literal ty value opt l
         in
         if value = [] then just (if literal then [124, LF] else [62, LF]) ctx
         else
           (let p0 = trailing_white value;
                chomp = chomp_indicator value p0;
                n0 = take (length value - length p0) value;
                p1 = (if p0 \<noteq> [] \<and> last p0 = LF then butlast p0 else p0);
                p = after_inner_runs l p1;
                h = (32 \<in> set (leading_white n0));
                v0 = leading_lines n0;
                n = drop (length v0) n0;
                v = after_runs l v0;
                com = (case comment of None \<Rightarrow> [] | Some c \<Rightarrow> c);
                y = (if h then (if l \<noteq> [] then [50] else [49]) else []) @ chomp @
                    (if com \<noteq> [] then 32 # so_commentString opt (join_comment com) else []);
                e = after_runs l (unfold_indented True (before_runs [LF] False n));
                (folded, over) = foldFlowLines (v @ e @ p) l FOLD_BLOCK (getFoldOptions ctx True);
                overflow = (over \<and> so_blockQuote opt \<noteq> BQ_folded \<and> ty \<noteq> Some BLOCK_FOLDED)
            in
            \<lparr>sr_text =
               (if \<not> literal \<and> \<not> overflow then [62] @ y @ [LF] @ l @ folded
                else [124] @ y @ [LF] @ l @ v @ after_runs l n @ p),
             sr_onComment = (com \<noteq> []),
             sr_onChompKeep = (chomp = [43]),
             sr_forceBlockIndent = sc_forceBlockIndent ctx\<rparr>)))"

section \<open>Plain strings and the choice of the style\<close>

text \<open>The regular expression of \<open>cWt\<close> for strings that cannot be plain: the first character, a lone
  or separated \<open>?\<close> or \<open>-\<close>, a pair of characters, the last character.\<close>

definition white_char :: "nat \<Rightarrow> bool" where
  "white_char c \<longleftrightarrow> c = LF \<or> blank c"

definition bad_pair :: "nat \<Rightarrow> nat \<Rightarrow> bool" where
  "bad_pair c d \<longleftrightarrow> (c = LF \<or> c = 58) \<and> blank d \<or> blank c \<and> d = LF \<or> white_char c \<and> d = 35"

fun bad_pairs :: "ustr \<Rightarrow> bool" where
  "bad_pairs (c # d # r) = (bad_pair c d \<or> bad_pairs (d # r))"
| "bad_pairs _ = False"

definition plain_indicators :: "nat set" where
  "plain_indicators = {LF, 9, 32} \<union> set (u '',[]{}#&*!|>%@`'') \<union> {39, 34}"

definition cannot_be_plain :: "ustr \<Rightarrow> bool" where
  "cannot_be_plain s =
     (case s of
        [] \<Rightarrow> False
      | c # r \<Rightarrow>
          c \<in> plain_indicators \<or>
          (c = 63 \<or> c = 45) \<and> (r = [] \<or> blank (hd r)) \<or>
          bad_pairs s \<or> white_char (last s) \<or> last s = 58)"

text \<open>\<open>cWt\<close>\<close>

definition plainString :: "ustr option \<Rightarrow> scalar_type option \<Rightarrow> ustr \<Rightarrow> string_ctx \<Rightarrow> string_result" where
  "plainString comment ty value ctx =
     (let key = sc_implicitKey ctx; flow = sc_inFlow ctx; quoted = just (quotedString value ctx) ctx in
      if key \<and> LF \<in> set value \<or> flow \<and> (\<exists>c\<in>set value. c \<in> {91, 93, 123, 125, 44}) then quoted
      else if cannot_be_plain value then
        (if key \<or> flow \<or> LF \<notin> set value then quoted else blockString comment ty value ctx)
      else if \<not> key \<and> \<not> flow \<and> ty \<noteq> Some PLAIN \<and> LF \<in> set value then blockString comment ty value ctx
      else if containsDocumentMarker value \<and> sc_indent ctx = [] then
        blockString comment ty value (ctx\<lparr>sc_forceBlockIndent := True\<rparr>)
      else if containsDocumentMarker value \<and> key \<and> sc_indent ctx = sc_indentStep ctx then quoted
      else
        (let d = after_runs (LF # sc_indent ctx) value in
         if sc_actualString ctx \<and> sc_tagged ctx d then quoted
         else if key then just d ctx
         else just (fst (foldFlowLines d (sc_indent ctx) FOLD_FLOW (getFoldOptions ctx False))) ctx))"

text \<open>The characters that force double quotes: controls, and surrogates that are not in a pair.\<close>

definition control :: "nat \<Rightarrow> bool" where
  "control c \<longleftrightarrow> c \<le> 8 \<or> 11 \<le> c \<and> c \<le> 31 \<or> 127 \<le> c \<and> c \<le> 159"

fun unprintable :: "ustr \<Rightarrow> bool" where
  "unprintable (c # d # r) =
     (if high_surrogate c \<and> low_surrogate d then unprintable r
      else control c \<or> high_surrogate c \<or> low_surrogate c \<or> unprintable (d # r))"
| "unprintable [c] = (control c \<or> high_surrogate c \<or> low_surrogate c)"
| "unprintable [] = False"

text \<open>\<open>lWt\<close>\<close>

definition as_type :: "ustr option \<Rightarrow> scalar_type option \<Rightarrow> ustr \<Rightarrow> string_ctx \<Rightarrow> scalar_type option \<Rightarrow> string_result option" where
  "as_type comment ty value ctx style =
     (case style of
        Some BLOCK_FOLDED \<Rightarrow>
          Some (if sc_implicitKey ctx \<or> sc_inFlow ctx then just (quotedString value ctx) ctx
                else blockString comment ty value ctx)
      | Some BLOCK_LITERAL \<Rightarrow>
          Some (if sc_implicitKey ctx \<or> sc_inFlow ctx then just (quotedString value ctx) ctx
                else blockString comment ty value ctx)
      | Some QUOTE_DOUBLE \<Rightarrow> Some (just (doubleQuotedString value ctx) ctx)
      | Some QUOTE_SINGLE \<Rightarrow> Some (just (singleQuotedString value ctx) ctx)
      | Some PLAIN \<Rightarrow> Some (plainString comment ty value ctx)
      | _ \<Rightarrow> None)"

definition default_style :: "string_ctx \<Rightarrow> scalar_type" where
  "default_style ctx =
     (case so_defaultKeyType (sc_options ctx) of
        Some t \<Rightarrow> if sc_implicitKey ctx then t else so_defaultStringType (sc_options ctx)
      | None \<Rightarrow> so_defaultStringType (sc_options ctx))"

definition stringifyString :: "ustr option \<Rightarrow> scalar_type option \<Rightarrow> ustr \<Rightarrow> string_ctx \<Rightarrow> string_result option" where
  "stringifyString comment ty value ctx =
     (let s = (if ty \<noteq> Some QUOTE_DOUBLE \<and> unprintable value then Some QUOTE_DOUBLE else ty) in
      case as_type comment ty value ctx s of
        Some r \<Rightarrow> Some r
      | None \<Rightarrow> as_type comment ty value ctx (Some (default_style ctx)))"

end
