(* ===== verification/YamlCompose.thy ===== *)
theory YamlCompose
  imports YamlLexer
begin

text \<open>
  \<open>internal/ui/assets/assets/index-DHyr8oiy.js\<close>, lines 207 to 210 and 229: the helpers the YAML
  composer of the web UI calls on the tokens of the syntax tree. \<open>NGt\<close> reads the properties in
  front of a node, \<open>BGt\<close> what follows a node, \<open>PGt\<close> whether a node spans lines, \<open>FGt\<close> the
  indentation of the end of a flow collection, and \<open>YGt\<close> a flow scalar with its end.

  The error callback is the list of the reported errors with their offset, in the order of the
  calls; the calls with a true fourth argument are warnings, in a list of their own.
\<close>

section \<open>The syntax tree\<close>

record src_token =
  st_type :: token_type
  st_offset :: int
  st_indent :: int
  st_source :: ustr

text \<open>\<open>Flow\<close> is an alias or a flow scalar: its type, offset, indentation, source and end.\<close>

datatype cst =
    Flow token_type int int ustr "src_token list option"
  | BlockScalar int int "src_token list" ustr
  | BlockMap int int "item list"
  | BlockSeq int int "item list"
  | FlowCollection int int src_token "item list" "src_token list"
and item = Item "src_token list" "cst option" "src_token list option" "cst option"

datatype node_type = NT_token token_type | NT_block_scalar | NT_block_map | NT_block_seq | NT_flow_collection

fun cst_type :: "cst \<Rightarrow> node_type" where
  "cst_type (Flow t _ _ _ _) = NT_token t"
| "cst_type (BlockScalar _ _ _ _) = NT_block_scalar"
| "cst_type (BlockMap _ _ _) = NT_block_map"
| "cst_type (BlockSeq _ _ _) = NT_block_seq"
| "cst_type (FlowCollection _ _ _ _ _) = NT_flow_collection"

section \<open>The properties in front of a node\<close>

text \<open>The token behind the properties, of which \<open>NGt\<close> reads the type, the source and the offset.\<close>

record next_token =
  nt_type :: node_type
  nt_source :: ustr
  nt_offset :: int

record props_args =
  pa_flow :: bool
  pa_indicator :: token_type
  pa_next :: "next_token option"
  pa_offset :: int
  pa_parentIndent :: int
  pa_startOnNewline :: bool

record props =
  ps_spaceBefore :: bool
  ps_atNewline :: bool
  ps_hasSpace :: bool
  ps_comment :: ustr
  ps_commentSep :: ustr
  ps_hasNewline :: bool
  ps_reqSpace :: bool
  ps_tab :: "src_token option"
  ps_anchor :: "src_token option"
  ps_tag :: "src_token option"
  ps_newlineAfterProp :: "src_token option"
  ps_comma :: "src_token option"
  ps_found :: "src_token option"
  ps_start :: "int option"
  ps_errors :: "yerr list"
  ps_warnings :: "yerr list"

definition props_error :: "int \<Rightarrow> err_code \<Rightarrow> props \<Rightarrow> props" where
  "props_error off code s = s\<lparr>ps_errors := ps_errors s @ [(off, code)]\<rparr>"

definition error_if :: "bool \<Rightarrow> int \<Rightarrow> err_code \<Rightarrow> props \<Rightarrow> props" where
  "error_if b off code s = (if b then props_error off code s else s)"

definition set_start :: "int \<Rightarrow> props \<Rightarrow> props" where
  "set_start off s = s\<lparr>ps_start := (case ps_start s of None \<Rightarrow> Some off | Some x \<Rightarrow> Some x)\<rparr>"

text \<open>\<open>e.substring(1)||` `\<close>\<close>

definition comment_text :: "ustr \<Rightarrow> ustr" where
  "comment_text src = (if tl src = [] then [32] else tl src)"

text \<open>The two assignments in the head of the \<open>switch\<close>.\<close>

definition props_pending :: "src_token \<Rightarrow> props \<Rightarrow> props" where
  "props_pending i s =
     (let s = (if ps_reqSpace s
               then (error_if (st_type i \<notin> {TT_space, TT_newline, TT_comma}) (st_offset i) MISSING_CHAR s)\<lparr>ps_reqSpace := False\<rparr>
               else s)
      in case ps_tab s of
           None \<Rightarrow> s
         | Some h \<Rightarrow>
             (error_if (ps_atNewline s \<and> st_type i \<notin> {TT_comment, TT_newline}) (st_offset h) TAB_AS_INDENT s)\<lparr>ps_tab := None\<rparr>)"

definition props_space :: "props_args \<Rightarrow> src_token \<Rightarrow> props \<Rightarrow> props" where
  "props_space a i s =
     (let flow_next = (case pa_next a of None \<Rightarrow> False | Some r \<Rightarrow> nt_type r = NT_flow_collection);
          s = (if \<not> pa_flow a \<and> (pa_indicator a \<noteq> TT_doc_start \<or> \<not> flow_next) \<and> 9 \<in> set (st_source i)
               then s\<lparr>ps_tab := Some i\<rparr> else s)
      in s\<lparr>ps_hasSpace := True\<rparr>)"

definition props_comment :: "src_token \<Rightarrow> props \<Rightarrow> props" where
  "props_comment i s =
     (let s = error_if (\<not> ps_hasSpace s) (st_offset i) MISSING_CHAR s; e = comment_text (st_source i) in
      s\<lparr>ps_comment := (if ps_comment s \<noteq> [] then ps_comment s @ ps_commentSep s @ e else e),
        ps_commentSep := [], ps_atNewline := False\<rparr>)"

definition props_newline :: "props_args \<Rightarrow> src_token \<Rightarrow> props \<Rightarrow> props" where
  "props_newline a i s =
     (let s = (if ps_atNewline s then
                 (if ps_comment s \<noteq> [] then s\<lparr>ps_comment := ps_comment s @ st_source i\<rparr>
                  else if ps_found s = None \<or> pa_indicator a \<noteq> TT_seq_item_ind then s\<lparr>ps_spaceBefore := True\<rparr>
                  else s)
               else s\<lparr>ps_commentSep := ps_commentSep s @ st_source i\<rparr>);
          s = s\<lparr>ps_atNewline := True, ps_hasNewline := True\<rparr>;
          s = (if ps_anchor s \<noteq> None \<or> ps_tag s \<noteq> None then s\<lparr>ps_newlineAfterProp := Some i\<rparr> else s)
      in s\<lparr>ps_hasSpace := True\<rparr>)"

definition props_anchor :: "src_token \<Rightarrow> props \<Rightarrow> props" where
  "props_anchor i s =
     (let s = error_if (ps_anchor s \<noteq> None) (st_offset i) MULTIPLE_ANCHORS s;
          s = (if st_source i \<noteq> [] \<and> last (st_source i) = 58
               then s\<lparr>ps_warnings := ps_warnings s @ [(st_offset i + int (length (st_source i)) - 1, BAD_ALIAS)]\<rparr> else s)
      in set_start (st_offset i)
           (s\<lparr>ps_anchor := Some i, ps_atNewline := False, ps_hasSpace := False, ps_reqSpace := True\<rparr>))"

definition props_tag :: "src_token \<Rightarrow> props \<Rightarrow> props" where
  "props_tag i s =
     set_start (st_offset i)
       ((error_if (ps_tag s \<noteq> None) (st_offset i) MULTIPLE_TAGS s)
          \<lparr>ps_tag := Some i, ps_atNewline := False, ps_hasSpace := False, ps_reqSpace := True\<rparr>)"

definition props_indicator :: "props_args \<Rightarrow> src_token \<Rightarrow> props \<Rightarrow> props" where
  "props_indicator a i s =
     (let s = error_if (ps_anchor s \<noteq> None \<or> ps_tag s \<noteq> None) (st_offset i) BAD_PROP_ORDER s;
          s = error_if (ps_found s \<noteq> None) (st_offset i) UNEXPECTED_TOKEN s
      in s\<lparr>ps_found := Some i, ps_hasSpace := False,
           ps_atNewline := (pa_indicator a = TT_seq_item_ind \<or> pa_indicator a = TT_explicit_key_ind)\<rparr>)"

definition props_comma :: "src_token \<Rightarrow> props \<Rightarrow> props" where
  "props_comma i s =
     (error_if (ps_comma s \<noteq> None) (st_offset i) UNEXPECTED_TOKEN s)
       \<lparr>ps_comma := Some i, ps_atNewline := False, ps_hasSpace := False\<rparr>"

definition props_unexpected :: "src_token \<Rightarrow> props \<Rightarrow> props" where
  "props_unexpected i s = (props_error (st_offset i) UNEXPECTED_TOKEN s)\<lparr>ps_atNewline := False, ps_hasSpace := False\<rparr>"

definition props_step :: "props_args \<Rightarrow> src_token \<Rightarrow> props \<Rightarrow> props" where
  "props_step a i s =
     (let s = props_pending i s in
      if st_type i = TT_space then props_space a i s
      else if st_type i = TT_comment then props_comment i s
      else if st_type i = TT_newline then props_newline a i s
      else if st_type i = TT_anchor then props_anchor i s
      else if st_type i = TT_tag then props_tag i s
      else if st_type i = pa_indicator a then props_indicator a i s
      else if st_type i = TT_comma \<and> pa_flow a then props_comma i s
      else props_unexpected i s)"

definition props_init :: "props_args \<Rightarrow> props" where
  "props_init a =
     \<lparr>ps_spaceBefore = False, ps_atNewline = pa_startOnNewline a, ps_hasSpace = pa_startOnNewline a,
      ps_comment = [], ps_commentSep = [], ps_hasNewline = False, ps_reqSpace = False, ps_tab = None,
      ps_anchor = None, ps_tag = None, ps_newlineAfterProp = None, ps_comma = None, ps_found = None,
      ps_start = None, ps_errors = [], ps_warnings = []\<rparr>"

text \<open>The checks behind the loop, on the token that follows the properties.\<close>

definition props_next :: "props_args \<Rightarrow> props \<Rightarrow> props" where
  "props_next a s =
     (case pa_next a of
        None \<Rightarrow> s
      | Some r \<Rightarrow>
          error_if (ps_reqSpace s \<and> nt_type r \<notin> NT_token ` {TT_space, TT_newline, TT_comma} \<and>
                    (nt_type r \<noteq> NT_token TT_scalar \<or> nt_source r \<noteq> []))
            (nt_offset r) MISSING_CHAR s)"

definition props_last_tab :: "props_args \<Rightarrow> props \<Rightarrow> props" where
  "props_last_tab a s =
     (case ps_tab s of
        None \<Rightarrow> s
      | Some h \<Rightarrow>
          error_if (ps_atNewline s \<and> st_indent h \<le> pa_parentIndent a \<or>
                    (case pa_next a of None \<Rightarrow> False | Some r \<Rightarrow> nt_type r = NT_block_map \<or> nt_type r = NT_block_seq))
            (st_offset h) TAB_AS_INDENT s)"

definition token_end :: "src_token \<Rightarrow> int" where
  "token_end t = st_offset t + int (length (st_source t))"

text \<open>\<open>NGt\<close>: the properties, with the offset of their end and of the first anchor or tag.\<close>

definition resolveProps :: "src_token list \<Rightarrow> props_args \<Rightarrow> props \<times> int \<times> int" where
  "resolveProps ts a =
     (let s = props_last_tab a (props_next a (fold (props_step a) ts (props_init a)));
          e = (if ts = [] then pa_offset a else token_end (last ts))
      in (s, e, case ps_start s of None \<Rightarrow> e | Some x \<Rightarrow> x))"

section \<open>The end of a node\<close>

record end_state =
  es_comment :: ustr
  es_offset :: int
  es_hasSpace :: bool
  es_commentSep :: ustr
  es_errors :: "yerr list"

definition end_step :: "bool \<Rightarrow> src_token \<Rightarrow> end_state \<Rightarrow> end_state" where
  "end_step reqSpace t s =
     (let src = st_source t;
          s' = (case st_type t of
                  TT_space \<Rightarrow> s\<lparr>es_hasSpace := True\<rparr>
                | TT_comment \<Rightarrow>
                    s\<lparr>es_errors := es_errors s @ (if reqSpace \<and> \<not> es_hasSpace s then [(st_offset t, MISSING_CHAR)] else []),
                      es_comment := (if es_comment s \<noteq> [] then es_comment s @ es_commentSep s @ comment_text src
                                     else comment_text src),
                      es_commentSep := []\<rparr>
                | TT_newline \<Rightarrow>
                    s\<lparr>es_commentSep := (if es_comment s \<noteq> [] then es_commentSep s @ src else es_commentSep s),
                      es_hasSpace := True\<rparr>
                | _ \<Rightarrow> s\<lparr>es_errors := es_errors s @ [(st_offset t, UNEXPECTED_TOKEN)]\<rparr>)
      in s'\<lparr>es_offset := es_offset s' + int (length src)\<rparr>)"

text \<open>\<open>BGt\<close>: the comment, the offset behind the tokens and the errors.\<close>

definition resolveEnd :: "src_token list option \<Rightarrow> int \<Rightarrow> bool \<Rightarrow> ustr \<times> int \<times> yerr list" where
  "resolveEnd ts off reqSpace =
     (let s = fold (end_step reqSpace) (case ts of None \<Rightarrow> [] | Some ts \<Rightarrow> ts)
                \<lparr>es_comment = [], es_offset = off, es_hasSpace = False, es_commentSep = [], es_errors = []\<rparr>
      in (es_comment s, es_offset s, es_errors s))"

section \<open>Line breaks and the indentation of flow collections\<close>

definition has_newline :: "src_token list \<Rightarrow> bool" where
  "has_newline ts = (\<exists>t\<in>set ts. st_type t = TT_newline)"

definition opt_newline :: "src_token list option \<Rightarrow> bool" where
  "opt_newline ts = (case ts of None \<Rightarrow> False | Some ts \<Rightarrow> has_newline ts)"

text \<open>\<open>PGt\<close>\<close>

fun containsNewline :: "cst \<Rightarrow> bool"
  and item_newline :: "item \<Rightarrow> bool" where
  "containsNewline (Flow t off ind src e) =
     (if t \<in> {TT_alias, TT_scalar, TT_double_quoted, TT_single_quoted} then LF \<in> set src \<or> opt_newline e else True)"
| "containsNewline (FlowCollection off ind st items e) = list_ex item_newline items"
| "containsNewline (BlockScalar off ind ps src) = True"
| "containsNewline (BlockMap off ind items) = True"
| "containsNewline (BlockSeq off ind items) = True"
| "item_newline (Item st key sep val) =
     (has_newline st \<or> opt_newline sep \<or>
      (case key of None \<Rightarrow> False | Some k \<Rightarrow> containsNewline k) \<or>
      (case val of None \<Rightarrow> False | Some v \<Rightarrow> containsNewline v))"

text \<open>\<open>FGt\<close>: the warning on the first end token of a flow collection. A collection with no end token
  makes the code read a field of \<open>undefined\<close>, which throws.\<close>

definition flowIndentCheck :: "int \<Rightarrow> cst option \<Rightarrow> yerr list option" where
  "flowIndentCheck indent fc =
     (case fc of
        Some (FlowCollection off ind st items e) \<Rightarrow>
          (case e of
             [] \<Rightarrow> None
           | r # _ \<Rightarrow>
               Some (if st_indent r = indent \<and> (st_source r = [93] \<or> st_source r = [125]) \<and>
                        containsNewline (FlowCollection off ind st items e)
                     then [(st_offset r, BAD_INDENT)] else []))
      | _ \<Rightarrow> Some [])"

section \<open>Flow scalars\<close>

datatype flow_style = FS_plain | FS_single | FS_double

record resolved =
  rs_value :: ustr
  rs_type :: "flow_style option"
  rs_comment :: ustr
  rs_range :: "int \<times> int \<times> int"
  rs_errors :: "yerr list"

definition shift :: "int \<Rightarrow> yerr list \<Rightarrow> yerr list" where
  "shift off es = map (\<lambda>(o', c). (off + o', c)) es"

text \<open>The \<open>switch\<close> of \<open>YGt\<close>: the style, and the value with its errors; the inner \<open>None\<close> is a throw.\<close>

definition flow_value :: "token_type \<Rightarrow> ustr \<Rightarrow> (flow_style \<times> (ustr \<times> yerr list) option) option" where
  "flow_value t src =
     (case t of
        TT_scalar \<Rightarrow> Some (FS_plain, Some (plainValue src))
      | TT_single_quoted \<Rightarrow> Some (FS_single, Some (singleQuotedValue src))
      | TT_double_quoted \<Rightarrow> Some (FS_double, doubleQuotedValue src)
      | _ \<Rightarrow> None)"

definition resolveFlowScalar ::
    "token_type \<Rightarrow> int \<Rightarrow> ustr \<Rightarrow> src_token list option \<Rightarrow> bool \<Rightarrow> resolved option" where
  "resolveFlowScalar t off src e strict =
     (let valueEnd = off + int (length src) in
      case flow_value t src of
        None \<Rightarrow>
          Some \<lparr>rs_value = [], rs_type = None, rs_comment = [], rs_range = (off, valueEnd, valueEnd),
                rs_errors = [(off, UNEXPECTED_TOKEN)]\<rparr>
      | Some (style, v) \<Rightarrow>
          (case v of
             None \<Rightarrow> None
           | Some (value, es) \<Rightarrow>
               (case resolveEnd e valueEnd strict of
                  (comment, endOff, es') \<Rightarrow>
                    Some \<lparr>rs_value = value, rs_type = Some style, rs_comment = comment,
                          rs_range = (off, valueEnd, endOff), rs_errors = shift off es @ es'\<rparr>)))"

section \<open>What the end of a node yields\<close>

definition is_comment :: "src_token \<Rightarrow> bool" where
  "is_comment t \<longleftrightarrow> st_type t = TT_comment"

text \<open>The tokens from the first comment to the last one, and what each adds to the text.\<close>

definition commented :: "src_token list \<Rightarrow> src_token list" where
  "commented ts = rev (dropWhile (\<lambda>t. \<not> is_comment t) (rev (dropWhile (\<lambda>t. \<not> is_comment t) ts)))"

definition comment_piece :: "src_token \<Rightarrow> ustr" where
  "comment_piece t =
     (if st_type t = TT_comment then comment_text (st_source t) else if st_type t = TT_newline then st_source t else [])"

definition comment_of :: "src_token list \<Rightarrow> ustr" where
  "comment_of ts = concat (map comment_piece (commented ts))"

definition trailing_breaks :: "src_token list \<Rightarrow> ustr" where
  "trailing_breaks ts =
     (if \<exists>t\<in>set ts. is_comment t
      then concat (map comment_piece (rev (takeWhile (\<lambda>t. \<not> is_comment t) (rev ts)))) else [])"

lemma comment_text_nonempty [simp]: "comment_text s \<noteq> []"
  by (simp add: comment_text_def)

lemma dropWhile_rev_snoc:
  "dropWhile P (rev (dropWhile P (ts @ [t]))) =
     (if P t then dropWhile P (rev (dropWhile P ts)) else t # rev (dropWhile P ts))"
proof (cases "\<forall>x\<in>set ts. P x")
  case True
  then have "dropWhile P ts = []" by (simp add: dropWhile_eq_Nil_conv)
  then show ?thesis using True by (simp add: dropWhile_append del: dropWhile_eq_Nil_conv)
qed (auto simp: dropWhile_append)

lemma comment_of_snoc:
  "comment_of (ts @ [t]) =
     (if is_comment t then comment_of ts @ trailing_breaks ts @ comment_text (st_source t) else comment_of ts)"
proof (cases "\<exists>t\<in>set ts. is_comment t")
  case True
  let ?P = "\<lambda>t. \<not> is_comment t"
  have "takeWhile ?P (rev (dropWhile ?P ts)) = takeWhile ?P (rev ts)"
  proof -
    have "\<exists>x\<in>set (dropWhile ?P ts). \<not> ?P x"
      using True by (metis (mono_tags) set_takeWhileD takeWhile_dropWhile_id in_set_conv_decomp Un_iff set_append)
    then show ?thesis
      by (metis (no_types, lifting) rev_append set_rev takeWhile_append1 takeWhile_dropWhile_id)
  qed
  then have "rev (dropWhile ?P ts) = takeWhile ?P (rev ts) @ dropWhile ?P (rev (dropWhile ?P ts))"
    by (metis takeWhile_dropWhile_id)
  then have "dropWhile ?P ts = rev (dropWhile ?P (rev (dropWhile ?P ts))) @ rev (takeWhile ?P (rev ts))"
    by (metis rev_append rev_rev_ident)
  then have "concat (map comment_piece (dropWhile ?P ts)) = comment_of ts @ trailing_breaks ts"
    using True by (metis comment_of_def commented_def trailing_breaks_def concat_append map_append)
  then show ?thesis
    by (auto simp: comment_of_def commented_def dropWhile_rev_snoc comment_piece_def is_comment_def)
next
  case False
  then have "dropWhile (\<lambda>t. \<not> is_comment t) ts = []" by (simp add: dropWhile_eq_Nil_conv)
  then show ?thesis using False
    by (simp add: comment_of_def commented_def dropWhile_rev_snoc trailing_breaks_def comment_piece_def del: dropWhile_eq_Nil_conv)
      (simp add: is_comment_def)
qed

lemma trailing_breaks_snoc:
  "trailing_breaks (ts @ [t]) =
     (if is_comment t then [] else if \<exists>t\<in>set ts. is_comment t then trailing_breaks ts @ comment_piece t else [])"
  by (auto simp: trailing_breaks_def)

lemma comment_of_empty: "comment_of ts = [] \<longleftrightarrow> \<not> (\<exists>t\<in>set ts. is_comment t)"
proof (induction ts rule: rev_induct)
  case Nil
  show ?case by (simp add: comment_of_def commented_def)
qed (auto simp: comment_of_snoc)

definition spaced :: "src_token list \<Rightarrow> bool" where
  "spaced ts = (\<exists>t\<in>set ts. st_type t = TT_space \<or> st_type t = TT_newline)"

lemma end_fold:
  assumes s: "s = \<lparr>es_comment = [], es_offset = off, es_hasSpace = False, es_commentSep = [], es_errors = []\<rparr>"
  shows "es_comment (fold (end_step r) ts s) = comment_of ts \<and>
    es_commentSep (fold (end_step r) ts s) = trailing_breaks ts \<and>
    es_hasSpace (fold (end_step r) ts s) = spaced ts \<and>
    es_offset (fold (end_step r) ts s) = off + int (length (concat (map st_source ts)))"
proof (induction ts rule: rev_induct)
  case Nil
  show ?case by (simp add: s comment_of_def commented_def trailing_breaks_def spaced_def)
next
  case (snoc t ts)
  have e: "comment_of ts \<noteq> [] \<longleftrightarrow> (\<exists>t\<in>set ts. is_comment t)" by (simp add: comment_of_empty)
  show ?case
    using snoc e
    by (cases "st_type t")
      (auto simp: end_step_def comment_of_snoc trailing_breaks_snoc is_comment_def comment_piece_def spaced_def trailing_breaks_def Let_def)
qed

definition end_fault :: "bool \<Rightarrow> src_token list \<Rightarrow> src_token \<Rightarrow> bool" where
  "end_fault r before t \<longleftrightarrow> st_type t \<notin> {TT_space, TT_comment, TT_newline} \<or> r \<and> is_comment t \<and> \<not> spaced before"

lemma end_step_errors:
  "es_hasSpace s = spaced ts \<Longrightarrow>
   map fst (es_errors (end_step r t s)) = map fst (es_errors s) @ (if end_fault r ts t then [st_offset t] else [])"
  by (cases "st_type t") (simp_all add: end_step_def end_fault_def is_comment_def Let_def)

lemma end_errors:
  assumes s: "s = \<lparr>es_comment = [], es_offset = off, es_hasSpace = False, es_commentSep = [], es_errors = []\<rparr>"
  shows "map fst (es_errors (fold (end_step r) ts s)) =
    map (\<lambda>i. st_offset (ts ! i)) (filter (\<lambda>i. end_fault r (take i ts) (ts ! i)) [0..<length ts])"
proof (induction ts rule: rev_induct)
  case Nil
  show ?case by (simp add: s)
next
  case (snoc t ts)
  have "es_hasSpace (fold (end_step r) ts s) = spaced ts" using end_fold [OF s] by blast
  moreover have "filter (\<lambda>i. end_fault r (take i (ts @ [t])) ((ts @ [t]) ! i)) [0..<length ts] =
      filter (\<lambda>i. end_fault r (take i ts) (ts ! i)) [0..<length ts]"
    by (rule filter_cong) (auto simp: nth_append)
  moreover have "map (\<lambda>i. st_offset ((ts @ [t]) ! i)) (filter P [0..<length ts]) =
      map (\<lambda>i. st_offset (ts ! i)) (filter P [0..<length ts])" for P
    by (auto simp: nth_append)
  ultimately show ?case
    using snoc by (simp add: end_step_errors)
qed

text \<open>C39: What follows a node is read completely. The offset moves over every token; the comment is
  the text of the comments and of the line breaks between the first and the last of them; an error is
  reported at exactly the tokens that are no space, comment or line break, and, where spaces are
  required, at the comments with no space or line break in front of them.\<close>

theorem resolveEnd_reads:
  "resolveEnd (Some ts) off r = (c, e, es) \<Longrightarrow>
     c = comment_of ts \<and>
     e = off + int (length (concat (map st_source ts))) \<and>
     map fst es = map (\<lambda>i. st_offset (ts ! i)) (filter (\<lambda>i. end_fault r (take i ts) (ts ! i)) [0..<length ts])"
  using end_fold [OF refl, where r = r and ts = ts and off = off] end_errors [OF refl, where r = r and ts = ts and off = off]
  by (auto simp: resolveEnd_def Let_def)

theorem resolveEnd_reads_witness:
  "let ts = [\<lparr>st_type = TT_comment, st_offset = 4, st_indent = 0, st_source = u ''#a''\<rparr>,
             \<lparr>st_type = TT_newline, st_offset = 6, st_indent = 0, st_source = [LF]\<rparr>,
             \<lparr>st_type = TT_comment, st_offset = 7, st_indent = 0, st_source = u ''#b''\<rparr>,
             \<lparr>st_type = TT_newline, st_offset = 9, st_indent = 0, st_source = [LF]\<rparr>]
   in resolveEnd (Some ts) 4 True = ([97, LF, 98], 10, [(4, MISSING_CHAR)]) \<and> comment_of ts = [97, LF, 98]"
proof -
  define ts where "ts = [\<lparr>st_type = TT_comment, st_offset = 4, st_indent = 0, st_source = u ''#a''\<rparr>,
             \<lparr>st_type = TT_newline, st_offset = 6, st_indent = 0, st_source = [LF]\<rparr>,
             \<lparr>st_type = TT_comment, st_offset = 7, st_indent = 0, st_source = u ''#b''\<rparr>,
             \<lparr>st_type = TT_newline, st_offset = 9, st_indent = 0, st_source = [LF]\<rparr>]"
  have r: "resolveEnd (Some ts) 4 True = ([97, LF, 98], 10, [(4, MISSING_CHAR)])"
    unfolding ts_def by code_simp
  show ?thesis using resolveEnd_reads [OF r] r unfolding ts_def Let_def by metis
qed

section \<open>What the properties of a node yield\<close>

definition last_of :: "token_type \<Rightarrow> src_token list \<Rightarrow> src_token option" where
  "last_of ty ts = (case rev (filter (\<lambda>t. st_type t = ty) ts) of [] \<Rightarrow> None | t # _ \<Rightarrow> Some t)"

definition first_prop :: "src_token list \<Rightarrow> int option" where
  "first_prop ts =
     (case filter (\<lambda>t. st_type t = TT_anchor \<or> st_type t = TT_tag) ts of [] \<Rightarrow> None | t # _ \<Rightarrow> Some (st_offset t))"

definition errors_of :: "err_code \<Rightarrow> props \<Rightarrow> int list" where
  "errors_of c s = map fst (filter (\<lambda>e. snd e = c) (ps_errors s))"

text \<open>The offsets of all but the first token of a type.\<close>

definition repeats :: "token_type \<Rightarrow> src_token list \<Rightarrow> int list" where
  "repeats ty ts = map st_offset (tl (filter (\<lambda>t. st_type t = ty) ts))"

definition indicators :: "token_type set" where
  "indicators = {TT_doc_start, TT_explicit_key_ind, TT_map_value_ind, TT_seq_item_ind}"

lemma last_of_snoc: "last_of ty (ts @ [t]) = (if st_type t = ty then Some t else last_of ty ts)"
  by (simp add: last_of_def)

lemma last_of_None: "last_of ty ts = None \<longleftrightarrow> filter (\<lambda>t. st_type t = ty) ts = []"
  by (simp add: last_of_def split: list.split)

lemma first_prop_snoc:
  "first_prop (ts @ [t]) =
     (case first_prop ts of
        None \<Rightarrow> if st_type t = TT_anchor \<or> st_type t = TT_tag then Some (st_offset t) else None
      | Some x \<Rightarrow> Some x)"
  by (auto simp: first_prop_def split: list.split)

lemma repeats_snoc:
  "repeats ty (ts @ [t]) = repeats ty ts @ (if st_type t = ty \<and> last_of ty ts \<noteq> None then [st_offset t] else [])"
  unfolding repeats_def last_of_None by (cases "filter (\<lambda>t. st_type t = ty) ts") auto

lemma error_if_fields [simp]:
  "ps_anchor (error_if b o' c s) = ps_anchor s" "ps_tag (error_if b o' c s) = ps_tag s"
  "ps_found (error_if b o' c s) = ps_found s" "ps_comma (error_if b o' c s) = ps_comma s"
  "ps_hasNewline (error_if b o' c s) = ps_hasNewline s" "ps_start (error_if b o' c s) = ps_start s"
  "ps_errors (error_if b o' c s) = ps_errors s @ (if b then [(o', c)] else [])"
  by (simp_all add: error_if_def props_error_def)

lemma props_pending_fields [simp]:
  "ps_anchor (props_pending i s) = ps_anchor s" "ps_tag (props_pending i s) = ps_tag s"
  "ps_found (props_pending i s) = ps_found s" "ps_comma (props_pending i s) = ps_comma s"
  "ps_hasNewline (props_pending i s) = ps_hasNewline s" "ps_start (props_pending i s) = ps_start s"
  by (simp_all add: props_pending_def Let_def split: option.split)

lemma props_pending_errors:
  "c \<notin> {MISSING_CHAR, TAB_AS_INDENT} \<Longrightarrow> errors_of c (props_pending i s) = errors_of c s"
  by (auto simp: props_pending_def errors_of_def Let_def split: option.split)

lemmas props_kinds =
  props_space_def props_comment_def props_newline_def props_anchor_def props_tag_def props_indicator_def
  props_comma_def props_unexpected_def props_error_def set_start_def

lemma props_kind_anchor [simp]:
  "ps_anchor (props_space a i s) = ps_anchor s"
  "ps_anchor (props_comment i s) = ps_anchor s"
  "ps_anchor (props_newline a i s) = ps_anchor s"
  "ps_anchor (props_anchor i s) = Some i"
  "ps_anchor (props_tag i s) = ps_anchor s"
  "ps_anchor (props_indicator a i s) = ps_anchor s"
  "ps_anchor (props_comma i s) = ps_anchor s"
  "ps_anchor (props_unexpected i s) = ps_anchor s"
  by (simp_all add: props_kinds Let_def)

lemma props_kind_tag [simp]:
  "ps_tag (props_space a i s) = ps_tag s"
  "ps_tag (props_comment i s) = ps_tag s"
  "ps_tag (props_newline a i s) = ps_tag s"
  "ps_tag (props_anchor i s) = ps_tag s"
  "ps_tag (props_tag i s) = Some i"
  "ps_tag (props_indicator a i s) = ps_tag s"
  "ps_tag (props_comma i s) = ps_tag s"
  "ps_tag (props_unexpected i s) = ps_tag s"
  by (simp_all add: props_kinds Let_def)

lemma props_kind_found [simp]:
  "ps_found (props_space a i s) = ps_found s"
  "ps_found (props_comment i s) = ps_found s"
  "ps_found (props_newline a i s) = ps_found s"
  "ps_found (props_anchor i s) = ps_found s"
  "ps_found (props_tag i s) = ps_found s"
  "ps_found (props_indicator a i s) = Some i"
  "ps_found (props_comma i s) = ps_found s"
  "ps_found (props_unexpected i s) = ps_found s"
  by (simp_all add: props_kinds Let_def)

lemma props_kind_hasNewline [simp]:
  "ps_hasNewline (props_space a i s) = ps_hasNewline s"
  "ps_hasNewline (props_comment i s) = ps_hasNewline s"
  "ps_hasNewline (props_newline a i s) = True"
  "ps_hasNewline (props_anchor i s) = ps_hasNewline s"
  "ps_hasNewline (props_tag i s) = ps_hasNewline s"
  "ps_hasNewline (props_indicator a i s) = ps_hasNewline s"
  "ps_hasNewline (props_comma i s) = ps_hasNewline s"
  "ps_hasNewline (props_unexpected i s) = ps_hasNewline s"
  by (simp_all add: props_kinds Let_def)

lemma props_kind_start [simp]:
  "ps_start (props_space a i s) = ps_start s"
  "ps_start (props_comment i s) = ps_start s"
  "ps_start (props_newline a i s) = ps_start s"
  "ps_start (props_anchor i s) = (case ps_start s of None \<Rightarrow> Some (st_offset i) | Some x \<Rightarrow> Some x)"
  "ps_start (props_tag i s) = (case ps_start s of None \<Rightarrow> Some (st_offset i) | Some x \<Rightarrow> Some x)"
  "ps_start (props_indicator a i s) = ps_start s"
  "ps_start (props_comma i s) = ps_start s"
  "ps_start (props_unexpected i s) = ps_start s"
  by (simp_all add: props_kinds Let_def)

lemma props_kind_multiple_anchors [simp]:
  "errors_of MULTIPLE_ANCHORS (props_space a i s) = errors_of MULTIPLE_ANCHORS s"
  "errors_of MULTIPLE_ANCHORS (props_comment i s) = errors_of MULTIPLE_ANCHORS s"
  "errors_of MULTIPLE_ANCHORS (props_newline a i s) = errors_of MULTIPLE_ANCHORS s"
  "errors_of MULTIPLE_ANCHORS (props_anchor i s) = errors_of MULTIPLE_ANCHORS s @ (if ps_anchor s \<noteq> None then [st_offset i] else [])"
  "errors_of MULTIPLE_ANCHORS (props_tag i s) = errors_of MULTIPLE_ANCHORS s"
  "errors_of MULTIPLE_ANCHORS (props_indicator a i s) = errors_of MULTIPLE_ANCHORS s"
  "errors_of MULTIPLE_ANCHORS (props_comma i s) = errors_of MULTIPLE_ANCHORS s"
  "errors_of MULTIPLE_ANCHORS (props_unexpected i s) = errors_of MULTIPLE_ANCHORS s"
  by (simp_all add: props_kinds errors_of_def Let_def)

lemma props_kind_multiple_tags [simp]:
  "errors_of MULTIPLE_TAGS (props_space a i s) = errors_of MULTIPLE_TAGS s"
  "errors_of MULTIPLE_TAGS (props_comment i s) = errors_of MULTIPLE_TAGS s"
  "errors_of MULTIPLE_TAGS (props_newline a i s) = errors_of MULTIPLE_TAGS s"
  "errors_of MULTIPLE_TAGS (props_anchor i s) = errors_of MULTIPLE_TAGS s"
  "errors_of MULTIPLE_TAGS (props_tag i s) = errors_of MULTIPLE_TAGS s @ (if ps_tag s \<noteq> None then [st_offset i] else [])"
  "errors_of MULTIPLE_TAGS (props_indicator a i s) = errors_of MULTIPLE_TAGS s"
  "errors_of MULTIPLE_TAGS (props_comma i s) = errors_of MULTIPLE_TAGS s"
  "errors_of MULTIPLE_TAGS (props_unexpected i s) = errors_of MULTIPLE_TAGS s"
  by (simp_all add: props_kinds errors_of_def Let_def)

lemma props_step_fields:
  assumes "pa_indicator a \<in> indicators"
  shows "ps_anchor (props_step a i s) = (if st_type i = TT_anchor then Some i else ps_anchor s)"
    and "ps_tag (props_step a i s) = (if st_type i = TT_tag then Some i else ps_tag s)"
    and "ps_found (props_step a i s) = (if st_type i = pa_indicator a then Some i else ps_found s)"
    and "ps_hasNewline (props_step a i s) = (ps_hasNewline s \<or> st_type i = TT_newline)"
    and "ps_start (props_step a i s) =
      (case ps_start s of
         None \<Rightarrow> if st_type i = TT_anchor \<or> st_type i = TT_tag then Some (st_offset i) else None
       | Some x \<Rightarrow> Some x)"
  using assms by (auto simp: props_step_def indicators_def Let_def split: option.split)

lemma props_step_errors:
  assumes "pa_indicator a \<in> indicators"
  shows "errors_of MULTIPLE_ANCHORS (props_step a i s) =
      errors_of MULTIPLE_ANCHORS s @ (if st_type i = TT_anchor \<and> ps_anchor s \<noteq> None then [st_offset i] else [])"
    and "errors_of MULTIPLE_TAGS (props_step a i s) =
      errors_of MULTIPLE_TAGS s @ (if st_type i = TT_tag \<and> ps_tag s \<noteq> None then [st_offset i] else [])"
  using assms by (auto simp: props_step_def indicators_def Let_def props_pending_errors)

lemma props_fold:
  assumes "pa_indicator a \<in> indicators"
  defines "s ts \<equiv> fold (props_step a) ts (props_init a)"
  shows "ps_anchor (s ts) = last_of TT_anchor ts" "ps_tag (s ts) = last_of TT_tag ts"
    "ps_found (s ts) = last_of (pa_indicator a) ts" "ps_hasNewline (s ts) = has_newline ts"
    "ps_start (s ts) = first_prop ts"
    "errors_of MULTIPLE_ANCHORS (s ts) = repeats TT_anchor ts" "errors_of MULTIPLE_TAGS (s ts) = repeats TT_tag ts"
proof (induction ts rule: rev_induct)
  case Nil
  show "ps_anchor (s []) = last_of TT_anchor []" "ps_tag (s []) = last_of TT_tag []"
    "ps_found (s []) = last_of (pa_indicator a) []" "ps_hasNewline (s []) = has_newline []"
    "ps_start (s []) = first_prop []"
    "errors_of MULTIPLE_ANCHORS (s []) = repeats TT_anchor []" "errors_of MULTIPLE_TAGS (s []) = repeats TT_tag []"
    by (simp_all add: s_def props_init_def last_of_def has_newline_def first_prop_def errors_of_def repeats_def)
next
  case (snoc t ts)
  have "s (ts @ [t]) = props_step a t (s ts)" by (simp add: s_def)
  then show "ps_anchor (s (ts @ [t])) = last_of TT_anchor (ts @ [t])" "ps_tag (s (ts @ [t])) = last_of TT_tag (ts @ [t])"
    "ps_found (s (ts @ [t])) = last_of (pa_indicator a) (ts @ [t])" "ps_hasNewline (s (ts @ [t])) = has_newline (ts @ [t])"
    "ps_start (s (ts @ [t])) = first_prop (ts @ [t])"
    "errors_of MULTIPLE_ANCHORS (s (ts @ [t])) = repeats TT_anchor (ts @ [t])"
    "errors_of MULTIPLE_TAGS (s (ts @ [t])) = repeats TT_tag (ts @ [t])"
    using snoc
    by (simp_all add: props_step_fields [OF assms(1)] props_step_errors [OF assms(1)] last_of_snoc first_prop_snoc
        repeats_snoc has_newline_def disj_commute)
qed

lemma props_end_fields [simp]:
  "ps_anchor (props_last_tab a (props_next a s)) = ps_anchor s"
  "ps_tag (props_last_tab a (props_next a s)) = ps_tag s"
  "ps_found (props_last_tab a (props_next a s)) = ps_found s"
  "ps_hasNewline (props_last_tab a (props_next a s)) = ps_hasNewline s"
  "ps_start (props_last_tab a (props_next a s)) = ps_start s"
  by (auto simp: props_last_tab_def props_next_def split: option.split)

lemma props_end_errors:
  "c \<notin> {MISSING_CHAR, TAB_AS_INDENT} \<Longrightarrow> errors_of c (props_last_tab a (props_next a s)) = errors_of c s"
  by (auto simp: props_last_tab_def props_next_def errors_of_def split: option.split)

text \<open>C40: The tokens in front of a node are read in any order and number. The anchor, the tag and the
  indicator of the result are the last ones, each repeated anchor or tag is reported at its offset and
  no other is, line breaks are noticed wherever they stand, and the node starts at its first anchor or
  tag, or at the end of the tokens when it has none.\<close>

theorem resolveProps_finds:
  "pa_indicator a \<in> indicators \<Longrightarrow> resolveProps ts a = (s, e, st) \<Longrightarrow>
     ps_anchor s = last_of TT_anchor ts \<and> ps_tag s = last_of TT_tag ts \<and>
     ps_found s = last_of (pa_indicator a) ts \<and> ps_hasNewline s = has_newline ts \<and>
     errors_of MULTIPLE_ANCHORS s = repeats TT_anchor ts \<and> errors_of MULTIPLE_TAGS s = repeats TT_tag ts \<and>
     st = (case first_prop ts of None \<Rightarrow> e | Some x \<Rightarrow> x)"
  using props_fold [of a ts]
  by (auto simp: resolveProps_def Let_def props_end_errors)

theorem resolveProps_finds_witness:
  "let a = \<lparr>pa_flow = False, pa_indicator = TT_seq_item_ind, pa_next = None, pa_offset = 0, pa_parentIndent = 0,
            pa_startOnNewline = True\<rparr>;
       dash = \<lparr>st_type = TT_seq_item_ind, st_offset = 0, st_indent = 0, st_source = u ''-''\<rparr>;
       sp = \<lparr>st_type = TT_space, st_offset = 1, st_indent = 0, st_source = [32]\<rparr>;
       x = \<lparr>st_type = TT_anchor, st_offset = 2, st_indent = 0, st_source = u ''&x''\<rparr>;
       sp' = \<lparr>st_type = TT_space, st_offset = 4, st_indent = 0, st_source = [32]\<rparr>;
       y = \<lparr>st_type = TT_anchor, st_offset = 5, st_indent = 0, st_source = u ''&y''\<rparr>
   in case resolveProps [dash, sp, x, sp', y] a of
        (s, e, st) \<Rightarrow> ps_anchor s = Some y \<and> ps_found s = Some dash \<and> ps_errors s = [(5, MULTIPLE_ANCHORS)] \<and>
          errors_of MULTIPLE_ANCHORS s = repeats TT_anchor [dash, sp, x, sp', y] \<and> st = 2 \<and> e = 7"
proof -
  define a where "a = \<lparr>pa_flow = False, pa_indicator = TT_seq_item_ind, pa_next = None, pa_offset = 0, pa_parentIndent = 0,
            pa_startOnNewline = True\<rparr>"
  define ts where "ts = [\<lparr>st_type = TT_seq_item_ind, st_offset = 0, st_indent = 0, st_source = u ''-''\<rparr>,
       \<lparr>st_type = TT_space, st_offset = 1, st_indent = 0, st_source = [32]\<rparr>,
       \<lparr>st_type = TT_anchor, st_offset = 2, st_indent = 0, st_source = u ''&x''\<rparr>,
       \<lparr>st_type = TT_space, st_offset = 4, st_indent = 0, st_source = [32]\<rparr>,
       \<lparr>st_type = TT_anchor, st_offset = 5, st_indent = 0, st_source = u ''&y''\<rparr>]"
  have "pa_indicator a \<in> indicators" by (simp add: a_def indicators_def)
  moreover obtain s e st where r: "resolveProps ts a = (s, e, st)" by (metis prod_cases3)
  ultimately have "errors_of MULTIPLE_ANCHORS s = repeats TT_anchor ts" using resolveProps_finds by blast
  moreover have "case resolveProps ts a of (s, e, st) \<Rightarrow>
      ps_anchor s = Some (ts ! 4) \<and> ps_found s = Some (ts ! 0) \<and> ps_errors s = [(5, MULTIPLE_ANCHORS)] \<and> st = 2 \<and> e = 7"
    unfolding ts_def a_def by code_simp
  ultimately show ?thesis using r unfolding Let_def a_def [symmetric] ts_def [symmetric] by (simp add: ts_def)
qed

end
