(* ===== verification/YamlRoundtrip.thy ===== *)
theory YamlRoundtrip
  imports YamlString YamlCompose
begin

text \<open>
  Writing a string and reading it back. The reader of \<open>YamlScalar\<close> undoes the writers of
  \<open>YamlString\<close>: the double-quoted form when line feeds stay escaped and the text is not folded, the
  single-quoted and the plain form also when long lines are folded.
\<close>

section \<open>Reading escapes\<close>

text \<open>\<open>reads w v\<close>: in front of text that goes on in the same line, the reader of double-quoted
  scalars turns \<open>w\<close> into \<open>v\<close> without an error.\<close>

definition flat_tail :: "ustr \<Rightarrow> bool" where
  "flat_tail rest \<longleftrightarrow> rest \<noteq> [] \<and> last rest = 34 \<and> LF \<notin> set rest \<and> CR \<notin> set rest"

definition reads :: "ustr \<Rightarrow> ustr \<Rightarrow> bool" where
  "reads w v \<longleftrightarrow>
     (\<forall>pos rest. flat_tail rest \<longrightarrow> dq_loop pos (w @ rest) = prepend (v, []) (dq_loop (pos + length w) rest))"

lemma prepend_prepend: "prepend (a, []) (prepend (b, []) r) = prepend (a @ b, []) r"
  by (simp add: prepend_def split: option.split prod.split)

lemma flat_tail_append: "LF \<notin> set w \<Longrightarrow> CR \<notin> set w \<Longrightarrow> flat_tail rest \<Longrightarrow> flat_tail (w @ rest)"
  by (auto simp: flat_tail_def)

lemma reads_append:
  assumes "reads v a" and "reads w b" and "LF \<notin> set w" "CR \<notin> set w"
  shows "reads (v @ w) (a @ b)"
  using assms flat_tail_append [OF assms(3,4)]
  by (simp add: reads_def prepend_prepend add.assoc)

lemma reads_escape:
  assumes "map_of escapes d = Some a"
  shows "reads [92, d] a"
proof -
  have "dq_loop pos (92 # d # rest) = prepend (a, []) (dq_loop (pos + 2) rest)" for pos rest
    using assms by (subst dq_loop.simps) simp
  then show ?thesis by (simp add: reads_def)
qed

lemma reads_code:
  assumes c: "c = 120 \<and> length w = 2 \<or> c = 117 \<and> length w = 4" and h: "parse_hex 0 w = Some a" and a: "a < 65536"
  shows "reads (92 # c # w) [a]"
proof -
  have none: "map_of escapes c = None" using c by (auto simp: escapes_def)
  have len: "code_length c = length w" using c by (auto simp: code_length_def)
  have "dq_loop pos (92 # c # w @ rest) = prepend ([a], []) (dq_loop (pos + (2 + length w)) rest)" for pos rest
    using c none len h a
    by (subst dq_loop.simps) (auto simp: parseCharCode_def fromCodePoint_def crlf_def add.assoc split: list.splits)
  then show ?thesis by (simp add: reads_def)
qed

lemma blanks_tail:
  assumes "flat_tail rest"
  shows "blanks rest < length rest"
proof -
  have "\<not> blank (last rest)" "last rest \<in> set rest"
    using assms last_in_set [of rest] by (simp_all add: flat_tail_def blank_def del: last_in_set)
  then show ?thesis unfolding blanks_def takeWhile_short by blast
qed

lemma dq_loop_blank:
  assumes "blank i" and "flat_tail rest"
  shows "dq_loop pos (i # rest) =
    prepend (i # take (blanks rest) rest, []) (dq_loop (pos + 1 + blanks rest) (drop (blanks rest) rest))"
proof -
  obtain c r where rest: "rest = c # r" using assms(2) by (cases rest) (auto simp: flat_tail_def)
  have d: "drop (blanks rest) rest \<noteq> []" using blanks_tail [OF assms(2)] by simp
  have sub: "set (drop (blanks rest) rest) \<subseteq> set rest" by (rule set_drop_subset)
  then have "hd (drop (blanks rest) rest) \<in> set rest" using hd_in_set [OF d] by blast
  moreover have "\<not> crlf (drop (blanks rest) rest)"
    using assms(2) sub by (auto simp: flat_tail_def crlf_def split: list.splits)
  ultimately have "hd (drop (blanks rest) rest) \<noteq> LF" "\<not> crlf (drop (blanks rest) rest)"
    using assms(2) by (auto simp: flat_tail_def)
  then show ?thesis using assms(1) rest d by (subst dq_loop.simps) (auto simp: blank_def Let_def)
qed

lemma reads_char:
  assumes "c \<noteq> 92" "c \<noteq> LF" "c \<noteq> CR"
  shows "reads [c] [c]"
  unfolding reads_def
proof (intro allI impI)
  fix pos rest
  assume t: "flat_tail rest"
  then obtain d r where rest: "rest = d # r" by (cases rest) (auto simp: flat_tail_def)
  show "dq_loop pos ([c] @ rest) = prepend ([c], []) (dq_loop (pos + length [c]) rest)"
  proof (cases "blank c")
    case False
    then show ?thesis using assms rest by (subst dq_loop.simps) auto
  next
    case blank: True
    show ?thesis
    proof (cases "blank d")
      case True
      then have r: "flat_tail r" using t rest by (cases r) (auto simp: flat_tail_def blank_def)
      have k: "blanks rest = Suc (blanks r)" using True rest by (simp add: blanks_def)
      show ?thesis
        using dq_loop_blank [OF blank t] dq_loop_blank [OF True r, of "pos + 1"] k rest
        by (simp add: prepend_prepend)
    next
      case False
      then have "blanks rest = 0" using rest by (simp add: blanks_def)
      then show ?thesis using dq_loop_blank [OF blank t, of pos] by simp
    qed
  qed
qed

section \<open>The double-quoted form\<close>

lemma length_hex4 [simp]: "length (hex4 c) = 4"
  by (simp add: hex4_def)

lemma hex_char_digit: "d < 16 \<Longrightarrow> hex_digit (hex_char d) = Some d"
  by (auto simp: hex_char_def hex_digit_def)

lemma parse_hex4: "c < 65536 \<Longrightarrow> parse_hex 0 (hex4 c) = Some c"
proof -
  assume "c < 65536"
  then have "c div 4096 mod 16 = c div 16 div 16 div 16" by (simp flip: div_mult2_eq)
  moreover have "c div 256 = c div 16 div 16" by (simp flip: div_mult2_eq)
  ultimately have "16 * (16 * (16 * (c div 4096 mod 16) + c div 256 mod 16) + c div 16 mod 16) + c mod 16 = c"
    by (simp only: mult_div_mod_eq)
  moreover have "parse_hex 0 (hex4 c) = Some (16 * (16 * (16 * (c div 4096 mod 16) + c div 256 mod 16) + c div 16 mod 16) + c mod 16)"
    by (simp add: hex4_def hex_char_digit)
  ultimately show ?thesis by (simp only:)
qed

lemma parse_hex2: "c < 256 \<Longrightarrow> parse_hex 0 (drop 2 (hex4 c)) = Some c"
proof -
  assume "c < 256"
  then have "c div 16 mod 16 = c div 16" by simp
  then have "16 * (c div 16 mod 16) + c mod 16 = c" by (simp only: mult_div_mod_eq)
  moreover have "parse_hex 0 (drop 2 (hex4 c)) = Some (16 * (c div 16 mod 16) + c mod 16)"
    by (simp add: hex4_def hex_char_digit)
  ultimately show ?thesis by (simp only:)
qed

definition plain_text :: "ustr \<Rightarrow> bool" where
  "plain_text w \<longleftrightarrow> LF \<notin> set w \<and> CR \<notin> set w"

lemma hex4_plain: "plain_text (hex4 c)" "plain_text (drop 2 (hex4 c))"
  by (auto simp: plain_text_def hex4_def hex_char_def)

lemma short_codes_code:
  assumes "map_of short_codes (hex4 c) = Some d" and "c < 65536"
  shows "map_of escapes d = Some [c]"
proof -
  have p: "parse_hex 0 (hex4 c) = Some c" using assms(2) by (rule parse_hex4)
  have "(hex4 c, d) \<in> set short_codes" using assms(1) by (rule map_of_SomeD)
  then show ?thesis
    using p by (auto simp: short_codes_def u_def escapes_def hex_digit_def)
qed

lemma write_code_reads:
  assumes "c < 65536"
  shows "reads (write_code (hex4 c)) [c] \<and> plain_text (write_code (hex4 c))"
proof (cases "map_of short_codes (hex4 c)")
  case (Some d)
  then have w: "write_code (hex4 c) = [92, d]" by (simp add: write_code_def)
  have e: "map_of escapes d = Some [c]" using Some assms by (rule short_codes_code)
  then have "d \<noteq> LF" "d \<noteq> CR" by (auto simp: escapes_def)
  then show ?thesis unfolding w using reads_escape [OF e] by (simp add: plain_text_def)
next
  case None
  show ?thesis
  proof (cases "take 2 (hex4 c) = [48, 48]")
    case True
    then have "c div 4096 mod 16 = 0" "c div 256 mod 16 = 0"
      by (auto simp: hex4_def hex_char_def split: if_splits)
    moreover have "c div 4096 < 16" using assms by (intro less_mult_imp_div_less) simp
    ultimately have "c < 4096" "c div 256 mod 16 = 0" by (simp_all add: div_eq_0_iff)
    moreover from this have "c div 256 < 16" by (intro less_mult_imp_div_less) simp
    ultimately have "c < 256" by (simp add: div_eq_0_iff)
    then have "reads (92 # 120 # drop 2 (hex4 c)) [c]"
      by (intro reads_code) (simp_all add: parse_hex2)
    then show ?thesis using None True hex4_plain [of c] by (simp add: write_code_def plain_text_def)
  next
    case False
    have "reads (92 # 117 # hex4 c) [c]"
      using assms by (intro reads_code) (simp_all add: parse_hex4)
    then show ?thesis using None False hex4_plain [of c] by (simp add: write_code_def plain_text_def)
  qed
qed

lemma json_escape_read:
  assumes "map_of json_escapes c = Some d"
  shows "map_of escapes d = Some [c]" "d \<noteq> 117" "d \<noteq> LF" "d \<noteq> CR"
  using assms by (auto simp: json_escapes_def escapes_def split: if_splits)

lemma surrogate_bound: "high_surrogate c \<or> low_surrogate c \<Longrightarrow> c < 65536"
  by (auto simp: high_surrogate_def low_surrogate_def)

text \<open>Where the rewriting meets one character of the JSON text.\<close>

definition writes :: "ustr \<Rightarrow> ustr \<Rightarrow> ustr \<Rightarrow> bool" where
  "writes ind xs v \<longleftrightarrow>
     (\<forall>rest. \<exists>w. dq_write True ind (xs @ rest) = w @ dq_write True ind rest \<and> reads w v \<and> plain_text w)"

lemma writes_raw:
  assumes "c \<noteq> 92" "c \<noteq> LF" "c \<noteq> CR"
  shows "writes ind [c] [c]"
  unfolding writes_def
proof
  fix rest
  show "\<exists>w. dq_write True ind ([c] @ rest) = w @ dq_write True ind rest \<and> reads w [c] \<and> plain_text w"
  proof (cases "c = 32 \<and> take 2 rest = [92, 110]")
    case True
    then have "dq_write True ind ([c] @ rest) = [92, 32] @ dq_write True ind rest"
      by (subst dq_write.simps) simp
    moreover have "reads [92, 32] [c]" using True by (intro reads_escape) (simp add: escapes_def)
    ultimately show ?thesis by (intro exI [of _ "[92, 32]"]) (simp add: plain_text_def)
  next
    case False
    then have "dq_write True ind ([c] @ rest) = [c] @ dq_write True ind rest"
      using assms by (subst dq_write.simps) auto
    then show ?thesis using reads_char [OF assms] assms by (intro exI [of _ "[c]"]) (simp add: plain_text_def)
  qed
qed

lemma writes_json_char: "writes ind (json_char c) [c]"
proof (cases "map_of json_escapes c")
  case (Some d)
  note d = json_escape_read [OF Some]
  have "dq_write True ind ([92, d] @ rest) = [92, d] @ dq_write True ind rest" for rest
    using d(2) by (subst dq_write.simps) simp
  then show ?thesis
    using Some d reads_escape [OF d(1)]
    by (auto simp: writes_def json_char_def plain_text_def intro!: exI [of _ "[92, d]"])
next
  case None
  show ?thesis
  proof (cases "c < 32 \<or> high_surrogate c \<or> low_surrogate c")
    case True
    then have "c < 65536" using surrogate_bound [of c] by auto
    note w = write_code_reads [OF this]
    have "dq_write True ind ([92, 117] @ hex4 c @ rest) = write_code (hex4 c) @ dq_write True ind rest" for rest
      by (subst dq_write.simps) simp
    then show ?thesis
      using None True w by (auto simp: writes_def json_char_def intro!: exI [of _ "write_code (hex4 c)"])
  next
    case False
    then have "c \<noteq> 92" "c \<noteq> LF" "c \<noteq> CR" using None by (auto simp: json_escapes_def split: if_splits)
    then show ?thesis using None False writes_raw by (simp add: json_char_def)
  qed
qed

lemma writes_append: "writes ind v a \<Longrightarrow> writes ind w b \<Longrightarrow> writes ind (v @ w) (a @ b)"
  unfolding writes_def
proof
  fix rest
  assume v: "\<forall>rest. \<exists>x. dq_write True ind (v @ rest) = x @ dq_write True ind rest \<and> reads x a \<and> plain_text x"
    and w: "\<forall>rest. \<exists>x. dq_write True ind (w @ rest) = x @ dq_write True ind rest \<and> reads x b \<and> plain_text x"
  from v obtain x where x: "dq_write True ind (v @ w @ rest) = x @ dq_write True ind (w @ rest)" "reads x a" "plain_text x" by blast
  from w obtain y where y: "dq_write True ind (w @ rest) = y @ dq_write True ind rest" "reads y b" "plain_text y" by blast
  show "\<exists>z. dq_write True ind ((v @ w) @ rest) = z @ dq_write True ind rest \<and> reads z (a @ b) \<and> plain_text z"
    using x y reads_append [OF x(2) y(2)] by (intro exI [of _ "x @ y"]) (auto simp: plain_text_def)
qed

lemma writes_json_chars: "writes ind (json_chars s) s"
proof (induction s rule: json_chars.induct)
  case (1 c d r)
  show ?case
  proof (cases "high_surrogate c \<and> low_surrogate d")
    case True
    then have "c \<noteq> 92" "c \<noteq> LF" "c \<noteq> CR" "d \<noteq> 92" "d \<noteq> LF" "d \<noteq> CR"
      by (auto simp: high_surrogate_def low_surrogate_def)
    then have "writes ind ([c] @ [d]) ([c] @ [d])" by (intro writes_append writes_raw)
    from writes_append [OF this 1(1) [OF True]] True show ?thesis by simp
  next
    case False
    from writes_append [OF writes_json_char [of ind c] 1(2) [OF False]] False show ?thesis by auto
  qed
next
  case (2 c)
  then show ?case using writes_json_char by simp
next
  case 3
  then show ?case by (auto simp: writes_def reads_def plain_text_def prepend_def intro!: exI [of _ "[]"] split: option.split)
qed

lemma reads_json_char: "reads (json_char c) [c] \<and> plain_text (json_char c)"
proof (cases "map_of json_escapes c")
  case (Some d)
  then show ?thesis using json_escape_read [OF Some] reads_escape by (simp add: json_char_def plain_text_def)
next
  case None
  show ?thesis
  proof (cases "c < 32 \<or> high_surrogate c \<or> low_surrogate c")
    case True
    then have "c < 65536" using surrogate_bound [of c] by auto
    then have "reads (92 # 117 # hex4 c) [c]" by (intro reads_code) (simp_all add: parse_hex4)
    then show ?thesis using None True hex4_plain [of c] by (simp add: json_char_def plain_text_def)
  next
    case False
    then have "c \<noteq> 92" "c \<noteq> LF" "c \<noteq> CR" using None by (auto simp: json_escapes_def split: if_splits)
    then show ?thesis using None False reads_char by (simp add: json_char_def plain_text_def)
  qed
qed

lemma reads_json_chars: "reads (json_chars s) s \<and> plain_text (json_chars s)"
proof (induction s rule: json_chars.induct)
  case (1 c d r)
  show ?case
  proof (cases "high_surrogate c \<and> low_surrogate d")
    case True
    then have n: "c \<noteq> 92" "c \<noteq> LF" "c \<noteq> CR" "d \<noteq> 92" "d \<noteq> LF" "d \<noteq> CR"
      by (auto simp: high_surrogate_def low_surrogate_def)
    then have "reads ([c] @ [d]) ([c] @ [d])" by (intro reads_append reads_char) auto
    from reads_append [OF this, of "json_chars r" r] 1(1) [OF True] True n show ?thesis by (simp add: plain_text_def)
  next
    case False
    from reads_append [of "json_char c" "[c]" "json_chars (d # r)" "d # r"] reads_json_char [of c] 1(2) [OF False] False
    show ?thesis by (auto simp: plain_text_def)
  qed
next
  case 3
  then show ?case by (auto simp: reads_def plain_text_def prepend_def split: option.split)
qed (simp add: reads_json_char)

lemma quoted_reads:
  assumes "reads w s"
  shows "doubleQuotedValue ([34] @ w @ [34]) = Some (s, [])"
proof -
  have "dq_loop k [34] = Some ([], [])" for k by (subst dq_loop.simps) simp
  moreover have "flat_tail [34]" by (simp add: flat_tail_def)
  ultimately have "dq_loop 1 (w @ [34]) = Some (s, [])" using assms by (simp add: reads_def prepend_def)
  then show ?thesis by (simp add: doubleQuotedValue_def)
qed

lemma dq_write_stringify:
  obtains w where "dq_write True ind (json_stringify s) = [34] @ w @ [34]" "reads w s"
proof -
  obtain w where w: "dq_write True ind (json_chars s @ [34]) = w @ dq_write True ind [34]" "reads w s"
    using writes_json_chars [of ind s] by (auto simp: writes_def)
  have "dq_write True ind [34] = [34]" by (subst dq_write.simps) (simp add: dq_write.simps [of True ind "[]"])
  moreover have "dq_write True ind (json_stringify s) = 34 # dq_write True ind (json_chars s @ [34])"
    by (simp add: json_stringify_def dq_write.simps [of True ind "34 # _"])
  ultimately show thesis using that w by simp
qed

lemma foldFlowLines_off: "so_lineWidth (sc_options ctx) \<le> 0 \<Longrightarrow> foldFlowLines e t mode (getFoldOptions ctx b) = (e, False)"
  by (simp add: foldFlowLines_def getFoldOptions_def)

text \<open>When the writer neither folds the text nor breaks it at its line feeds.\<close>

definition kept_flat :: "ustr \<Rightarrow> string_ctx \<Rightarrow> bool" where
  "kept_flat s ctx \<longleftrightarrow>
     so_doubleQuotedAsJSON (sc_options ctx) \<or> sc_implicitKey ctx \<or>
     so_lineWidth (sc_options ctx) \<le> 0 \<and>
       int (length (json_stringify s)) < so_doubleQuotedMinMultiLineLength (sc_options ctx)"

lemma doubleQuotedString_reads:
  assumes "kept_flat s ctx"
  obtains w where "doubleQuotedString s ctx = [34] @ w @ [34]" "reads w s"
proof (cases "so_doubleQuotedAsJSON (sc_options ctx)")
  case True
  then show thesis using that reads_json_chars by (simp add: doubleQuotedString_def json_stringify_def)
next
  case False
  obtain w where w: "dq_write True (block_indent ctx s) (json_stringify s) = [34] @ w @ [34]" "reads w s"
    by (rule dq_write_stringify)
  then have "doubleQuotedString s ctx = [34] @ w @ [34]"
    using False assms by (auto simp: doubleQuotedString_def kept_flat_def foldFlowLines_off Let_def)
  then show thesis using that w(2) by blast
qed

lemma doubleQuotedString_value:
  "kept_flat s ctx \<Longrightarrow> doubleQuotedValue (doubleQuotedString s ctx) = Some (s, [])"
  using doubleQuotedString_reads quoted_reads by metis

section \<open>Reading folded lines\<close>

lemma take_line_None: "LF \<notin> set x \<Longrightarrow> take_line x = None"
proof -
  assume "LF \<notin> set x"
  then have "dropWhile (\<lambda>c. c \<noteq> LF) x = []" by (auto simp: dropWhile_eq_Nil_conv)
  then show ?thesis unfolding take_line_def by (simp only: list.case)
qed

lemma take_line_Some: "LF \<notin> set x \<Longrightarrow> take_line (x @ LF # y) = Some (x, y)"
proof -
  assume "LF \<notin> set x"
  then have "dropWhile (\<lambda>c. c \<noteq> LF) (x @ LF # y) = LF # y" "takeWhile (\<lambda>c. c \<noteq> LF) (x @ LF # y) = x"
    by (subst dropWhile_append2 takeWhile_append2, auto)+
  then show ?thesis by (simp add: take_line_def)
qed

lemma drop_cr_id: "CR \<notin> set x \<Longrightarrow> drop_cr x = x"
  by (auto simp: drop_cr_def dest: last_in_set)

lemma rstrip_id: "x = [] \<or> \<not> blank (last x) \<Longrightarrow> rstrip x = x"
  by (cases x rule: rev_cases) (auto simp: rstrip_def)

lemma lstrip_id: "x = [] \<or> \<not> blank (hd x) \<Longrightarrow> lstrip x = x"
  by (cases x) (auto simp: lstrip_def)

lemma rstrip_tail: "\<not> blank c \<Longrightarrow> rstrip (x @ c # y) = x @ rstrip (c # y)"
  by (simp add: rstrip_def dropWhile_append)

lemma lstrip_blanks: "(\<forall>c\<in>set t. blank c) \<Longrightarrow> lstrip (t @ y) = lstrip y"
  by (simp add: lstrip_def)

lemma lstrip_front: "x \<noteq> [] \<Longrightarrow> \<not> blank (last x) \<Longrightarrow> lstrip (x @ y) = lstrip x @ y \<and> lstrip x \<noteq> []"
proof -
  assume x: "x \<noteq> []" "\<not> blank (last x)"
  then have "\<not> list_all blank x" by (metis last_in_set list_all_iff)
  then show ?thesis unfolding lstrip_def
    by (metis dropWhile_append1 dropWhile_eq_Nil_conv list_all_iff)
qed

lemma rstrip_front: "y \<noteq> [] \<Longrightarrow> \<not> blank (hd y) \<Longrightarrow> rstrip (x @ y) = x @ rstrip y \<and> rstrip y \<noteq> [] \<and> hd (rstrip y) = hd y"
proof -
  assume "y \<noteq> []" "\<not> blank (hd y)"
  then obtain c z where y: "y = c # z" "\<not> blank c" by (cases y) auto
  have "rstrip (c # z) = c # rstrip z" using rstrip_tail [OF y(2), of "[]" z] y(2)
    by (simp add: rstrip_def dropWhile_append split: if_splits)
  then show ?thesis using y rstrip_tail [OF y(2), of x z] by simp
qed

lemma lf_split: "LF \<in> set x \<Longrightarrow> \<exists>l z. x = l @ LF # z \<and> LF \<notin> set l"
  by (meson split_list_first)

text \<open>Breaking a line at a single space between other characters does not change the folded text.\<close>

definition solid :: "nat \<Rightarrow> bool" where
  "solid c \<longleftrightarrow> c \<noteq> 32 \<and> c \<noteq> LF \<and> c \<noteq> 9"

lemma solid_blank: "solid c \<Longrightarrow> \<not> blank c"
  by (simp add: solid_def blank_def)

definition breakable :: "ustr \<Rightarrow> ustr \<Rightarrow> ustr \<Rightarrow> bool" where
  "breakable x t y \<longleftrightarrow>
     (x = [] \<or> solid (last x)) \<and> (y = [] \<or> solid (hd y)) \<and> (\<forall>c\<in>set t. c = 32) \<and> CR \<notin> set x \<and> CR \<notin> set y"

lemma breakable_line: "breakable x t (l @ LF # r) \<Longrightarrow> l \<noteq> [] \<and> solid (hd l) \<and> CR \<notin> set l"
  by (cases l) (auto simp: breakable_def solid_def)

lemma after_break:
  assumes "breakable x t y"
  shows "fold_lines i [32] (t @ y) =
    (case take_line y of
       None \<Rightarrow> i @ [32] @ y
     | Some (l, r) \<Rightarrow> fold_lines (i @ [32] @ rstrip l) [32] r)"
proof -
  have t: "\<forall>c\<in>set t. blank c" "LF \<notin> set t" "CR \<notin> set t" using assms by (auto simp: breakable_def blank_def)
  have y: "y = [] \<or> \<not> blank (hd y)" using assms by (auto simp: breakable_def solid_blank)
  show ?thesis
  proof (cases "LF \<in> set y")
    case False
    then have "take_line (t @ y) = None" "take_line y = None" using t by (auto intro: take_line_None)
    then show ?thesis using y lstrip_id by (simp add: fold_lines.simps [of i] lstrip_blanks [OF t(1)])
  next
    case True
    then obtain l r where l: "y = l @ LF # r" "LF \<notin> set l" using lf_split by blast
    then have "l \<noteq> []" "\<not> blank (hd l)" "CR \<notin> set l" using breakable_line assms solid_blank by blast+
    then have s: "rstrip (t @ l) = t @ rstrip l" "rstrip l \<noteq> []" "hd (rstrip l) = hd l" using rstrip_front by blast+
    have "take_line (t @ y) = Some (t @ l, r)" using take_line_Some [of "t @ l" r] l t by simp
    moreover have "take_line y = Some (l, r)" using take_line_Some l by simp
    moreover have "lstrip (rstrip (drop_cr (t @ l))) = rstrip l"
      using s t \<open>CR \<notin> set l\<close> \<open>\<not> blank (hd l)\<close> by (simp add: drop_cr_id lstrip_blanks lstrip_id)
    ultimately show ?thesis using s(2) by (simp add: fold_lines.simps [of i])
  qed
qed

text \<open>The line that holds the break, read whole.\<close>

lemma joined_line:
  assumes b: "breakable x t y" and x: "x = [] \<or> LF \<notin> set x"
  shows "take_line (x @ 32 # y) =
      (case take_line y of None \<Rightarrow> None | Some (l, r) \<Rightarrow> Some (x @ 32 # l, r))"
    and "take_line y = Some (l, r) \<Longrightarrow> rstrip (drop_cr (x @ 32 # l)) = x @ 32 # rstrip l \<and> l \<noteq> [] \<and> solid (hd l)"
proof -
  have lf: "LF \<notin> set x" using x by auto
  show "take_line (x @ 32 # y) = (case take_line y of None \<Rightarrow> None | Some (l, r) \<Rightarrow> Some (x @ 32 # l, r))"
  proof (cases "LF \<in> set y")
    case False
    then show ?thesis using lf by (simp add: take_line_None)
  next
    case True
    then obtain l r where l: "y = l @ LF # r" "LF \<notin> set l" using lf_split by blast
    then show ?thesis using lf take_line_Some [of "x @ 32 # l" r] take_line_Some [of l r] by simp
  qed
  assume "take_line y = Some (l, r)"
  then obtain "LF \<in> set y" using take_line_None [of y] by fastforce
  then obtain l' r' where l: "y = l' @ LF # r'" "LF \<notin> set l'" using lf_split by blast
  then have "l' = l" using take_line_Some [of l' r'] \<open>take_line y = Some (l, r)\<close> by simp
  then have bl: "l \<noteq> [] \<and> solid (hd l) \<and> CR \<notin> set l" using breakable_line [of x t l r'] b l(1) by simp
  moreover have "CR \<notin> set x" using b by (simp add: breakable_def)
  ultimately have "l \<noteq> []" "solid (hd l)" "CR \<notin> set (x @ 32 # l)" by simp_all
  moreover from this have "rstrip ((x @ [32]) @ l) = (x @ [32]) @ rstrip l"
    using rstrip_front [of l "x @ [32]"] solid_blank by blast
  ultimately show "rstrip (drop_cr (x @ 32 # l)) = x @ 32 # rstrip l \<and> l \<noteq> [] \<and> solid (hd l)"
    by (simp add: drop_cr_id)
qed

lemma fold_lines_split:
  "breakable x t y \<Longrightarrow> x \<noteq> [] \<Longrightarrow> fold_lines i a (x @ LF # t @ y) = fold_lines i a (x @ 32 # y)"
proof (induction "length x" arbitrary: x i a rule: less_induct)
  case less
  note b = less.prems(1) and xne = less.prems(2)
  have last: "solid (last x)" "CR \<notin> set x" using b xne by (auto simp: breakable_def)
  show ?case
  proof (cases "LF \<in> set x")
    case True
    then obtain l z where l: "x = l @ LF # z" "LF \<notin> set l" using lf_split by blast
    then have z: "z \<noteq> []" using last by (auto simp: solid_def)
    then have bz: "breakable z t y" using b l by (auto simp: breakable_def)
    have IH: "fold_lines i a (z @ LF # t @ y) = fold_lines i a (z @ 32 # y)" for i a
      using less.hyps [OF _ bz z] l by simp
    have "take_line (x @ w) = Some (l, z @ w)" for w using take_line_Some [of l "z @ w"] l by simp
    then show ?thesis by (simp add: fold_lines.simps [of i a "x @ _"] IH Let_def)
  next
    case False
    have ls: "lstrip (x @ w) = lstrip x @ w" "lstrip x \<noteq> []" for w
      using lstrip_front [OF xne] last solid_blank by blast+
    have "take_line (x @ LF # t @ y) = Some (x, t @ y)" using False by (rule take_line_Some)
    moreover have "lstrip (rstrip (drop_cr x)) = lstrip x"
      using last by (simp add: drop_cr_id rstrip_id solid_blank)
    ultimately have left: "fold_lines i a (x @ LF # t @ y) = fold_lines (i @ a @ lstrip x) [32] (t @ y)"
      using ls(2) by (simp add: fold_lines.simps [of i a])
    show ?thesis
    proof (cases "take_line y")
      case None
      then show ?thesis using joined_line(1) [OF b] False ls
        unfolding left after_break [OF b] by (simp add: fold_lines.simps [of i a "x @ 32 # y"])
    next
      case (Some p)
      obtain l r where p: "p = (l, r)" by fastforce
      have "rstrip (drop_cr (x @ 32 # l)) = x @ 32 # rstrip l" using joined_line(2) [OF b] False Some p by blast
      then have "fold_lines i a (x @ 32 # y) = fold_lines (i @ a @ lstrip x @ 32 # rstrip l) [32] r"
        using joined_line(1) [OF b] False Some p ls by (simp add: fold_lines.simps [of i a "x @ 32 # y"])
      then show ?thesis unfolding left after_break [OF b] using Some p by simp
    qed
  qed
qed

lemma foldLines_split:
  assumes b: "breakable x t y"
  shows "foldLines (x @ LF # t @ y) = foldLines (x @ 32 # y)"
proof (cases "LF \<in> set x")
  case True
  then obtain l z where l: "x = l @ LF # z" "LF \<notin> set l" using lf_split by blast
  then have z: "z \<noteq> []" using b by (auto simp: breakable_def solid_def)
  have bz: "breakable z t y" using b l z by (auto simp: breakable_def)
  have "take_line (x @ w) = Some (l, z @ w)" for w using take_line_Some [of l "z @ w"] l by simp
  then show ?thesis by (simp add: foldLines_def fold_lines_split [OF bz z])
next
  case False
  have "take_line (x @ LF # t @ y) = Some (x, t @ y)" using False by (rule take_line_Some)
  moreover have "rstrip (drop_cr x) = x" using b by (auto simp: breakable_def drop_cr_id rstrip_id solid_blank)
  ultimately have left: "foldLines (x @ LF # t @ y) = fold_lines x [32] (t @ y)" by (simp add: foldLines_def)
  show ?thesis
  proof (cases "take_line y")
    case None
    then show ?thesis using joined_line(1) [OF b] False unfolding left after_break [OF b] by (simp add: foldLines_def)
  next
    case (Some p)
    obtain l r where p: "p = (l, r)" by fastforce
    have "rstrip (drop_cr (x @ 32 # l)) = x @ 32 # rstrip l" using joined_line(2) [OF b] False Some p by blast
    then show ?thesis unfolding left after_break [OF b]
      using joined_line(1) [OF b] False Some p by (simp add: foldLines_def)
  qed
qed

section \<open>The folds of the flow mode\<close>

definition isolated :: "ustr \<Rightarrow> int \<Rightarrow> bool" where
  "isolated e k \<longleftrightarrow>
     0 < k \<and> at e k = Some 32 \<and> (\<exists>c. at e (k - 1) = Some c \<and> solid c) \<and> (\<exists>d. at e (k + 1) = Some d \<and> solid d)"

definition folds_ok :: "ustr \<Rightarrow> int \<Rightarrow> fold_state \<Rightarrow> bool" where
  "folds_ok e h st \<longleftrightarrow>
     (\<forall>k\<in>set (fs_folds st). isolated e k \<and> k \<le> h) \<and> sorted_wrt (<) (fs_folds st) \<and> fs_escaped st = [] \<and>
     (\<forall>k. fs_split st = Some k \<longrightarrow> isolated e k \<and> k \<le> h \<and> (\<forall>j\<in>set (fs_folds st). j < k))"

lemma folds_ok_mono: "folds_ok e h st \<Longrightarrow> h \<le> h' \<Longrightarrow> folds_ok e h' st"
  by (fastforce simp: folds_ok_def)

lemma fold_white_solid: "c \<noteq> None \<and> \<not> fold_white c \<longleftrightarrow> (\<exists>x. c = Some x \<and> solid x)"
  by (cases c) (auto simp: fold_white_def solid_def)

lemma folds_ok_fields [simp]:
  "folds_ok e h (st\<lparr>fs_prev := p\<rparr>) = folds_ok e h st"
  "folds_ok e h (st\<lparr>fs_overflow := b\<rparr>) = folds_ok e h st"
  "folds_ok e h (st\<lparr>fs_end := i\<rparr>) = folds_ok e h st"
  "folds_ok e h (st\<lparr>fs_i := i\<rparr>) = folds_ok e h st"
  by (simp_all add: folds_ok_def)

lemma folds_ok_drop: "folds_ok e h st \<Longrightarrow> folds_ok e h (st\<lparr>fs_split := None\<rparr>)"
  by (simp add: folds_ok_def)

lemma folds_ok_push:
  assumes "folds_ok e h st" and "fs_split st = Some k"
  shows "folds_ok e h (st\<lparr>fs_folds := fs_folds st @ [k], fs_split := None\<rparr>)"
  using assms by (auto simp: folds_ok_def sorted_wrt_append)

lemma folds_ok_split:
  assumes "folds_ok e (h - 1) st" and "isolated e h"
  shows "folds_ok e h (st\<lparr>fs_split := Some h\<rparr>)"
  using assms by (fastforce simp: folds_ok_def)

lemma fold_char_flow:
  assumes ok: "folds_ok e (fs_i st - 1) st" and p: "fs_prev st = at e (fs_i st - 1)" and r: "at e (fs_i st) = Some r"
  shows "\<exists>st'. fold_char e FOLD_FLOW c r st = Some st' \<and> folds_ok e (fs_i st) st' \<and> fs_i st' = fs_i st \<and> fs_prev st' = Some r"
proof -
  let ?h = "fs_i st"
  let ?new = "r = 32 \<and> fs_prev st \<noteq> None \<and> \<not> fold_white (fs_prev st) \<and> at e (?h + 1) \<noteq> None \<and> \<not> fold_white (at e (?h + 1))"
  define f where "f = (if ?new then Some ?h else fs_split st)"
  define st1 where "st1 = st\<lparr>fs_split := f\<rparr>"
  have "folds_ok e ?h st1"
  proof (cases ?new)
    case True
    then obtain x y where x: "at e (?h - 1) = Some x" "solid x" "at e (?h + 1) = Some y" "solid y"
      using fold_white_solid p by metis
    have "0 \<le> ?h - 1" using at_Some [OF x(1)] by simp
    then have "isolated e ?h" using True r x by (auto simp: isolated_def)
    then show ?thesis using True folds_ok_split [OF ok] by (simp add: st1_def f_def)
  next
    case False
    then have "st1 = st" by (auto simp: st1_def f_def)
    then show ?thesis using folds_ok_mono [OF ok] by simp
  qed
  moreover have "fold_char e FOLD_FLOW c r st =
      Some (if ?h < fs_end st then st1\<lparr>fs_prev := Some r\<rparr>
            else if f \<noteq> None \<and> f \<noteq> Some 0 then
              st1\<lparr>fs_folds := fs_folds st1 @ [the f], fs_split := None, fs_end := the f + c, fs_prev := Some r\<rparr>
            else st1\<lparr>fs_overflow := True, fs_prev := Some r\<rparr>)"
    by (simp add: fold_char_def Let_def f_def st1_def)
  moreover have "fs_split st1 = f" "fs_i st1 = fs_i st" by (simp_all add: st1_def)
  ultimately show ?thesis using folds_ok_push [of e ?h st1] by auto
qed

lemma fold_step_flow:
  assumes "folds_ok e (fs_i st - 1) st" and "fs_prev st = at e (fs_i st - 1)" and "at e (fs_i st) = Some r"
  shows "\<exists>st'. fold_step e n FOLD_FLOW c r st = Some st' \<and> folds_ok e (fs_i st) st' \<and> fs_i st' = fs_i st \<and> fs_prev st' = Some r"
proof (cases "r = LF")
  case True
  then show ?thesis using folds_ok_drop [OF folds_ok_mono [OF assms(1), of "fs_i st"]]
    by (simp add: fold_step_def folds_ok_def)
next
  case False
  then show ?thesis using fold_char_flow [OF assms] by (simp add: fold_step_def)
qed

lemma fold_loop_flow:
  "folds_ok e (fs_i st) st \<Longrightarrow> fs_prev st = at e (fs_i st) \<Longrightarrow>
     \<exists>st' h. fold_loop e n FOLD_FLOW c st = Some st' \<and> folds_ok e h st'"
proof (induction e n FOLD_FLOW c st rule: fold_loop.induct)
  case (1 e n c st)
  let ?st1 = "st\<lparr>fs_i := fs_i st + 1\<rparr>"
  show ?case
  proof (cases "at e (fs_i st + 1)")
    case None
    then show ?thesis using 1(2) by (auto simp: fold_loop.simps [of e n FOLD_FLOW c st])
  next
    case (Some r)
    obtain st2 where st2: "fold_step e n FOLD_FLOW c r ?st1 = Some st2" "folds_ok e (fs_i ?st1) st2"
      "fs_i st2 = fs_i ?st1" "fs_prev st2 = Some r"
      using fold_step_flow [of e ?st1 r n c] 1(2,3) Some by auto
    have "\<exists>st' h. fold_loop e n FOLD_FLOW c st2 = Some st' \<and> folds_ok e h st'"
      using 1(1) [OF refl Some st2(1)] st2 Some by simp
    then show ?thesis using Some st2(1) by (simp add: fold_loop.simps [of e n FOLD_FLOW c st])
  qed
qed

section \<open>Readers of folded text\<close>

text \<open>What a reader must promise for the folds of the flow mode to be invisible to it: it reads a
  break and the indentation behind it as the space they replace.\<close>

definition start_fits :: "fold_options \<Rightarrow> bool" where
  "start_fits opt \<longleftrightarrow>
     (\<forall>r. fo_indentAtStart opt = Some r \<longrightarrow>
        r \<le> fo_lineWidth opt - max 2 (if fo_lineWidth opt < fo_minContentWidth opt then 0 else fo_minContentWidth opt))"

locale fold_reader =
  fixes G :: "ustr \<Rightarrow> 'a" and n :: nat
  assumes read_break:
    "v \<noteq> [] \<Longrightarrow> z \<noteq> [] \<Longrightarrow> solid (last v) \<Longrightarrow> solid (hd z) \<Longrightarrow> CR \<notin> set v \<Longrightarrow> CR \<notin> set z \<Longrightarrow>
       G (v @ LF # replicate n 32 @ z) = G (v @ 32 # z)"
begin

lemma read_isolated:
  assumes k: "isolated e k" and e: "CR \<notin> set e" and v: "v \<noteq> []" "last v = e ! nat (k - 1)" "CR \<notin> set v"
  shows "G (v @ LF # replicate n 32 @ drop (nat k + 1) e) = G (v @ drop (nat k) e)"
proof -
  have b: "0 < k" "nat k < length e" "e ! nat k = 32" using k by (auto simp: isolated_def at_def split: if_splits)
  have d: "nat (k + 1) < length e" "solid (e ! nat (k + 1))" "solid (e ! nat (k - 1))"
    using k by (auto simp: isolated_def at_def split: if_splits)
  have s: "nat (k + 1) = nat k + 1" using b by simp
  have "hd (drop (nat k + 1) e) = e ! (nat k + 1)" using d(1) s by (simp add: hd_drop_conv_nth)
  moreover have "drop (nat k) e = 32 # drop (nat k + 1) e" using b by (simp add: Cons_nth_drop_Suc [symmetric])
  ultimately show ?thesis
    using read_break [of v "drop (nat k + 1) e"] v d e s by (auto dest: in_set_dropD)
qed

lemma read_pieces:
  "sorted_wrt (<) (k # cuts) \<Longrightarrow> \<forall>j\<in>set (k # cuts). isolated e j \<Longrightarrow> CR \<notin> set e \<Longrightarrow>
     v \<noteq> [] \<Longrightarrow> last v = e ! nat (k - 1) \<Longrightarrow> CR \<notin> set v \<Longrightarrow>
     G (fold_pieces e (replicate n 32) [] (k # cuts) v) = G (v @ drop (nat k) e)"
proof (induction cuts arbitrary: k v)
  case Nil
  have "0 < k" "nat k < length e" using Nil.prems(2) by (auto simp: isolated_def at_def split: if_splits)
  then have "slice e (k + 1) (int (length e)) = drop (nat k + 1) e"
    by (auto simp: slice_def clip_def min_def nat_add_distrib)
  then show ?case using read_isolated [of e k v] Nil.prems \<open>0 < k\<close> by simp
next
  case (Cons j cuts)
  have k: "0 < k" "nat k < length e" "k < j" "isolated e k" "isolated e j"
    using Cons.prems(1,2) by (auto simp: isolated_def at_def split: if_splits)
  have j: "nat j < length e" "0 < j" using k(5) by (auto simp: isolated_def at_def split: if_splits)
  have "j \<noteq> k + 1" using k(4,5) by (auto simp: isolated_def solid_def)
  then have kj: "k + 1 < j" using k(3) by simp
  let ?m = "take (nat j - (nat k + 1)) (drop (nat k + 1) e)"
  have sl: "slice e (k + 1) j = ?m" using k j kj by (auto simp: slice_def clip_def min_def nat_add_distrib)
  have len: "length ?m = nat j - (nat k + 1)" using j by simp
  then have mne: "?m \<noteq> []" using kj k(1) by auto
  have lm: "last ?m = e ! nat (j - 1)"
  proof -
    let ?p = "length ?m - 1"
    have "last ?m = ?m ! ?p" using mne by (rule last_conv_nth)
    also have "\<dots> = drop (nat k + 1) e ! ?p" by (rule nth_take) (unfold len, use kj k(1) in arith)
    also have "\<dots> = e ! (nat k + 1 + ?p)" by (rule nth_drop) (use k(2) in simp)
    also have "nat k + 1 + ?p = nat (j - 1)" unfolding len using kj k(1) by arith
    finally show ?thesis .
  qed
  let ?v = "v @ LF # replicate n 32 @ ?m"
  have dj: "?m @ drop (nat j) e = drop (nat k + 1) e"
  proof -
    have "nat j - (nat k + 1) + (nat k + 1) = nat j" using kj k(1) by arith
    then have "drop (nat j) e = drop (nat j - (nat k + 1)) (drop (nat k + 1) e)" by (simp only: drop_drop)
    then show ?thesis by (simp only: append_take_drop_id)
  qed
  have "G (fold_pieces e (replicate n 32) [] (j # cuts) ?v) = G (?v @ drop (nat j) e)"
  proof (rule Cons.IH)
    show "sorted_wrt (<) (j # cuts)" using Cons.prems(1) by simp
    show "\<forall>j\<in>set (j # cuts). isolated e j" using Cons.prems(2) by simp
    show "last ?v = e ! nat (j - 1)" using mne lm by simp
    show "CR \<notin> set ?v" using Cons.prems(3,6) by (auto dest: in_set_takeD in_set_dropD)
  qed (use Cons.prems in simp_all)
  also have "\<dots> = G (v @ drop (nat k) e)"
    using read_isolated [OF k(4) Cons.prems(3-6)] dj by simp
  finally show ?case using k(1) j(2) sl by simp
qed

lemma read_folded:
  assumes e: "CR \<notin> set e" and fit: "start_fits opt"
  shows "G (fst (foldFlowLines e (replicate n 32) FOLD_FLOW opt)) = G e"
proof -
  define i a where "i = fo_lineWidth opt" and "a = (if i < fo_minContentWidth opt then 0 else fo_minContentWidth opt)"
  define c where "c = max (1 + a) (1 + i - int n)"
  define d where "d = (case fo_indentAtStart opt of None \<Rightarrow> i - int n | Some r \<Rightarrow> i - r)"
  define st where "st = \<lparr>fs_folds = [], fs_escaped = [], fs_end = d, fs_split = None, fs_prev = None,
    fs_overflow = False, fs_i = - 1, fs_escStart = - 1, fs_escEnd = - 1\<rparr>"
  have "folds_ok e (fs_i st) st" "fs_prev st = at e (fs_i st)" by (simp_all add: st_def folds_ok_def at_def)
  then obtain st' h where loop: "fold_loop e (int n) FOLD_FLOW c st = Some st'" "folds_ok e h st'"
    using fold_loop_flow by blast
  have l: "(case fo_indentAtStart opt of None \<Rightarrow> ([], i - int n)
      | Some r \<Rightarrow> if r > i - max 2 a then ([0], i - int n) else ([], i - r)) = ([], d)"
    using fit by (auto simp: start_fits_def d_def i_def a_def split: option.split)
  have eq: "foldFlowLines e (replicate n 32) FOLD_FLOW opt =
      (if i \<le> 0 \<or> int (length e) \<le> c then (e, False)
       else case fs_folds st' of
              [] \<Rightarrow> (e, fs_overflow st')
            | k # _ \<Rightarrow> (fold_pieces e (replicate n 32) [] (fs_folds st') (slice e 0 k), fs_overflow st'))"
    using loop unfolding foldFlowLines_def Let_def i_def [symmetric] a_def [symmetric] length_replicate c_def [symmetric] l
    by (auto simp: st_def folds_ok_def split: list.split)
  show ?thesis
  proof (cases "fs_folds st'")
    case Nil
    then show ?thesis by (simp add: eq)
  next
    case (Cons k cuts)
    then have ok: "sorted_wrt (<) (k # cuts)" "\<forall>j\<in>set (k # cuts). isolated e j" using loop(2) by (auto simp: folds_ok_def)
    then have k: "0 < k" "nat k < length e" by (auto simp: isolated_def at_def split: if_splits)
    then have v: "slice e 0 k = take (nat k) e" by (auto simp: slice_def clip_def)
    have "G (fold_pieces e (replicate n 32) [] (k # cuts) (take (nat k) e)) = G (take (nat k) e @ drop (nat k) e)"
    proof (rule read_pieces [OF ok e])
      show "take (nat k) e \<noteq> []" using k by auto
      then show "last (take (nat k) e) = e ! nat (k - 1)" using k by (simp add: last_conv_nth nat_diff_distrib)
      show "CR \<notin> set (take (nat k) e)" using e by (auto dest: in_set_takeD)
    qed
    then show ?thesis by (simp add: eq Cons v)
  qed
qed

end

interpretation plain_reader: fold_reader foldLines n for n
  by unfold_locales (rule foldLines_split, auto simp: breakable_def)

interpretation single_reader: fold_reader "\<lambda>r. foldLines (unquote r)" n for n
proof
  fix v z :: ustr
  assume v: "v \<noteq> []" "z \<noteq> []" "solid (last v)" "solid (hd z)" "CR \<notin> set v" "CR \<notin> set z"
  have "breakable (tl v) (replicate n 32) (butlast z)"
    using v by (auto simp: breakable_def last_tl hd_append dest: list.set_sel(2) in_set_butlastD)
      (metis append_butlast_last_id hd_append2)
  moreover have "unquote (v @ LF # w @ z) = tl v @ LF # w @ butlast z" "unquote (v @ 32 # z) = tl v @ 32 # butlast z" for w
    using v by (simp_all add: unquote_def butlast_append)
  ultimately show "foldLines (unquote (v @ LF # replicate n 32 @ z)) = foldLines (unquote (v @ 32 # z))"
    using foldLines_split by simp
qed

interpretation ends_reader: fold_reader "\<lambda>r. (r = [], length r = 1, hd r, last r)" n for n
  by unfold_locales auto

lemma after_runs_id: "LF \<notin> set x \<Longrightarrow> after_runs ins x = x"
  by (induction x) auto

lemma after_runs_append: "LF \<notin> set x \<Longrightarrow> after_runs ins (x @ y) = x @ after_runs ins y"
  by (induction x) auto

lemma after_runs_run:
  "y = [] \<or> hd y \<noteq> LF \<Longrightarrow> after_runs ins (replicate (Suc k) LF @ y) = replicate (Suc k) LF @ ins @ after_runs ins y"
  by (induction k) auto

lemma fold_lines_empty: "fold_lines i [LF] (replicate m LF @ w) = fold_lines (i @ replicate m LF) [LF] w"
proof (induction m arbitrary: i)
  case (Suc m)
  have "take_line (LF # replicate m LF @ w) = Some ([], replicate m LF @ w)" using take_line_Some [of "[]"] by simp
  then have "fold_lines i [LF] (LF # replicate m LF @ w) = fold_lines (i @ [LF]) [LF] (replicate m LF @ w)"
    by (simp add: fold_lines.simps [of i] drop_cr_def rstrip_def lstrip_def)
  then show ?case using Suc [of "i @ [LF]"] by simp
qed simp

lemma fold_lines_run: "fold_lines i [32] (replicate (Suc m) LF @ w) = fold_lines (i @ replicate m LF) [LF] w"
proof -
  have "take_line (LF # replicate m LF @ w) = Some ([], replicate m LF @ w)" using take_line_Some [of "[]"] by simp
  then have "fold_lines i [32] (LF # replicate m LF @ w) = fold_lines i [LF] (replicate m LF @ w)"
    by (simp add: fold_lines.simps [of i] drop_cr_def rstrip_def lstrip_def)
  then show ?thesis using fold_lines_empty by simp
qed

text \<open>The first line of a text with its line feeds.\<close>

lemma lf_run:
  assumes "LF \<in> set s"
  obtains x k y where "s = x @ replicate (Suc k) LF @ y" "LF \<notin> set x" "y = [] \<or> hd y \<noteq> LF"
proof -
  obtain x z where x: "s = x @ LF # z" "LF \<notin> set x" using lf_split [OF assms] by blast
  let ?r = "takeWhile (\<lambda>c. c = LF) z" and ?y = "dropWhile (\<lambda>c. c = LF) z"
  have "?r = replicate (length ?r) LF"
    by (rule replicate_eqI [symmetric, THEN sym]) (auto dest: set_takeWhileD)
  moreover have "?y = [] \<or> hd ?y \<noteq> LF" using hd_dropWhile [of "\<lambda>c. c = LF" z] by auto
  ultimately show thesis using that [of x "length ?r" ?y] x by (metis append_Cons replicate_Suc takeWhile_dropWhile_id)
qed

lemma blank_at_break_suffix: "blank_at_break y \<Longrightarrow> blank_at_break (x @ y)"
proof (induction x)
  case (Cons c x)
  then show ?case by (cases "x @ y") auto
qed simp

lemma blank_at_break_append:
  assumes n: "\<not> blank_at_break (x @ replicate (Suc k) LF @ y)"
  shows "(x = [] \<or> \<not> blank (last x)) \<and> (y = [] \<or> \<not> blank (hd y)) \<and> \<not> blank_at_break y"
proof (intro conjI)
  show "x = [] \<or> \<not> blank (last x)"
  proof (rule ccontr)
    assume a: "\<not> (x = [] \<or> \<not> blank (last x))"
    then have x: "x = butlast x @ [last x]" by simp
    have "blank_at_break (last x # LF # replicate k LF @ y)" using a by simp
    from blank_at_break_suffix [OF this, of "butlast x"]
    have "blank_at_break ((butlast x @ [last x]) @ replicate (Suc k) LF @ y)" by simp
    then show False using n x by simp
  qed
  show "y = [] \<or> \<not> blank (hd y)"
  proof (rule ccontr)
    assume a: "\<not> (y = [] \<or> \<not> blank (hd y))"
    then obtain d r where y: "y = d # r" "blank d" by (cases y) auto
    have "blank_at_break (LF # y)" using y by simp
    from blank_at_break_suffix [OF this, of "x @ replicate k LF"] show False using n
      by (simp add: replicate_app_Cons_same)
  qed
  show "\<not> blank_at_break y"
    using n blank_at_break_suffix [of y "x @ replicate (Suc k) LF"] by auto
qed

lemma fold_lines_runs:
  assumes ind: "\<forall>c\<in>set ind. c = 32"
  shows "CR \<notin> set y \<Longrightarrow> \<not> blank_at_break y \<Longrightarrow> y = [] \<or> hd y \<noteq> LF \<and> \<not> blank (hd y) \<Longrightarrow>
    fold_lines i [LF] (ind @ after_runs (LF # ind) y) = i @ [LF] @ y"
proof (induction "length y" arbitrary: y i rule: less_induct)
  case less
  have b: "\<forall>c\<in>set ind. blank c" "LF \<notin> set ind" "CR \<notin> set ind" using ind by (auto simp: blank_def)
  show ?case
  proof (cases "LF \<in> set y")
    case False
    then have "take_line (ind @ y) = None" using b by (intro take_line_None) auto
    moreover have "lstrip y = y" using less.prems(3) by (intro lstrip_id) auto
    ultimately show ?thesis using False b by (simp add: after_runs_id fold_lines.simps [of i] lstrip_blanks)
  next
    case True
    then obtain x k z where s: "y = x @ replicate (Suc k) LF @ z" "LF \<notin> set x" "z = [] \<or> hd z \<noteq> LF"
      using lf_run by metis
    have p: "x = [] \<or> \<not> blank (last x)" "z = [] \<or> \<not> blank (hd z)" "\<not> blank_at_break z"
      using blank_at_break_append less.prems(2) s(1) by blast+
    have x: "x \<noteq> []" "\<not> blank (hd x)" "CR \<notin> set x" "CR \<notin> set z" using less.prems(1,3) s(1) by (auto simp: hd_append split: if_splits)
    let ?R = "ind @ after_runs (LF # ind) z"
    have eq: "ind @ after_runs (LF # ind) y = (ind @ x) @ LF # replicate (Suc k) LF @ ?R"
      using s by (simp add: after_runs_append after_runs_run del: replicate.simps) (simp add: replicate_app_Cons_same)
    have "rstrip (ind @ x) = ind @ x" using p(1) x(1) by (intro rstrip_id) simp
    then have "lstrip (rstrip (drop_cr (ind @ x))) = x"
      using x b by (simp add: drop_cr_id lstrip_blanks lstrip_id)
    moreover have "take_line ((ind @ x) @ LF # replicate (Suc k) LF @ ?R) = Some (ind @ x, replicate (Suc k) LF @ ?R)"
      using s(2) b by (intro take_line_Some) simp
    ultimately have "fold_lines i [LF] (ind @ after_runs (LF # ind) y) = fold_lines (i @ [LF] @ x) [32] (replicate (Suc k) LF @ ?R)"
      unfolding eq using x(1) by (simp add: fold_lines.simps [of i] del: replicate.simps)
    also have "\<dots> = fold_lines ((i @ [LF] @ x) @ replicate k LF) [LF] ?R" by (rule fold_lines_run)
    also have "\<dots> = ((i @ [LF] @ x) @ replicate k LF) @ [LF] @ z"
      using less.hyps [of z "(i @ [LF] @ x) @ replicate k LF"] s p x by force
    finally show ?thesis using s(1) by (simp add: replicate_app_Cons_same)
  qed
qed

lemma foldLines_runs:
  assumes ind: "\<forall>c\<in>set ind. c = 32" and s: "CR \<notin> set s" "\<not> blank_at_break s"
  shows "foldLines (after_runs (LF # ind) s) = s"
proof (cases "LF \<in> set s")
  case False
  then show ?thesis by (simp add: after_runs_id foldLines_def take_line_None)
next
  case True
  then obtain x k y where e: "s = x @ replicate (Suc k) LF @ y" "LF \<notin> set x" "y = [] \<or> hd y \<noteq> LF"
    using lf_run by metis
  have p: "x = [] \<or> \<not> blank (last x)" "y = [] \<or> \<not> blank (hd y)" "\<not> blank_at_break y"
    using blank_at_break_append s(2) e(1) by blast+
  let ?R = "ind @ after_runs (LF # ind) y"
  have eq: "after_runs (LF # ind) s = x @ LF # replicate (Suc k) LF @ ?R"
    using e by (simp add: after_runs_append after_runs_run del: replicate.simps) (simp add: replicate_app_Cons_same)
  have "take_line (x @ LF # replicate (Suc k) LF @ ?R) = Some (x, replicate (Suc k) LF @ ?R)"
    using e(2) by (rule take_line_Some)
  moreover have "rstrip (drop_cr x) = x" using s(1) e(1) p(1) by (simp add: drop_cr_id rstrip_id)
  ultimately have "foldLines (after_runs (LF # ind) s) = fold_lines x [32] (replicate (Suc k) LF @ ?R)"
    unfolding eq by (simp add: foldLines_def del: replicate.simps)
  also have "\<dots> = fold_lines (x @ replicate k LF) [LF] ?R" by (rule fold_lines_run)
  also have "\<dots> = (x @ replicate k LF) @ [LF] @ y"
    by (rule fold_lines_runs [OF ind]) (use e p s(1) in auto)
  finally show ?thesis using e(1) by (simp add: replicate_app_Cons_same)
qed

lemma double_quotes_hd: "s \<noteq> [] \<Longrightarrow> double_quotes s \<noteq> [] \<and> hd (double_quotes s) = hd s"
  by (cases s) auto

lemma double_quotes_set: "c \<noteq> 39 \<Longrightarrow> c \<in> set (double_quotes s) \<longleftrightarrow> c \<in> set s"
  by (induction s) auto

lemma blank_at_break_quotes: "blank_at_break (double_quotes s) = blank_at_break s"
proof (induction s rule: blank_at_break.induct)
  case (1 c d r)
  have step: "blank_at_break (x # double_quotes (d # r)) = (blank x \<and> d = LF \<or> x = LF \<and> blank d \<or> blank_at_break (double_quotes (d # r)))" for x
    by (cases "d = 39") (auto simp: blank_def)
  show ?case using 1 step by (cases "c = 39") (auto simp: blank_def)
qed auto

lemma undouble_quotes: "undouble (double_quotes s) = s"
proof (induction s)
  case (Cons c s)
  show ?case
  proof (cases "c = 39")
    case True
    then show ?thesis using Cons by simp
  next
    case False
    then show ?thesis using Cons by (cases "double_quotes s") auto
  qed
qed simp

definition spaces :: "ustr \<Rightarrow> bool" where
  "spaces t \<longleftrightarrow> (\<forall>c\<in>set t. c = 32)"

lemma spaces_replicate: "spaces t \<Longrightarrow> t = replicate (length t) 32"
  unfolding spaces_def by (metis replicate_length_same)

lemma block_indent_spaces: "spaces (sc_indent ctx) \<Longrightarrow> spaces (block_indent ctx s)"
  by (simp add: block_indent_def spaces_def)

lemma single_quoted_text:
  assumes ind: "spaces ind" and s: "CR \<notin> set s" "\<not> blank_at_break s"
  shows "foldLines (unquote ([39] @ after_runs (LF # ind) (double_quotes s) @ [39])) = double_quotes s"
    and "CR \<notin> set ([39] @ after_runs (LF # ind) (double_quotes s) @ [39])"
proof -
  have "CR \<notin> set (after_runs (LF # ind) x)" if "CR \<notin> set x" for x
    using that ind by (induction x) (auto simp: spaces_def)
  then show "CR \<notin> set ([39] @ after_runs (LF # ind) (double_quotes s) @ [39])"
    using s(1) by (simp add: double_quotes_set)
  show "foldLines (unquote ([39] @ after_runs (LF # ind) (double_quotes s) @ [39])) = double_quotes s"
    using foldLines_runs [of ind "double_quotes s"] ind s
    by (simp add: unquote_def spaces_def double_quotes_set blank_at_break_quotes)
qed

lemma singleQuotedString_value:
  assumes q: "so_singleQuote (sc_options ctx) \<noteq> Some False" "\<not> (sc_implicitKey ctx \<and> LF \<in> set s)" "\<not> blank_at_break s"
    and s: "CR \<notin> set s" and ind: "spaces (sc_indent ctx)" and fit: "sc_implicitKey ctx \<or> start_fits (getFoldOptions ctx False)"
  shows "singleQuotedValue (singleQuotedString s ctx) = (s, []) \<and> hd (singleQuotedString s ctx) = 39 \<and> singleQuotedString s ctx \<noteq> []"
proof -
  let ?ind = "block_indent ctx s"
  define r where "r = [39] @ after_runs (LF # ?ind) (double_quotes s) @ [39]"
  define w where "w = (if sc_implicitKey ctx then r else fst (foldFlowLines r ?ind FOLD_FLOW (getFoldOptions ctx False)))"
  have sp: "spaces ?ind" using ind by (rule block_indent_spaces)
  have w: "singleQuotedString s ctx = w" using q by (simp add: singleQuotedString_def r_def w_def Let_def)
  have r: "foldLines (unquote r) = double_quotes s" "CR \<notin> set r"
    unfolding r_def using single_quoted_text [OF sp s q(3)] by blast+
  obtain n where n: "?ind = replicate n 32" using spaces_replicate [OF sp] by blast
  have "foldLines (unquote w) = foldLines (unquote r)"
    unfolding w_def n using single_reader.read_folded [OF r(2)] fit by auto
  moreover have "(w = [], length w = 1, hd w, last w) = (r = [], length r = 1, hd r, last r)"
    unfolding w_def n using ends_reader.read_folded [OF r(2)] fit by auto
  moreover have "r \<noteq> []" "length r \<noteq> 1" "hd r = 39" "last r = 39" by (simp_all add: r_def)
  ultimately show ?thesis unfolding w using r(1) by (simp add: singleQuotedValue_def undouble_quotes)
qed

section \<open>Plain strings\<close>

lemma bad_pairs_break: "blank_at_break s \<Longrightarrow> bad_pairs s"
  by (induction s rule: bad_pairs.induct) (auto simp: bad_pair_def white_char_def)

lemma plain_text_value:
  assumes ind: "spaces ind" and s: "CR \<notin> set s" "\<not> cannot_be_plain s"
  shows "foldLines (after_runs (LF # ind) s) = s" "CR \<notin> set (after_runs (LF # ind) s)"
proof -
  have "\<not> blank_at_break s" using s(2) bad_pairs_break by (cases s) (auto simp: cannot_be_plain_def)
  then show "foldLines (after_runs (LF # ind) s) = s" using foldLines_runs ind s(1) by (simp add: spaces_def)
  show "CR \<notin> set (after_runs (LF # ind) s)"
    using s(1) ind by (induction s) (auto simp: spaces_def)
qed

section \<open>Every style reads back\<close>

text \<open>The type of token the lexer makes of a scalar, by its first character.\<close>

definition flow_type :: "ustr \<Rightarrow> token_type" where
  "flow_type src =
     (case src of
        c # _ \<Rightarrow> if c = 34 then TT_double_quoted else if c = 39 then TT_single_quoted else TT_scalar
      | [] \<Rightarrow> TT_scalar)"

definition reads_back :: "ustr \<Rightarrow> ustr \<Rightarrow> bool" where
  "reads_back src v \<longleftrightarrow> (\<exists>style. flow_value (flow_type src) src = Some (style, Some (v, [])))"

definition flow_ctx :: "string_ctx \<Rightarrow> bool" where
  "flow_ctx ctx \<longleftrightarrow>
     spaces (sc_indent ctx) \<and> (sc_implicitKey ctx \<or> sc_inFlow ctx \<and> start_fits (getFoldOptions ctx False))"

lemma double_back:
  assumes "kept_flat s ctx"
  shows "reads_back (doubleQuotedString s ctx) s"
proof -
  obtain w where "doubleQuotedString s ctx = [34] @ w @ [34]" by (rule doubleQuotedString_reads [OF assms])
  then have "flow_type (doubleQuotedString s ctx) = TT_double_quoted" by (simp add: flow_type_def)
  then show ?thesis using doubleQuotedString_value [OF assms] by (simp add: reads_back_def flow_value_def)
qed

lemma single_back:
  assumes flat: "kept_flat s ctx" and ctx: "flow_ctx ctx" and s: "CR \<notin> set s"
  shows "reads_back (singleQuotedString s ctx) s"
proof (cases "so_singleQuote (sc_options ctx) = Some False \<or> sc_implicitKey ctx \<and> LF \<in> set s \<or> blank_at_break s")
  case True
  then have "singleQuotedString s ctx = doubleQuotedString s ctx" by (auto simp: singleQuotedString_def)
  then show ?thesis using double_back [OF flat] by simp
next
  case False
  then have v: "singleQuotedValue (singleQuotedString s ctx) = (s, [])"
      "hd (singleQuotedString s ctx) = 39" "singleQuotedString s ctx \<noteq> []"
    using singleQuotedString_value [of ctx s] ctx s by (auto simp: flow_ctx_def)
  then have "flow_type (singleQuotedString s ctx) = TT_single_quoted"
    by (cases "singleQuotedString s ctx") (simp_all add: flow_type_def)
  then show ?thesis using v(1) by (simp add: reads_back_def flow_value_def)
qed

lemma quoted_back:
  "kept_flat s ctx \<Longrightarrow> flow_ctx ctx \<Longrightarrow> CR \<notin> set s \<Longrightarrow> reads_back (quotedString s ctx) s"
  using double_back single_back by (simp add: quotedString_def Let_def)

lemma plain_back:
  assumes ctx: "flow_ctx ctx" and s: "CR \<notin> set s" "\<not> cannot_be_plain s"
    and w: "w = after_runs (LF # sc_indent ctx) s \<and> sc_implicitKey ctx \<or>
      w = fst (foldFlowLines (after_runs (LF # sc_indent ctx) s) (sc_indent ctx) FOLD_FLOW (getFoldOptions ctx False)) \<and>
      start_fits (getFoldOptions ctx False)"
  shows "reads_back w s"
proof -
  define d where "d = after_runs (LF # sc_indent ctx) s"
  have sp: "spaces (sc_indent ctx)" using ctx by (simp add: flow_ctx_def)
  obtain n where n: "sc_indent ctx = replicate n 32" using spaces_replicate [OF sp] by blast
  have d: "foldLines d = s" "CR \<notin> set d" unfolding d_def using plain_text_value [OF sp s] by blast+
  have w: "w = d \<or> w = fst (foldFlowLines d (replicate n 32) FOLD_FLOW (getFoldOptions ctx False)) \<and>
      start_fits (getFoldOptions ctx False)"
    using w unfolding d_def [symmetric] by (auto simp: n)
  then have "foldLines w = foldLines d" using plain_reader.read_folded [OF d(2)] by auto
  moreover have "(w = [], length w = 1, hd w, last w) = (d = [], length d = 1, hd d, last d)"
    using w ends_reader.read_folded [OF d(2)] by auto
  moreover have "d \<noteq> [] \<Longrightarrow> hd d \<notin> plain_indicators"
    using s(2) by (cases s) (auto simp: d_def cannot_be_plain_def plain_indicators_def)
  ultimately have w': "foldLines w = s" "w \<noteq> [] \<Longrightarrow> hd w \<notin> plain_indicators" using d by auto
  then have "flow_type w = TT_scalar" by (cases w) (auto simp: flow_type_def plain_indicators_def)
  moreover have "plainValue w = (s, [])"
    using w' by (cases w) (auto simp: plainValue_def plain_indicators_def u_def)
  ultimately show ?thesis by (simp add: reads_back_def flow_value_def)
qed

lemma plainString_back:
  assumes flat: "kept_flat s ctx" and ctx: "flow_ctx ctx" and s: "CR \<notin> set s"
    and m: "\<not> (containsDocumentMarker s \<and> sc_indent ctx = [])"
  shows "reads_back (sr_text (plainString comment ty s ctx)) s"
proof -
  have q: "reads_back (quotedString s ctx) s" using quoted_back assms by blast
  define d where "d = after_runs (LF # sc_indent ctx) s"
  define w where "w = (if sc_implicitKey ctx then d
    else fst (foldFlowLines d (sc_indent ctx) FOLD_FLOW (getFoldOptions ctx False)))"
  have c: "sc_implicitKey ctx \<or> sc_inFlow ctx" using ctx by (auto simp: flow_ctx_def)
  then have "sr_text (plainString comment ty s ctx) = quotedString s ctx \<or>
      \<not> cannot_be_plain s \<and> sr_text (plainString comment ty s ctx) = w"
    using m unfolding plainString_def Let_def d_def [symmetric] w_def
    by (cases "sc_implicitKey ctx"; cases "containsDocumentMarker s") (simp_all add: just_def)
  then consider "sr_text (plainString comment ty s ctx) = quotedString s ctx"
    | "\<not> cannot_be_plain s" "sr_text (plainString comment ty s ctx) = w" by blast
  then show ?thesis
  proof cases
    case 1
    then show ?thesis using q by simp
  next
    case 2
    have "reads_back w s" using ctx by (intro plain_back [OF ctx s 2(1)]) (auto simp: w_def d_def flow_ctx_def)
    then show ?thesis using 2(2) by simp
  qed
qed

lemma unprintable_CR: "\<not> unprintable s \<Longrightarrow> CR \<notin> set s"
proof (induction s rule: unprintable.induct)
  case (1 c d r)
  then show ?case by (auto simp: control_def high_surrogate_def low_surrogate_def split: if_splits)
qed (auto simp: control_def)

lemma as_type_back:
  assumes flat: "kept_flat s ctx" and ctx: "flow_ctx ctx" and s: "CR \<notin> set s \<or> style = Some QUOTE_DOUBLE"
    and m: "\<not> (containsDocumentMarker s \<and> sc_indent ctx = [])" and r: "as_type comment ty s ctx style = Some r"
  shows "reads_back (sr_text r) s"
proof -
  have "sc_implicitKey ctx \<or> sc_inFlow ctx" using ctx by (auto simp: flow_ctx_def)
  then show ?thesis
    using r s plainString_back [OF flat ctx _ m] quoted_back [OF flat ctx] single_back [OF flat ctx] double_back [OF flat]
    by (auto simp: as_type_def just_def split: option.splits scalar_type.splits)
qed

lemma stringifyString_back:
  assumes flat: "kept_flat s ctx" and ctx: "flow_ctx ctx"
    and m: "\<not> (containsDocumentMarker s \<and> sc_indent ctx = [])" and r: "stringifyString comment ty s ctx = Some r"
  shows "reads_back (sr_text r) s"
proof -
  define style where "style = (if ty \<noteq> Some QUOTE_DOUBLE \<and> unprintable s then Some QUOTE_DOUBLE else ty)"
  have style: "CR \<notin> set s \<or> style = Some QUOTE_DOUBLE" using unprintable_CR by (auto simp: style_def)
  show ?thesis
  proof (cases "as_type comment ty s ctx style")
    case None
    then have "style \<noteq> Some QUOTE_DOUBLE" by (auto simp: as_type_def)
    then show ?thesis
      using as_type_back [OF flat ctx _ m] style r None by (simp add: stringifyString_def style_def [symmetric] Let_def)
  next
    case (Some r')
    then have "r' = r" using r by (simp add: stringifyString_def style_def [symmetric] Let_def)
    then show ?thesis using as_type_back [OF flat ctx style m] Some by simp
  qed
qed

section \<open>The contract of the writer\<close>

lemma resolve_back:
  "reads_back src s \<Longrightarrow>
     \<exists>v. resolveFlowScalar (flow_type src) off src None strict = Some v \<and> rs_value v = s \<and> rs_errors v = [] \<and>
       rs_range v = (off, off + int (length src), off + int (length src))"
  by (auto simp: reads_back_def resolveFlowScalar_def resolveEnd_def shift_def Let_def)


definition key_ctx :: string_ctx where
  "key_ctx =
     \<lparr>sc_options = default_options, sc_indent = [32, 32], sc_indentStep = [32, 32], sc_indentAtStart = None,
      sc_implicitKey = True, sc_inFlow = False, sc_forceBlockIndent = False, sc_actualString = True,
      sc_tagged = (\<lambda>d. d = u ''true'')\<rparr>"


text \<open>C22: Folding a flow scalar does not change what is read. Every line break the folding puts in
  stands for the single space it replaces, so that plain and single-quoted text resolve to the same
  string with any width; no limit on the length of words or lines is assumed.\<close>
theorem foldFlowLines_invisible:
  assumes "CR \<notin> set e" and "start_fits opt"
  shows "foldLines (fst (foldFlowLines e (replicate n 32) FOLD_FLOW opt)) = foldLines e \<and>
    fst (singleQuotedValue (fst (foldFlowLines e (replicate n 32) FOLD_FLOW opt))) = fst (singleQuotedValue e) \<and>
    (snd (singleQuotedValue (fst (foldFlowLines e (replicate n 32) FOLD_FLOW opt))) = [] \<longleftrightarrow> snd (singleQuotedValue e) = [])"
proof -
  let ?f = "fst (foldFlowLines e (replicate n 32) FOLD_FLOW opt)"
  have "(?f = [], length ?f = 1, hd ?f, last ?f) = (e = [], length e = 1, hd e, last e)"
    by (rule ends_reader.read_folded [OF assms])
  moreover have "foldLines (unquote ?f) = foldLines (unquote e)" by (rule single_reader.read_folded [OF assms])
  ultimately show ?thesis
    using plain_reader.read_folded [OF assms] by (auto simp: singleQuotedValue_def)
qed

theorem foldFlowLines_invisible_witness:
  "fst (foldFlowLines (u ''one two six'') (replicate 2 32) FOLD_FLOW
         \<lparr>fo_indentAtStart = None, fo_lineWidth = 8, fo_minContentWidth = 2\<rparr>) = u ''one'' @ [LF, 32, 32] @ u ''two'' @ [LF, 32, 32] @ u ''six'' \<and>
   foldLines (u ''one'' @ [LF, 32, 32] @ u ''two'' @ [LF, 32, 32] @ u ''six'') = u ''one two six''"
proof -
  have f: "fst (foldFlowLines (u ''one two six'') (replicate 2 32) FOLD_FLOW
      \<lparr>fo_indentAtStart = None, fo_lineWidth = 8, fo_minContentWidth = 2\<rparr>) = u ''one'' @ [LF, 32, 32] @ u ''two'' @ [LF, 32, 32] @ u ''six''"
    by code_simp
  have "CR \<notin> set (u ''one two six'')" "start_fits \<lparr>fo_indentAtStart = None, fo_lineWidth = 8, fo_minContentWidth = 2\<rparr>"
    by (simp_all add: u_def start_fits_def)
  note foldFlowLines_invisible [OF this, of 2]
  moreover have "foldLines (u ''one two six'') = u ''one two six''" by code_simp
  ultimately show ?thesis using f by simp
qed

text \<open>C24: Double-quoted text carries every string. Control characters, quotes, backslashes, lone
  surrogates and line feeds are escaped on writing and restored on reading, and no error is reported,
  as long as the text is not broken up into lines.\<close>
theorem doubleQuoted_reads_back:
  assumes "kept_flat s ctx"
  shows "doubleQuotedValue (doubleQuotedString s ctx) = Some (s, [])"
  using assms by (rule doubleQuotedString_value)

theorem doubleQuoted_reads_back_witness:
  "doubleQuotedString [7, 34, LF, 11] key_ctx = [34, 92, 97, 92, 34, 92, 110, 92, 118, 34] \<and>
   doubleQuotedValue ([34, 92, 97, 92, 34, 92, 110, 92, 118, 34]) = Some ([7, 34, LF, 11], [])"
proof -
  have w: "doubleQuotedString [7, 34, LF, 11] key_ctx = [34, 92, 97, 92, 34, 92, 110, 92, 118, 34]"
    by code_simp
  have "kept_flat [7, 34, LF, 11] key_ctx" by (simp add: kept_flat_def key_ctx_def)
  from doubleQuoted_reads_back [OF this] w show ?thesis by simp
qed

text \<open>C25: Single-quoted text reads back in every context, folded or not. When the string can be
  single-quoted, the value of what is written is the string: quotes are doubled and undone, line feeds
  are written as blank lines, and the breaks of the folding are read as spaces.\<close>
theorem singleQuoted_reads_back:
  assumes "so_singleQuote (sc_options ctx) \<noteq> Some False" and "\<not> (sc_implicitKey ctx \<and> LF \<in> set s)"
    and "\<not> blank_at_break s" and "CR \<notin> set s" and "spaces (sc_indent ctx)"
    and "sc_implicitKey ctx \<or> start_fits (getFoldOptions ctx False)"
  shows "singleQuotedValue (singleQuotedString s ctx) = (s, [])"
  using singleQuotedString_value [OF assms] by blast

theorem singleQuoted_reads_back_witness:
  "singleQuotedString (u ''it'' @ [39] @ u ''s'' @ [LF] @ u ''on'') (key_ctx\<lparr>sc_implicitKey := False\<rparr>) =
     [39] @ u ''it'' @ [39, 39] @ u ''s'' @ [LF, LF, 32, 32] @ u ''on'' @ [39] \<and>
   singleQuotedValue ([39] @ u ''it'' @ [39, 39] @ u ''s'' @ [LF, LF, 32, 32] @ u ''on'' @ [39]) =
     (u ''it'' @ [39] @ u ''s'' @ [LF] @ u ''on'', [])"
proof -
  let ?s = "u ''it'' @ [39] @ u ''s'' @ [LF] @ u ''on''" and ?c = "key_ctx\<lparr>sc_implicitKey := False\<rparr>"
  have w: "singleQuotedString ?s ?c = [39] @ u ''it'' @ [39, 39] @ u ''s'' @ [LF, LF, 32, 32] @ u ''on'' @ [39]"
    by code_simp
  have "so_singleQuote (sc_options ?c) \<noteq> Some False" "\<not> (sc_implicitKey ?c \<and> LF \<in> set ?s)" "\<not> blank_at_break ?s"
    "CR \<notin> set ?s" "spaces (sc_indent ?c)" "sc_implicitKey ?c \<or> start_fits (getFoldOptions ?c False)"
    by (simp_all add: key_ctx_def default_options_def u_def blank_def spaces_def start_fits_def getFoldOptions_def)
  from singleQuoted_reads_back [OF this] w show ?thesis by simp
qed

text \<open>The test for strings that cannot be plain looks for a blank behind a colon, not for a line feed.
  In a flow sequence such a string is written plain, and the lexer ends the scalar at its colon.\<close>

theorem plain_colon_at_break_is_split:
  "map_option sr_text (stringifyString None None (u ''a:'' @ [LF] @ u ''b'') (key_ctx\<lparr>sc_implicitKey := False, sc_inFlow := True\<rparr>)) =
     Some (u ''a:'' @ [LF, LF, 32, 32] @ u ''b'') \<and>
   lx_out (snd (lex_rounds 40 False (lex_input ([91] @ u ''a:'' @ [LF, LF, 32, 32] @ u ''b]'') False new_lexer))) =
     [Mark 2, Text [91], Mark 31, Text [97], Text [58], Text [LF], Text [LF], Text [32, 32], Mark 31, Text [98], Text [93]]"
  by (rule conjI; code_simp)

end
