(* ===== verification/Spec2Isabelle.thy ===== *)
theory Spec2Isabelle
  imports SchedulerStep SiteQuery SortedSet YamlTermination YamlRoundtrip
begin

text \<open>
  Dexaflow is an orchestrator of task graphs (DAGs) that is compatible with Airflow: a control plane in
  Go with a scheduler, a web UI that is shipped as a JavaScript bundle, and a web site with a search
  over the API documentation. This development models the parts of it that decide: which graphs are
  accepted, when a task starts, is retried or is given up, which runs a tick creates and what it
  dispatches; and, on the JavaScript side, the YAML reader and writer of the UI and the search of the
  web site. File names below are relative to \<open>src/\<close>.

  \<^bold>\<open>How the parts interact.\<close> A DAG specification is validated (\<open>TaskGraph\<close>) before it is stored.
  Each tick, the scheduler (\<open>SchedulerStep\<close>) takes a snapshot of every active run, has the pure planner
  (\<open>Planner\<close>) decide the transitions of its tasks by the trigger rules (\<open>StateMachine\<close>), applies them
  through the store and the dispatcher, threads the budgets of tasks and pools from run to run, and
  creates the runs that are due by their cron schedule (\<open>DueRuns\<close>). The web UI shows and edits
  configuration as YAML text (\<open>YamlLexer\<close>, \<open>YamlScalar\<close>, \<open>YamlCompose\<close> read, \<open>YamlString\<close> writes). The
  page of the API documentation loads or builds an index (\<open>SiteSearch\<close>, \<open>SiteDocuments\<close>) and searches it
  (\<open>SiteQuery\<close>).

  \<^bold>\<open>Theories and sources.\<close>

  \<^item> \<open>Prelude\<close>: Go maps with the locale \<open>go_map\<close>, times, 64-bit wrap-around, counting.
  \<^item> \<open>Domain\<close>: \<open>internal/domain\<close> (\<open>state.go\<close>, \<open>dag.go\<close>, \<open>schedule.go\<close>, \<open>identifiers.go\<close>, \<open>schema.go\<close>, \<open>pool.go\<close>,
    alert types of \<open>config.go\<close>): the types of states and specifications and the checks on single fields.
  \<^item> \<open>TaskGraph\<close>: \<open>internal/domain/graph.go\<close> and \<open>DAGSpec.Validate\<close>. \<open>findTaskCycle\<close> is the three-colour
    search. Shown: validation accepts exactly the executable graphs, a reported cycle is a cycle, and
    an accepted DAG is runnable.
  \<^item> \<open>StateMachine\<close>: \<open>internal/scheduler/state_machine.go\<close>, \<open>dispatch_backoff.go\<close>. Shown: the counting
    trigger rules equal the rules read off the states, their decisions are final and are made once
    all upstreams have settled, and the closed form of the backoff.
  \<^item> \<open>Planner\<close>: \<open>internal/scheduler/plan.go\<close>; \<open>RunState\<close> is the snapshot, \<open>PlanRun\<close> and \<open>FinalizeRun\<close> the
    two functions. Shown: what a planned transition rests on and that such transitions are planned,
    one per task, within the caps; no deadlock; when a run is over; bounds on re-placement.
  \<^item> \<open>DueRuns\<close>: \<open>internal/scheduler/catchup.go\<close>, \<open>cron.go\<close> and \<open>createDueRuns\<close>. Shown: the slots are the
    earliest missed activations, when skipping ahead finds the latest one, the cap on active runs, and
    that the enumeration ends when \<open>Next\<close> progresses and does not when it gives the zero time.
  \<^item> \<open>SchedulerStep\<close>: \<open>internal/scheduler/scheduler.go\<close>, \<open>Step\<close> and all it calls. Interfaces are logs of
    calls answered by an arbitrary environment, with errors and panics. Shown: the cap on active tasks
    across the runs of a DAG when no run fails, that it is exceeded when a run fails after a dispatch,
    and that tasks are marked only after the dispatcher has answered.
  \<^item> \<open>SiteSearch\<close>, \<open>SiteDocuments\<close>, \<open>SiteQuery\<close>, \<open>SortedSet\<close>: \<open>website/static/python-api/search.js\<close> (and
    \<open>website/postcss.config.js\<close>): tokenizer, pipeline, inverted index, documents, configuration, search and
    ordered sets. Shown: the index refines a map of documents (locale \<open>document_map\<close>), its document
    frequencies stay right, a search of the page finds the documents that contain the query's words,
    and the sorted array refines a set (locale \<open>ordered_set\<close>).
  \<^item> \<open>YamlLexer\<close>, \<open>YamlTermination\<close>, \<open>YamlScalar\<close>, \<open>YamlCompose\<close>, \<open>YamlString\<close>, \<open>YamlRoundtrip\<close>:
    \<open>internal/ui/assets/assets/index-DHyr8oiy.js\<close>, lines 167 to 268. Shown: the lexer is lossless, stays well
    typed and ends; scalars resolve to their value or the error the code reports; a string that is
    written is read back, in every style the theorems name; folding is invisible to the reader (locale
    \<open>fold_reader\<close>); what the helpers of the composer find.

  \<^bold>\<open>Conventions.\<close> A record stands for a struct or an object, a datatype for an enumeration. A Go function
  that returns an error has a sum type. A function that may throw, or a loop that may not end, has an
  option type, and theorems state that the result exists. Code that is not in the repository is a
  parameter: the cron library (\<open>activates\<close> and \<open>progressing\<close> state what it documents of \<open>Next\<close>), the
  JSON schema library, the quantity parser, stemmer and stop words, square root and logarithm.

  \<^bold>\<open>Bounds and fuel.\<close> The depth-first search of \<open>TaskGraph\<close> has one unit of fuel per declared task and one
  more; \<open>visit_enough_fuel\<close> shows that this suffices. The loop of the lexer is iterated a given number of
  rounds; \<open>YamlTermination\<close> shows that \<open>2 n + 1\<close> rounds suffice for \<open>n\<close> characters. All other loops are
  total functions, or partial functions for which \<open>None\<close> is a loop that does not end.

  \<^bold>\<open>Lines of the bundles.\<close> The two JavaScript files are minified: the map from definitions to lines names
  whole lines, and several of them (192, 207, 229, 244, 268 and 272 of the UI bundle, line 2 of the search)
  hold much more code than the definitions mapped to them translate. What is modelled is the function
  the map names, not the rest of its line.

  \<^bold>\<open>Not modelled.\<close> Of the scheduler the ticker loop, the leadership flags and locks and the heartbeat:
  clocks and concurrency. Of the Go code the store, dispatch and executors, agent, API, authentication,
  logs, secrets, XCom, alert delivery, command line and configuration: these are calls of databases,
  Kubernetes, processes, networks and cryptographic libraries, which the models take as parameters
  where they use them. Of the UI bundle the React application and, of its YAML library, the parser that
  builds the syntax tree, the composer of collections and the schema: classes over a mutable tree with
  dynamic dispatch and browser objects. Of the search the stemmer, which the page removes from the
  pipeline, the event emitter, and the cache of the inverse document frequencies that only events
  empty; its scores are numbers of an ordered field, so the rounding of floating point is left out.
  The Python parser and runtime import and execute user code.
\<close>

end
